(* ===== verification/Prelude.thy ===== *)
theory Prelude
  imports Main "HOL-Library.Word"
begin

unbundle bit_operations_syntax

text \<open>
  Shared vocabulary of the development: the C integer types as words, the collections of
  rewrite rules the component theories extend, the reading of machine-word operations as
  integer arithmetic (one lemma per C operator, conditional on there being no wrap-around),
  and positional values of word arrays. A C array of bytes or of 64-bit limbs in
  little-endian order is a word list, and \<open>le_val\<close> is the number it denotes.
\<close>

section \<open>C integer types\<close>

type_synonym u8 = "8 word"
type_synonym u16 = "16 word"
type_synonym u32 = "32 word"
type_synonym u64 = "64 word"
type_synonym u128 = "128 word"

named_theorems word_arith \<open>readings of word operations as integer arithmetic\<close>
named_theorems limb_defs \<open>definitions unfolded in proofs about limb arithmetic\<close>

section \<open>Machine operations as integer operations\<close>

lemma uint_add_exact:
  fixes a b :: "'a::len word"
  assumes "uint a + uint b < 2 ^ LENGTH('a)"
  shows "uint (a + b) = uint a + uint b"
  using assms by (simp add: uint_word_ariths(1))

lemma uint_sub_exact:
  fixes a b :: "'a::len word"
  assumes "uint b \<le> uint a"
  shows "uint (a - b) = uint a - uint b"
  using assms by (simp add: uint_sub_lem word_le_def)

lemma uint_mult_exact:
  fixes a b :: "'a::len word"
  assumes "uint a * uint b < 2 ^ LENGTH('a)"
  shows "uint (a * b) = uint a * uint b"
  using assms by (simp add: uint_word_ariths)

lemma uint_drop_bit [word_arith]: "uint (drop_bit n (w::'a::len word)) = uint w div 2 ^ n"
  unfolding unsigned_drop_bit_eq
  by (simp add: drop_bit_eq_div [where ?'a = int] take_bit_eq_mod [where ?'a = int])

lemma uint_push_bit [word_arith]:
  "uint (push_bit n (w::'a::len word)) = uint w * 2 ^ n mod 2 ^ LENGTH('a)"
  unfolding unsigned_push_bit_eq
  by (simp add: push_bit_eq_mult [where ?'a = int] take_bit_eq_mod [where ?'a = int])

lemma uint_and_mask [word_arith]: "uint ((w::'a::len word) AND mask n) = uint w mod 2 ^ n"
  unfolding take_bit_eq_mask [symmetric] unsigned_take_bit_eq
  by (simp add: take_bit_eq_mod [where ?'a = int])

lemma uint_ucast_mod: "uint (ucast (w::'a::len word) :: 'b::len word) = uint w mod 2 ^ LENGTH('b)"
  by (simp add: unsigned_ucast_eq take_bit_eq_mod)

lemma uint_ucast_widen:
  "LENGTH('a) \<le> LENGTH('b) \<Longrightarrow> uint (ucast (w::'a::len word) :: 'b::len word) = uint w"
  by (simp add: unsigned_ucast_eq take_bit_int_eq_self_iff order_less_le_trans [OF uint_lt2p])

lemma uint_or_disjoint:
  fixes a b :: "'a::len word"
  assumes "uint a < 2 ^ n" and "uint b mod 2 ^ n = 0"
  shows "uint (a OR b) = uint a + uint b"
proof -
  have "take_bit n (uint a) = uint a"
    using assms(1) by (simp add: take_bit_int_eq_self_iff)
  moreover have "take_bit n (uint b) = 0"
    using assms(2) by (simp add: take_bit_eq_mod)
  ultimately have "uint a AND uint b = 0"
    by (metis and_zero_eq take_bit_and take_bit_eq_mask and.assoc and.commute)
  then show ?thesis
    by (simp add: uint_or disjunctive_add_eq_or)
qed

lemma uint_nonneg_less [simp]: "0 \<le> uint (w::'a::len word)" "uint (w::'a::len word) < 2 ^ LENGTH('a)"
  by simp_all

lemma uint_div_nonneg [simp]: "0 \<le> uint (w::'a::len word) div numeral k"
  by (simp add: pos_imp_zdiv_nonneg_iff)

lemma uint_64_less: "uint (w::u64) < 18446744073709551616"
  using uint_lt2p [of w] by simp

section \<open>Casts between 64 and 128 bits\<close>

definition wide :: "u64 \<Rightarrow> u128" where
  "wide x = ucast x"

definition narrow :: "u128 \<Rightarrow> u64" where
  "narrow x = ucast x"

lemma uint_wide [word_arith]: "uint (wide x) = uint x"
  by (simp add: wide_def uint_ucast_widen)

lemma uint_narrow: "uint (narrow x) = uint x mod 2 ^ 64"
  by (simp add: narrow_def uint_ucast_mod)

lemma uint_narrow_exact: "uint x < 2 ^ 64 \<Longrightarrow> uint (narrow x) = uint x"
  by (simp add: uint_narrow)

lemma uint_wide_mult: "uint (wide a * wide b) = uint a * uint b"
proof (subst uint_mult_exact)
  have "uint a * uint b < 2 ^ 64 * 2 ^ 64"
    using uint_lt2p [of a] uint_lt2p [of b] by (intro mult_strict_mono) simp_all
  then show "uint (wide a) * uint (wide b) < 2 ^ LENGTH(128)"
    by (simp add: uint_wide)
qed (simp add: uint_wide)

lemma uint_split_64: "uint (narrow x) + 2 ^ 64 * uint (narrow (drop_bit 64 x)) = uint (x :: u128)"
proof -
  have "uint x div 2 ^ 64 < 2 ^ 64" using uint_lt2p [of x] by simp
  then have "uint (narrow (drop_bit 64 x)) = uint x div 2 ^ 64"
    by (simp add: uint_narrow uint_drop_bit)
  moreover have "uint (narrow x) = uint x mod 2 ^ 64" by (rule uint_narrow)
  ultimately show ?thesis by simp
qed

section \<open>Positional values\<close>

primrec le_val :: "'a::len word list \<Rightarrow> int" where
  "le_val [] = 0"
| "le_val (x # xs) = uint x + 2 ^ LENGTH('a) * le_val xs"

definition be_val :: "'a::len word list \<Rightarrow> int" where
  "be_val xs = le_val (rev xs)"

primrec le_digits :: "nat \<Rightarrow> int \<Rightarrow> 'a::len word list" where
  "le_digits 0 v = []"
| "le_digits (Suc n) v = word_of_int v # le_digits n (v div 2 ^ LENGTH('a))"

lemma le_val_nonneg [simp]: "0 \<le> le_val xs"
  by (induction xs) simp_all

lemma le_val_append:
  "le_val (xs @ ys) = le_val xs + 2 ^ (LENGTH('a) * length xs) * le_val (ys :: 'a::len word list)"
  by (induction xs) (simp_all add: algebra_simps power_add)

lemma le_val_less: "le_val (xs :: 'a::len word list) < 2 ^ (LENGTH('a) * length xs)"
proof (induction xs)
  case Nil
  then show ?case by simp
next
  case (Cons x xs)
  have "uint x + 2 ^ LENGTH('a) * le_val xs < 2 ^ LENGTH('a) * (1 + le_val xs)"
    using uint_lt2p [of x] by (simp add: algebra_simps)
  also have "\<dots> \<le> 2 ^ LENGTH('a) * 2 ^ (LENGTH('a) * length xs)"
    using Cons.IH by (intro mult_left_mono) simp_all
  finally show ?case by (simp add: power_add)
qed

lemma le_val_sum: "le_val xs = (\<Sum>i<length xs. uint (xs ! i) * 2 ^ (LENGTH('a) * i))"
  for xs :: "'a::len word list"
proof (induction xs)
  case Nil
  then show ?case by simp
next
  case (Cons x xs)
  have "(\<Sum>i<length (x # xs). uint ((x # xs) ! i) * 2 ^ (LENGTH('a) * i))
      = uint x + (\<Sum>i<length xs. uint (xs ! i) * 2 ^ (LENGTH('a) * Suc i))"
    unfolding length_Cons by (subst sum.lessThan_Suc_shift) simp
  also have "(\<Sum>i<length xs. uint (xs ! i) * 2 ^ (LENGTH('a) * Suc i)) = 2 ^ LENGTH('a) * le_val xs"
    by (simp add: Cons.IH sum_distrib_left power_add algebra_simps)
  finally show ?case by simp
qed

lemma le_val_replicate_0 [simp]: "le_val (replicate n (0::'a::len word)) = 0"
  by (induction n) simp_all

lemma le_val_inj:
  "length xs = length ys \<Longrightarrow> le_val xs = le_val (ys :: 'a::len word list) \<Longrightarrow> xs = ys"
proof (induction xs ys rule: list_induct2)
  case Nil
  then show ?case by simp
next
  case (Cons x xs y ys)
  have "uint x = le_val (x # xs) mod 2 ^ LENGTH('a)" by simp
  also have "\<dots> = le_val (y # ys) mod 2 ^ LENGTH('a)" using Cons.prems by (rule arg_cong)
  also have "\<dots> = uint y" by simp
  finally have xy: "uint x = uint y" .
  then have "le_val xs = le_val ys" using Cons.prems by simp
  with Cons.IH xy show ?case by (simp add: word_uint_eq_iff)
qed

lemma le_val_take: "le_val (take n (xs :: 'a::len word list)) = le_val xs mod 2 ^ (LENGTH('a) * n)"
proof (cases "n \<le> length xs")
  case True
  have "le_val xs = le_val (take n xs) + 2 ^ (LENGTH('a) * n) * le_val (drop n xs)"
    using le_val_append [of "take n xs" "drop n xs"] True by (simp add: min_def)
  moreover have "le_val (take n xs) < 2 ^ (LENGTH('a) * n)"
    using le_val_less [of "take n xs"] True by (simp add: min_absorb2)
  ultimately show ?thesis by simp
next
  case False
  have "le_val xs < 2 ^ (LENGTH('a) * length xs)" by (rule le_val_less)
  also have "\<dots> \<le> 2 ^ (LENGTH('a) * n)"
    using False by (intro power_increasing) simp_all
  finally show ?thesis using False by simp
qed

lemma le_val_drop: "le_val (drop n (xs :: 'a::len word list)) = le_val xs div 2 ^ (LENGTH('a) * n)"
proof (cases "n \<le> length xs")
  case True
  have "le_val xs = le_val (take n xs) + 2 ^ (LENGTH('a) * n) * le_val (drop n xs)"
    using le_val_append [of "take n xs" "drop n xs"] True by (simp add: min_def)
  moreover have "le_val (take n xs) < 2 ^ (LENGTH('a) * n)"
    using le_val_less [of "take n xs"] True by (simp add: min_absorb2)
  ultimately show ?thesis by simp
next
  case False
  have "le_val xs < 2 ^ (LENGTH('a) * length xs)" by (rule le_val_less)
  also have "\<dots> \<le> 2 ^ (LENGTH('a) * n)"
    using False by (intro power_increasing) simp_all
  finally show ?thesis using False by simp
qed

lemma uint_nth_le_val:
  fixes xs :: "'a::len word list"
  assumes "i < length xs"
  shows "uint (xs ! i) = le_val xs div 2 ^ (LENGTH('a) * i) mod 2 ^ LENGTH('a)"
proof -
  have "le_val (drop i xs) = uint (xs ! i) + 2 ^ LENGTH('a) * le_val (drop (Suc i) xs)"
    using assms by (simp add: Cons_nth_drop_Suc [symmetric])
  then have "uint (xs ! i) = le_val (drop i xs) mod 2 ^ LENGTH('a)" by simp
  then show ?thesis by (simp add: le_val_drop)
qed

lemma bit_le_val:
  fixes xs :: "'a::len word list"
  assumes "i < LENGTH('a) * length xs"
  shows "bit (le_val xs) i \<longleftrightarrow> bit (xs ! (i div LENGTH('a))) (i mod LENGTH('a))"
proof -
  let ?w = "LENGTH('a)"
  have j: "i div ?w < length xs" using assms by (simp add: less_mult_imp_div_less mult.commute)
  have "bit (xs ! (i div ?w)) (i mod ?w) \<longleftrightarrow> bit (uint (xs ! (i div ?w))) (i mod ?w)"
    by (simp add: bit_uint_iff)
  also have "\<dots> \<longleftrightarrow> bit (take_bit ?w (drop_bit (?w * (i div ?w)) (le_val xs))) (i mod ?w)"
    by (simp add: uint_nth_le_val [OF j] take_bit_eq_mod drop_bit_eq_div)
  also have "\<dots> \<longleftrightarrow> bit (le_val xs) (?w * (i div ?w) + i mod ?w)"
    by (simp add: bit_take_bit_iff bit_drop_bit_eq)
  finally show ?thesis by simp
qed

lemma length_le_digits [simp]: "length (le_digits n v :: 'a::len word list) = n"
  by (induction n arbitrary: v) simp_all

lemma le_val_le_digits:
  "le_val (le_digits n v :: 'a::len word list) = v mod 2 ^ (LENGTH('a) * n)"
proof (induction n arbitrary: v)
  case 0
  then show ?case by simp
next
  case (Suc n)
  have "v mod (2 ^ LENGTH('a) * 2 ^ (LENGTH('a) * n))
      = 2 ^ LENGTH('a) * (v div 2 ^ LENGTH('a) mod 2 ^ (LENGTH('a) * n)) + v mod 2 ^ LENGTH('a)"
    by (rule zmod_zmult2_eq) simp
  then show ?case
    by (simp add: Suc.IH power_add uint_word_of_int)
qed

lemma nth_le_digits:
  "i < n \<Longrightarrow> le_digits n v ! i = (word_of_int (v div 2 ^ (LENGTH('a) * i)) :: 'a::len word)"
proof (induction n arbitrary: i v)
  case (Suc n)
  then show ?case by (cases i) (simp_all add: power_add zdiv_zmult2_eq)
qed simp

lemma le_digits_le_val [simp]: "length xs = n \<Longrightarrow> le_digits n (le_val xs) = (xs :: 'a::len word list)"
  using le_val_less [of xs] by (intro le_val_inj) (simp_all add: le_val_le_digits)

lemma bytes_of_word: "map (\<lambda>j. ucast (drop_bit (8 * j) x)) [0..<n] = (le_digits n (uint x) :: u8 list)"
  for x :: "'a::len word"
proof (rule nth_equalityI)
  show "map (\<lambda>j. ucast (drop_bit (8 * j) x)) [0..<n] ! i = (le_digits n (uint x) :: u8 list) ! i"
    if "i < length (map (\<lambda>j. ucast (drop_bit (8 * j) x) :: u8) [0..<n])" for i
    using that by (simp add: nth_le_digits word_uint_eq_iff uint_ucast_mod uint_drop_bit uint_word_of_int)
qed simp

lemma sum_list_upt: "(\<Sum>j\<leftarrow>[m..<n]. f j) = sum f {m..<n}"
  by (simp add: interv_sum_list_conv_sum_set_nat)

section \<open>Bit fields of integers\<close>

lemma field_of_field:
  "m + k \<le> n \<Longrightarrow> x mod 2 ^ n div 2 ^ m mod 2 ^ k = x div 2 ^ m mod (2 ^ k :: int)"
  by (simp flip: take_bit_eq_mod drop_bit_eq_div add: drop_bit_take_bit min_absorb1)

lemma field_split: "x mod 2 ^ (a + b) = x mod 2 ^ a + 2 ^ a * (x div 2 ^ a mod (2 ^ b :: int))"
  by (simp add: power_add zmod_zmult2_eq)

lemma div_div_power: "x div 2 ^ a div 2 ^ b = x div (2 ^ (a + b) :: int)"
  by (simp add: power_add zdiv_zmult2_eq)

section \<open>Congruences\<close>

text \<open>Congruence modulo a number is equality of remainders; these carry it through arithmetic.\<close>

lemma mod_sub_mult [simp]: "(a - c * m) mod m = a mod (m::int)"
  by (metis diff_conv_add_uminus minus_mult_left mod_mult_self1)

lemma mod_add_eqI: "a mod m = a' mod m \<Longrightarrow> b mod m = b' mod m \<Longrightarrow> (a + b) mod m = (a' + b') mod m"
  for a b m :: int
  by (rule mod_add_cong)

lemma mod_mult_eqI: "a mod m = a' mod m \<Longrightarrow> b mod m = b' mod m \<Longrightarrow> (a * b) mod m = (a' * b') mod m"
  for a b m :: int
  by (rule mod_mult_cong)

lemma mod_power_eqI: "a mod m = a' mod m \<Longrightarrow> (a ^ n) mod m = (a' ^ n) mod m"
  for a m :: int
  by (metis power_mod)

text \<open>
  \<open>residue_of val p ok x v\<close>: the representation \<open>x\<close> is within the bounds \<open>ok\<close> and denotes
  \<open>v\<close> modulo \<open>p\<close>.
\<close>

definition residue_of :: "('f \<Rightarrow> int) \<Rightarrow> int \<Rightarrow> ('f \<Rightarrow> bool) \<Rightarrow> 'f \<Rightarrow> int \<Rightarrow> bool" where
  "residue_of val p ok x v \<longleftrightarrow> ok x \<and> val x mod p = v mod p"

lemma residue_of_cong: "residue_of val p ok x v \<Longrightarrow> v mod p = w mod p \<Longrightarrow> residue_of val p ok x w"
  by (simp add: residue_of_def)

lemma residue_of_mod [simp]: "residue_of val p ok x (v mod p) \<longleftrightarrow> residue_of val p ok x v"
  by (simp add: residue_of_def)

section \<open>Conversion to a C int\<close>

definition c_int :: "int \<Rightarrow> int" where
  "c_int n = sint (word_of_int n :: u32)"

lemma c_int_small: "0 \<le> n \<Longrightarrow> n < 2 ^ 31 \<Longrightarrow> c_int n = n"
  by (simp add: c_int_def signed_of_int signed_take_bit_int_eq_self)

end
