(* ===== verification/Hs13Parse.thy ===== *)
theory Hs13Parse
  imports Prelude "HOL-Library.Monad_Syntax"
begin

unbundle bit_operations_syntax

text \<open>
  The ClientHello parser of \<^verbatim>\<open>src/engine/hs13.h\<close>. A C pointer with the bytes that may be read through
  it is a byte list, a null pointer is \<open>None\<close>, and every access goes through \<open>deref\<close>, \<open>memcpy\<close>,
  \<open>compare_bytes\<close> or \<open>push_seen\<close>, whose \<open>None\<close> is an access outside those bytes or outside the array
  written. The parser is a function into that option type, so that a result \<open>Some\<close> says that no access was
  out of bounds.
\<close>

section \<open>Memory\<close>

type_synonym ptr = "u8 list option"

fun deref :: "ptr \<Rightarrow> nat \<Rightarrow> u8 option" where
  "deref None i = None"
| "deref (Some s) i = (if i < length s then Some (s ! i) else None)"

fun copy_bytes :: "ptr \<Rightarrow> nat \<Rightarrow> u8 list option" where
  "copy_bytes None n = None"
| "copy_bytes (Some s) n = (if n \<le> length s then Some (take n s) else None)"

definition memcpy :: "u8 list \<Rightarrow> ptr \<Rightarrow> nat \<Rightarrow> u8 list option" where
  "memcpy dst src n =
     (if n \<le> length dst then do { s \<leftarrow> copy_bytes src n; Some (s @ drop n dst) } else None)"

definition compare_bytes :: "ptr \<Rightarrow> u8 list \<Rightarrow> bool option" where
  "compare_bytes p lit = map_option (\<lambda>s. s = lit) (copy_bytes p (length lit))"

section \<open>The bounded reader\<close>

record viltrum_hs13_rd =
  rd_p :: "u8 list"
  rd_ok :: bool

abbreviation rd_n :: "viltrum_hs13_rd \<Rightarrow> nat" where
  "rd_n r \<equiv> length (rd_p r)"

definition viltrum_hs13_rd_new :: "u8 list \<Rightarrow> viltrum_hs13_rd" where
  "viltrum_hs13_rd_new p = \<lparr>rd_p = p, rd_ok = True\<rparr>"

definition viltrum_hs13_take :: "viltrum_hs13_rd \<Rightarrow> nat \<Rightarrow> ptr \<times> viltrum_hs13_rd" where
  "viltrum_hs13_take r n =
     (if \<not> rd_ok r \<or> rd_n r < n then (None, r\<lparr>rd_ok := False, rd_p := []\<rparr>)
      else (Some (take n (rd_p r)), r\<lparr>rd_p := drop n (rd_p r)\<rparr>))"

definition viltrum_hs13_u8 :: "viltrum_hs13_rd \<Rightarrow> (u32 \<times> viltrum_hs13_rd) option" where
  "viltrum_hs13_u8 r =
     (case viltrum_hs13_take r 1 of
        (None, r) \<Rightarrow> Some (0, r)
      | (p, r) \<Rightarrow> do { b0 \<leftarrow> deref p 0; Some (ucast b0, r) })"

definition viltrum_hs13_u16 :: "viltrum_hs13_rd \<Rightarrow> (u32 \<times> viltrum_hs13_rd) option" where
  "viltrum_hs13_u16 r =
     (case viltrum_hs13_take r 2 of
        (None, r) \<Rightarrow> Some (0, r)
      | (p, r) \<Rightarrow> do { b0 \<leftarrow> deref p 0; b1 \<leftarrow> deref p 1; Some (push_bit 8 (ucast b0) OR ucast b1, r) })"

definition viltrum_hs13_u24 :: "viltrum_hs13_rd \<Rightarrow> (u32 \<times> viltrum_hs13_rd) option" where
  "viltrum_hs13_u24 r =
     (case viltrum_hs13_take r 3 of
        (None, r) \<Rightarrow> Some (0, r)
      | (p, r) \<Rightarrow> do {
          b0 \<leftarrow> deref p 0; b1 \<leftarrow> deref p 1; b2 \<leftarrow> deref p 2;
          Some (push_bit 16 (ucast b0) OR push_bit 8 (ucast b1) OR ucast b2, r) })"

definition viltrum_hs13_sub :: "viltrum_hs13_rd \<Rightarrow> nat \<Rightarrow> viltrum_hs13_rd \<times> viltrum_hs13_rd" where
  "viltrum_hs13_sub r n =
     (case viltrum_hs13_take r n of
        (None, r) \<Rightarrow> (\<lparr>rd_p = [], rd_ok = False\<rparr>, r)
      | (Some p, r) \<Rightarrow> (\<lparr>rd_p = p, rd_ok = True\<rparr>, r))"

text \<open>A vector with a one- or two-byte length: \<^verbatim>\<open>viltrum_hs13_sub(&r, viltrum_hs13_u8(&r))\<close>.\<close>

definition sub8 :: "viltrum_hs13_rd \<Rightarrow> (viltrum_hs13_rd \<times> viltrum_hs13_rd) option" where
  "sub8 r = do { (n, r) \<leftarrow> viltrum_hs13_u8 r; Some (viltrum_hs13_sub r (unat n)) }"

definition sub16 :: "viltrum_hs13_rd \<Rightarrow> (viltrum_hs13_rd \<times> viltrum_hs13_rd) option" where
  "sub16 r = do { (n, r) \<leftarrow> viltrum_hs13_u16 r; Some (viltrum_hs13_sub r (unat n)) }"

section \<open>Lengths\<close>

lemma take_rd_n:
  "viltrum_hs13_take r n = (p, r') \<Longrightarrow> rd_n r' \<le> rd_n r \<and> (0 < n \<longrightarrow> rd_n r \<noteq> 0 \<longrightarrow> rd_n r' < rd_n r)"
  by (auto simp: viltrum_hs13_take_def split: if_splits)

lemma take_rd_n_le: "(p, r') = viltrum_hs13_take r n \<Longrightarrow> rd_n r' \<le> rd_n r"
  using take_rd_n [of r n p r'] by simp

lemma u8_rd_n: "viltrum_hs13_u8 r = Some (v, r') \<Longrightarrow> rd_n r' \<le> rd_n r \<and> (rd_n r \<noteq> 0 \<longrightarrow> rd_n r' < rd_n r)"
  by (auto simp: viltrum_hs13_u8_def bind_eq_Some_conv split: prod.splits option.splits dest!: take_rd_n)

lemma u16_rd_n: "viltrum_hs13_u16 r = Some (v, r') \<Longrightarrow> rd_n r' \<le> rd_n r \<and> (rd_n r \<noteq> 0 \<longrightarrow> rd_n r' < rd_n r)"
  by (auto simp: viltrum_hs13_u16_def bind_eq_Some_conv split: prod.splits option.splits dest!: take_rd_n)

lemma sub_rd_n: "viltrum_hs13_sub r n = (s, r') \<Longrightarrow> rd_n r' \<le> rd_n r"
  by (auto simp: viltrum_hs13_sub_def split: prod.splits option.splits dest!: take_rd_n)

lemma sub16_rd_n: "sub16 r = Some (s, r') \<Longrightarrow> rd_n r' \<le> rd_n r"
  by (auto simp: sub16_def bind_eq_Some_conv dest!: u16_rd_n sub_rd_n)

section \<open>The parser\<close>

definition VILTRUM_HS13_GROUP_X25519 :: u32 where "VILTRUM_HS13_GROUP_X25519 = 0x001d"
definition VILTRUM_HS13_SUITE :: u32 where "VILTRUM_HS13_SUITE = 0x1301"
definition VILTRUM_HS13_SIG_PSS_SHA256 :: u32 where "VILTRUM_HS13_SIG_PSS_SHA256 = 0x0804"
definition VILTRUM_HS13_MAX_EXT :: nat where "VILTRUM_HS13_MAX_EXT = 64"

record viltrum_hs13_hello =
  h_random :: "u8 list"
  h_session_id :: "u8 list"
  h_session_id_len :: nat
  h_share :: "u8 list"
  h_alpn :: nat
  h_h2 :: bool

text \<open>\<^verbatim>\<open>while (v.n > 0) found |= viltrum_hs13_u16(&v) == x;\<close>\<close>

function any_u16 :: "u32 \<Rightarrow> bool \<Rightarrow> viltrum_hs13_rd \<Rightarrow> bool option" where
  "any_u16 x found v =
     (if rd_n v = 0 then Some found
      else do { (y, v) \<leftarrow> viltrum_hs13_u16 v; any_u16 x (found \<or> y = x) v })"
  by pat_completeness auto
termination
  by (relation "measure (\<lambda>(_, _, v). rd_n v)") (auto dest: u16_rd_n)

declare any_u16.simps [simp del]

text \<open>The local variables the extension loop changes, with the part of \<^verbatim>\<open>h\<close> it writes.\<close>

record hs13_vars =
  v_seen :: "u32 list"
  v_v13 :: bool
  v_group :: bool
  v_share :: bool
  v_pss :: bool
  v_alpn :: bool
  v_h11 :: bool
  v_h2 :: bool
  v_defer :: bool
  v_key :: "u8 list"

text \<open>
  An extension handler returns whether the extension is well-formed (\<open>False\<close> is
  \<^verbatim>\<open>goto malformed\<close>) and the variables.
\<close>

type_synonym hs13_step = "(bool \<times> hs13_vars) option"

definition u16_vector :: "viltrum_hs13_rd \<Rightarrow> viltrum_hs13_rd \<Rightarrow> bool" where
  "u16_vector ext v \<longleftrightarrow> \<not> (\<not> rd_ok ext \<or> rd_n ext \<noteq> 0 \<or> rd_n v = 0 \<or> rd_n v mod 2 \<noteq> 0)"

definition ext_supported_versions :: "viltrum_hs13_rd \<Rightarrow> hs13_vars \<Rightarrow> hs13_step" where
  "ext_supported_versions ext s =
     do {
       (v, ext) \<leftarrow> sub8 ext;
       if \<not> u16_vector ext v then Some (False, s)
       else do { f \<leftarrow> any_u16 0x0304 (v_v13 s) v; Some (True, s\<lparr>v_v13 := f\<rparr>) }
     }"

definition ext_supported_groups :: "viltrum_hs13_rd \<Rightarrow> hs13_vars \<Rightarrow> hs13_step" where
  "ext_supported_groups ext s =
     do {
       (g, ext) \<leftarrow> sub16 ext;
       if \<not> u16_vector ext g then Some (False, s)
       else do { f \<leftarrow> any_u16 VILTRUM_HS13_GROUP_X25519 (v_group s) g; Some (True, s\<lparr>v_group := f\<rparr>) }
     }"

function key_share_loop :: "viltrum_hs13_rd \<Rightarrow> hs13_vars \<Rightarrow> hs13_step" where
  "key_share_loop ks s =
     (if rd_n ks = 0 then Some (True, s)
      else do {
        (group, ks1) \<leftarrow> viltrum_hs13_u16 ks;
        (klen, ks2) \<leftarrow> viltrum_hs13_u16 ks1;
        (case viltrum_hs13_take ks2 (unat klen) of
           (key, ks3) \<Rightarrow>
             if \<not> rd_ok ks3 \<or> klen = 0 then Some (False, s)
             else if group = VILTRUM_HS13_GROUP_X25519 then
               if klen \<noteq> 32 \<or> v_share s then Some (False, s)
               else do {
                 k \<leftarrow> memcpy (v_key s) key 32;
                 key_share_loop ks3 (s\<lparr>v_key := k, v_share := True\<rparr>)
               }
             else key_share_loop ks3 s)
      })"
  by pat_completeness auto
termination
  by (relation "measure (\<lambda>(ks, _). rd_n ks)") (auto dest!: u16_rd_n take_rd_n_le)

declare key_share_loop.simps [simp del]

definition ext_key_share :: "viltrum_hs13_rd \<Rightarrow> hs13_vars \<Rightarrow> hs13_step" where
  "ext_key_share ext s =
     do {
       (ks, ext) \<leftarrow> sub16 ext;
       if \<not> rd_ok ext \<or> rd_n ext \<noteq> 0 then Some (False, s) else key_share_loop ks s
     }"

definition ext_signature_algorithms :: "viltrum_hs13_rd \<Rightarrow> hs13_vars \<Rightarrow> hs13_step" where
  "ext_signature_algorithms ext s =
     do {
       (g, ext) \<leftarrow> sub16 ext;
       if \<not> u16_vector ext g then Some (False, s)
       else do { f \<leftarrow> any_u16 VILTRUM_HS13_SIG_PSS_SHA256 (v_pss s) g; Some (True, s\<lparr>v_pss := f\<rparr>) }
     }"

definition proto_http11 :: "u8 list" where
  "proto_http11 = [0x68, 0x74, 0x74, 0x70, 0x2f, 0x31, 0x2e, 0x31]"

definition proto_h2 :: "u8 list" where
  "proto_h2 = [0x68, 0x32]"

text \<open>\<^verbatim>\<open>plen == n && memcmp(proto, lit, n) == 0\<close>: the comparison is made only for the right length.\<close>

definition proto_is :: "u32 \<Rightarrow> ptr \<Rightarrow> u8 list \<Rightarrow> bool option" where
  "proto_is plen proto lit = (if plen = of_nat (length lit) then compare_bytes proto lit else Some False)"

function alpn_loop :: "viltrum_hs13_rd \<Rightarrow> hs13_vars \<Rightarrow> hs13_step" where
  "alpn_loop l s =
     (if rd_n l = 0 then Some (True, s)
      else do {
        (plen, l1) \<leftarrow> viltrum_hs13_u8 l;
        (case viltrum_hs13_take l1 (unat plen) of
           (proto, l2) \<Rightarrow>
             if \<not> rd_ok l2 \<or> plen = 0 then Some (False, s)
             else do {
               a \<leftarrow> proto_is plen proto proto_http11;
               b \<leftarrow> proto_is plen proto proto_h2;
               alpn_loop l2 (s\<lparr>v_h11 := v_h11 s \<or> a, v_h2 := v_h2 s \<or> b\<rparr>)
             })
      })"
  by pat_completeness auto
termination
  by (relation "measure (\<lambda>(l, _). rd_n l)") (auto dest!: u8_rd_n take_rd_n_le)

declare alpn_loop.simps [simp del]

definition ext_alpn :: "viltrum_hs13_rd \<Rightarrow> hs13_vars \<Rightarrow> hs13_step" where
  "ext_alpn ext s =
     do {
       (l, ext) \<leftarrow> sub16 ext;
       if \<not> rd_ok ext \<or> rd_n ext \<noteq> 0 \<or> rd_n l = 0 then Some (False, s)
       else alpn_loop l (s\<lparr>v_alpn := True\<rparr>)
     }"

text \<open>The \<^verbatim>\<open>switch\<close> on the type; \<open>rest\<close> is what follows the extension.\<close>

definition hs13_ext :: "u32 \<Rightarrow> viltrum_hs13_rd \<Rightarrow> viltrum_hs13_rd \<Rightarrow> hs13_vars \<Rightarrow> hs13_step" where
  "hs13_ext type ext rest s =
     (if type = 43 then ext_supported_versions ext s
      else if type = 10 then ext_supported_groups ext s
      else if type = 51 then ext_key_share ext s
      else if type = 13 then ext_signature_algorithms ext s
      else if type = 16 then ext_alpn ext s
      else if type = 41 then Some (rd_n rest = 0, s)
      else if type = 42 \<or> type = 44 then Some (True, s\<lparr>v_defer := True\<rparr>)
      else Some (True, s))"

text \<open>\<^verbatim>\<open>seen[nseen++] = type\<close> in an array of \<^verbatim>\<open>VILTRUM_HS13_MAX_EXT\<close> entries.\<close>

definition push_seen :: "u32 \<Rightarrow> hs13_vars \<Rightarrow> hs13_vars option" where
  "push_seen type s =
     (if length (v_seen s) < VILTRUM_HS13_MAX_EXT then Some (s\<lparr>v_seen := v_seen s @ [type]\<rparr>) else None)"

text \<open>How the extension loop ends: at the end of the list, by \<^verbatim>\<open>return 0\<close>, or by \<^verbatim>\<open>goto malformed\<close>.\<close>

datatype hs13_exit = Finished | Unusual | Malformed

function exts_loop :: "viltrum_hs13_rd \<Rightarrow> hs13_vars \<Rightarrow> (hs13_exit \<times> hs13_vars) option" where
  "exts_loop exts s =
     (if rd_n exts = 0 then Some (Finished, s)
      else do {
        (type, exts1) \<leftarrow> viltrum_hs13_u16 exts;
        (ext, exts2) \<leftarrow> sub16 exts1;
        if \<not> rd_ok exts2 then Some (Malformed, s)
        else if length (v_seen s) = VILTRUM_HS13_MAX_EXT then Some (Unusual, s)
        else if type \<in> set (v_seen s) then Some (Malformed, s)
        else do {
          s1 \<leftarrow> push_seen type s;
          (ok, s2) \<leftarrow> hs13_ext type ext exts2 s1;
          if ok then exts_loop exts2 s2 else Some (Malformed, s2)
        }
      })"
  by pat_completeness auto
termination
  by (relation "measure (\<lambda>(exts, _). rd_n exts)") (auto dest!: u16_rd_n sub16_rd_n)

declare exts_loop.simps [simp del]

definition hello_zero :: "bool \<Rightarrow> viltrum_hs13_hello" where
  "hello_zero h2 = \<lparr>h_random = replicate 32 0, h_session_id = replicate 32 0, h_session_id_len = 0,
     h_share = replicate 32 0, h_alpn = 0, h_h2 = h2\<rparr>"

definition vars_zero :: hs13_vars where
  "vars_zero = \<lparr>v_seen = [], v_v13 = False, v_group = False, v_share = False, v_pss = False, v_alpn = False,
     v_h11 = False, v_h2 = False, v_defer = False, v_key = replicate 32 0\<rparr>"

text \<open>The head of the message, up to the extensions: \<open>None\<close> inside is \<^verbatim>\<open>goto malformed\<close>.\<close>

record hs13_head =
  hd_version :: u32
  hd_random :: ptr
  hd_sid_len :: u32
  hd_sid :: ptr
  hd_suites :: viltrum_hs13_rd
  hd_comp :: viltrum_hs13_rd
  hd_rest :: viltrum_hs13_rd

definition parse_fields :: "viltrum_hs13_rd \<Rightarrow> hs13_head option option" where
  "parse_fields r =
     do {
       (version, r) \<leftarrow> viltrum_hs13_u16 r;
       (case viltrum_hs13_take r 32 of
          (random, r) \<Rightarrow>
            do {
              (sid_len, r) \<leftarrow> viltrum_hs13_u8 r;
              (case viltrum_hs13_take r (unat sid_len) of
                 (sid, r) \<Rightarrow>
                   do {
                     (suites, r) \<leftarrow> sub16 r;
                     (comp, r) \<leftarrow> sub8 r;
                     if \<not> rd_ok r \<or> sid_len > 32 \<or> rd_n suites = 0 \<or> rd_n suites mod 2 \<noteq> 0 \<or> rd_n comp = 0
                     then Some None
                     else Some (Some \<lparr>hd_version = version, hd_random = random, hd_sid_len = sid_len,
                       hd_sid = sid, hd_suites = suites, hd_comp = comp, hd_rest = r\<rparr>)
                   })
            })
     }"

definition parse_head :: "u8 list \<Rightarrow> hs13_head option option" where
  "parse_head msg =
     do {
       (t, r) \<leftarrow> viltrum_hs13_u8 (viltrum_hs13_rd_new msg);
       if t \<noteq> 1 then Some None
       else do {
         (l, r) \<leftarrow> viltrum_hs13_u24 r;
         if int (unat l) \<noteq> (int (length msg) - 4) mod 2 ^ 64 \<or> \<not> rd_ok r then Some None
         else parse_fields r
       }
     }"

text \<open>\<^verbatim>\<open>comp.n == 1 && viltrum_hs13_u8(&comp) == 0\<close>\<close>

definition comp_null_only :: "viltrum_hs13_rd \<Rightarrow> bool option" where
  "comp_null_only cm =
     (if rd_n cm = 1 then do { (c, _) \<leftarrow> viltrum_hs13_u8 cm; Some (c = 0) } else Some False)"

definition alpn_chosen :: "viltrum_hs13_hello \<Rightarrow> hs13_vars \<Rightarrow> nat" where
  "alpn_chosen h s = (if h_h2 h \<and> v_h2 s then 2 else if v_h11 s then 1 else 0)"

definition parse_verdict ::
  "hs13_head \<Rightarrow> bool \<Rightarrow> bool \<Rightarrow> viltrum_hs13_hello \<Rightarrow> hs13_vars \<Rightarrow> (int \<times> viltrum_hs13_hello) option" where
  "parse_verdict d suite comp0 h s =
     (if \<not> v_v13 s then Some (0, h)
      else if hd_version d \<noteq> 0x0303 \<or> \<not> comp0 then Some (if v_v13 s then - 1 else 0, h)
      else
        (let chosen = alpn_chosen h s
         in if v_defer s \<or> \<not> suite \<or> \<not> v_group s \<or> \<not> v_share s \<or> \<not> v_pss s \<or> (v_alpn s \<and> chosen = 0)
            then Some (0, h)
            else do {
              rnd \<leftarrow> memcpy (h_random h) (hd_random d) 32;
              sid \<leftarrow> memcpy (h_session_id h) (hd_sid d) (unat (hd_sid_len d));
              Some (1, h\<lparr>h_random := rnd, h_session_id := sid,
                h_session_id_len := unat (hd_sid_len d), h_alpn := (if v_alpn s then chosen else 0)\<rparr>)
            }))"

definition viltrum_hs13_parse :: "u8 list \<Rightarrow> bool \<Rightarrow> (int \<times> viltrum_hs13_hello) option" where
  "viltrum_hs13_parse msg h2 =
     do {
       head \<leftarrow> parse_head msg;
       (case head of
          None \<Rightarrow> Some (0, hello_zero h2)
        | Some d \<Rightarrow>
            if rd_n (hd_rest d) = 0 then Some (0, hello_zero h2)
            else do {
              (exts, r) \<leftarrow> sub16 (hd_rest d);
              if \<not> rd_ok r \<or> rd_n r \<noteq> 0 then Some (0, hello_zero h2)
              else do {
                suite \<leftarrow> any_u16 VILTRUM_HS13_SUITE False (hd_suites d);
                comp0 \<leftarrow> comp_null_only (hd_comp d);
                (ex, s) \<leftarrow> exts_loop exts vars_zero;
                let h = (hello_zero h2)\<lparr>h_share := v_key s\<rparr> in
                (case ex of
                   Malformed \<Rightarrow> Some (if v_v13 s then - 1 else 0, h)
                 | Unusual \<Rightarrow> Some (0, h)
                 | Finished \<Rightarrow> parse_verdict d suite comp0 h s)
              }
            })
     }"

end
