(* ===== verification/Hs13Hello.thy ===== *)
theory Hs13Hello
  imports Hs13Parse
begin

unbundle bit_operations_syntax

text \<open>
  What the ClientHello parser accepts. The wire format is given by an encoder of structured hellos,
  and the parser is compared with it in both directions: it serves exactly the encodings of hellos that
  are well-formed and acceptable, and it never reads or writes out of bounds.
\<close>

section \<open>The reader in closed form\<close>

abbreviation rd_failed :: viltrum_hs13_rd where
  "rd_failed \<equiv> \<lparr>rd_p = [], rd_ok = False\<rparr>"

definition join16 :: "u8 \<Rightarrow> u8 \<Rightarrow> u16" where
  "join16 a b = push_bit 8 (ucast a) OR ucast b"

definition enc16 :: "u16 \<Rightarrow> u8 list" where
  "enc16 x = [ucast (drop_bit 8 x), ucast x]"

lemma bit_u8_ge: "8 \<le> n \<Longrightarrow> \<not> bit (b::u8) n"
  using bit_imp_le_length [of b n] by auto

lemma enc16_join16 [simp]: "enc16 (join16 a b) = [a, b]"
  by (auto simp: enc16_def join16_def intro!: bit_eqI simp: bit_simps bit_u8_ge)

lemma length_enc16 [simp]: "length (enc16 x) = 2"
  by (simp add: enc16_def)

lemma ucast_join16: "push_bit 8 (ucast a) OR ucast b = (ucast (join16 a b) :: u32)"
proof (intro bit_eqI)
  fix n
  have "bit a (n - 8) \<Longrightarrow> n - 8 < 8"
    using bit_u8_ge [of "n - 8" a] by linarith
  then show "bit (push_bit 8 (ucast a) OR ucast b :: u32) n = bit (ucast (join16 a b) :: u32) n"
    by (auto simp: join16_def bit_simps bit_u8_ge)
qed

lemma join16_enc16 [simp]: "join16 (ucast (drop_bit 8 x)) (ucast x) = x"
  by (auto simp: join16_def intro!: bit_eqI simp: bit_simps bit_u8_ge)

lemma enc16_inj [simp]: "enc16 x = enc16 y \<longleftrightarrow> x = y"
  by (metis enc16_def join16_enc16 list.inject)

lemma take_eq:
  "viltrum_hs13_take r n =
     (if rd_ok r \<and> n \<le> rd_n r then (Some (take n (rd_p r)), \<lparr>rd_p = drop n (rd_p r), rd_ok = True\<rparr>)
      else (None, rd_failed))"
  by (auto simp: viltrum_hs13_take_def)

lemma u8_eq:
  "viltrum_hs13_u8 r =
     Some (if rd_ok r \<and> 1 \<le> rd_n r then (ucast (rd_p r ! 0), \<lparr>rd_p = drop 1 (rd_p r), rd_ok = True\<rparr>)
           else (0, rd_failed))"
  by (auto simp: viltrum_hs13_u8_def take_eq)

lemma u16_eq:
  "viltrum_hs13_u16 r =
     Some (if rd_ok r \<and> 2 \<le> rd_n r
           then (ucast (join16 (rd_p r ! 0) (rd_p r ! 1)), \<lparr>rd_p = drop 2 (rd_p r), rd_ok = True\<rparr>)
           else (0, rd_failed))"
  by (auto simp: viltrum_hs13_u16_def take_eq ucast_join16)

lemma sub_eq:
  "viltrum_hs13_sub r n =
     (if rd_ok r \<and> n \<le> rd_n r
      then (\<lparr>rd_p = take n (rd_p r), rd_ok = True\<rparr>, \<lparr>rd_p = drop n (rd_p r), rd_ok = True\<rparr>)
      else (rd_failed, rd_failed))"
  by (auto simp: viltrum_hs13_sub_def take_eq)


definition enc24 :: "u32 \<Rightarrow> u8 list" where
  "enc24 x = [ucast (drop_bit 16 x), ucast (drop_bit 8 x), ucast x]"

definition join24 :: "u8 \<Rightarrow> u8 \<Rightarrow> u8 \<Rightarrow> u32" where
  "join24 a b c = push_bit 16 (ucast a) OR push_bit 8 (ucast b) OR ucast c"

lemma enc24_join24 [simp]: "enc24 (join24 a b c) = [a, b, c]"
  by (auto simp: enc24_def join24_def intro!: bit_eqI simp: bit_simps bit_u8_ge)

lemma length_enc24 [simp]: "length (enc24 x) = 3"
  by (simp add: enc24_def)

lemma join24_enc24:
  assumes "x < 2 ^ 24"
  shows "join24 (ucast (drop_bit 16 x)) (ucast (drop_bit 8 x)) (ucast x) = x"
proof -
  have "take_bit 24 x = x"
    using assms by (simp add: less_mask_eq take_bit_eq_mask)
  then have high: "bit x n \<Longrightarrow> n < 24" for n
    by (metis bit_take_bit_iff)
  show ?thesis
  proof (rule bit_eqI)
    fix n :: nat
    consider "n < 8" | "8 \<le> n" "n < 16" | "16 \<le> n" "n < 24" | "24 \<le> n"
      by linarith
    then show "bit (join24 (ucast (drop_bit 16 x)) (ucast (drop_bit 8 x)) (ucast x)) n = bit x n"
      by cases (use high [of n] in \<open>auto simp: join24_def bit_simps\<close>)
  qed
qed

lemma u24_eq:
  "viltrum_hs13_u24 r =
     Some (if rd_ok r \<and> 3 \<le> rd_n r
           then (join24 (rd_p r ! 0) (rd_p r ! 1) (rd_p r ! 2), \<lparr>rd_p = drop 3 (rd_p r), rd_ok = True\<rparr>)
           else (0, rd_failed))"
  by (auto simp: viltrum_hs13_u24_def take_eq join24_def)

lemmas reader_eqs = take_eq u8_eq u16_eq u24_eq sub_eq

subsection \<open>Vectors\<close>

definition vec8 :: "u8 list \<Rightarrow> u8 list" where
  "vec8 v = of_nat (length v) # v"

definition vec16 :: "u8 list \<Rightarrow> u8 list" where
  "vec16 v = enc16 (of_nat (length v)) @ v"

lemma length_vec8 [simp]: "length (vec8 v) = Suc (length v)"
  by (simp add: vec8_def)

lemma length_vec16 [simp]: "length (vec16 v) = length v + 2"
  by (simp add: vec16_def)

lemma unat_ucast_len16: "n < 65536 \<Longrightarrow> unat (ucast (of_nat n :: u16) :: u32) = n"
  by (simp add: unsigned_ucast_eq unat_of_nat take_bit_nat_eq_self)

lemma unat_ucast_len8: "n < 256 \<Longrightarrow> unat (ucast (of_nat n :: u8) :: u32) = n"
  by (simp add: unsigned_ucast_eq unat_of_nat take_bit_nat_eq_self)

lemma u16_enc16 [simp]:
  "viltrum_hs13_u16 \<lparr>rd_p = enc16 x @ w, rd_ok = True\<rparr> = Some (ucast x, \<lparr>rd_p = w, rd_ok = True\<rparr>)"
  by (simp add: u16_eq enc16_def)

lemma u8_Cons [simp]:
  "viltrum_hs13_u8 \<lparr>rd_p = x # w, rd_ok = True\<rparr> = Some (ucast x, \<lparr>rd_p = w, rd_ok = True\<rparr>)"
  by (simp add: u8_eq)

lemma sub16_vec16 [simp]:
  "length v < 65536 \<Longrightarrow> sub16 \<lparr>rd_p = vec16 v @ w, rd_ok = True\<rparr> =
     Some (\<lparr>rd_p = v, rd_ok = True\<rparr>, \<lparr>rd_p = w, rd_ok = True\<rparr>)"
  by (simp add: sub16_def vec16_def sub_eq unat_ucast_len16)

lemma sub8_vec8 [simp]:
  "length v < 256 \<Longrightarrow> sub8 \<lparr>rd_p = vec8 v @ w, rd_ok = True\<rparr> =
     Some (\<lparr>rd_p = v, rd_ok = True\<rparr>, \<lparr>rd_p = w, rd_ok = True\<rparr>)"
  by (simp add: sub8_def vec8_def sub_eq unat_ucast_len8)

lemma sub16_vec16' [simp]:
  "length v < 65536 \<Longrightarrow> sub16 \<lparr>rd_p = vec16 v, rd_ok = True\<rparr> =
     Some (\<lparr>rd_p = v, rd_ok = True\<rparr>, \<lparr>rd_p = [], rd_ok = True\<rparr>)"
  using sub16_vec16 [of v "[]"] by simp

lemma sub8_vec8' [simp]:
  "length v < 256 \<Longrightarrow> sub8 \<lparr>rd_p = vec8 v, rd_ok = True\<rparr> =
     Some (\<lparr>rd_p = v, rd_ok = True\<rparr>, \<lparr>rd_p = [], rd_ok = True\<rparr>)"
  using sub8_vec8 [of v "[]"] by simp

lemma u8_total: "\<exists>x r'. viltrum_hs13_u8 r = Some (x, r')"
  by (simp add: u8_eq)

lemma u16_total: "\<exists>x r'. viltrum_hs13_u16 r = Some (x, r')"
  by (simp add: u16_eq)

lemma sub8_total: "\<exists>s r'. sub8 r = Some (s, r')"
  by (simp add: sub8_def u8_eq sub_eq)

lemma sub16_total: "\<exists>s r'. sub16 r = Some (s, r')"
  by (simp add: sub16_def u16_eq sub_eq)

lemma u16_okE:
  assumes "viltrum_hs13_u16 r = Some (x, r')" "rd_ok r'"
  obtains y w where "rd_ok r" "rd_p r = enc16 y @ w" "x = ucast y" "r' = \<lparr>rd_p = w, rd_ok = True\<rparr>"
proof -
  have ok: "rd_ok r" "2 \<le> rd_n r"
    using assms by (auto simp: u16_eq split: if_splits)
  then obtain a b w where "rd_p r = a # b # w"
    by (cases "rd_p r" rule: remdups_adj.cases) auto
  then show thesis
    using assms ok by (intro that [of "join16 a b" w]) (auto simp: u16_eq)
qed

lemma u8_okE:
  assumes "viltrum_hs13_u8 r = Some (x, r')" "rd_ok r'"
  obtains y w where "rd_ok r" "rd_p r = y # w" "x = ucast y" "r' = \<lparr>rd_p = w, rd_ok = True\<rparr>"
  using assms by (cases "rd_p r") (auto simp: u8_eq split: if_splits)

lemma sub_okE:
  assumes "viltrum_hs13_sub r n = (s, r')" "rd_ok r'"
  obtains v w where "rd_ok r" "rd_p r = v @ w" "length v = n" "s = \<lparr>rd_p = v, rd_ok = True\<rparr>"
    "r' = \<lparr>rd_p = w, rd_ok = True\<rparr>"
  using assms that [of "take n (rd_p r)" "drop n (rd_p r)"] by (auto simp: sub_eq split: if_splits)

lemma sub16_okE:
  assumes "sub16 r = Some (s, r')" "rd_ok r'"
  obtains v w where "rd_ok r" "rd_p r = vec16 v @ w" "length v < 65536" "s = \<lparr>rd_p = v, rd_ok = True\<rparr>"
    "r' = \<lparr>rd_p = w, rd_ok = True\<rparr>"
proof -
  obtain x r1 where 1: "viltrum_hs13_u16 r = Some (x, r1)" "viltrum_hs13_sub r1 (unat x) = (s, r')"
    using assms by (auto simp: sub16_def bind_eq_Some_conv)
  from sub_okE [OF 1(2) assms(2)] obtain v w where
    2: "rd_ok r1" "rd_p r1 = v @ w" "length v = unat x" "s = \<lparr>rd_p = v, rd_ok = True\<rparr>"
    "r' = \<lparr>rd_p = w, rd_ok = True\<rparr>" by metis
  from u16_okE [OF 1(1) 2(1)] obtain y w' where
    3: "rd_ok r" "rd_p r = enc16 y @ w'" "x = ucast y" "r1 = \<lparr>rd_p = w', rd_ok = True\<rparr>" by metis
  have len: "length v = unat y"
    using 2(3) 3(3) by (simp add: unsigned_ucast_eq take_bit_nat_eq_self unsigned_less [THEN order_less_trans])
  then have "length v < 65536" "of_nat (length v) = y"
    using unsigned_less [of y, where 'a = nat] by simp_all
  then show thesis
    by (intro that [of v w]) (use 2 3 in \<open>auto simp: vec16_def\<close>)
qed

lemma sub8_okE:
  assumes "sub8 r = Some (s, r')" "rd_ok r'"
  obtains v w where "rd_ok r" "rd_p r = vec8 v @ w" "length v < 256" "s = \<lparr>rd_p = v, rd_ok = True\<rparr>"
    "r' = \<lparr>rd_p = w, rd_ok = True\<rparr>"
proof -
  obtain x r1 where 1: "viltrum_hs13_u8 r = Some (x, r1)" "viltrum_hs13_sub r1 (unat x) = (s, r')"
    using assms by (auto simp: sub8_def bind_eq_Some_conv)
  from sub_okE [OF 1(2) assms(2)] obtain v w where
    2: "rd_ok r1" "rd_p r1 = v @ w" "length v = unat x" "s = \<lparr>rd_p = v, rd_ok = True\<rparr>"
    "r' = \<lparr>rd_p = w, rd_ok = True\<rparr>" by metis
  from u8_okE [OF 1(1) 2(1)] obtain y w' where
    3: "rd_ok r" "rd_p r = y # w'" "x = ucast y" "r1 = \<lparr>rd_p = w', rd_ok = True\<rparr>" by metis
  have len: "length v = unat y"
    using 2(3) 3(3) by (simp add: unsigned_ucast_eq take_bit_nat_eq_self unsigned_less [THEN order_less_trans])
  then have "length v < 256" "of_nat (length v) = y"
    using unsigned_less [of y, where 'a = nat] by simp_all
  then show thesis
    by (intro that [of v w]) (use 2 3 in \<open>auto simp: vec8_def\<close>)
qed


section \<open>Structured hellos\<close>

datatype extension =
    Supported_Versions "u16 list"
  | Supported_Groups "u16 list"
  | Key_Share "(u16 \<times> u8 list) list"
  | Signature_Algorithms "u16 list"
  | Alpn "u8 list list"
  | Pre_Shared_Key "u8 list"
  | Early_Data "u8 list"
  | Cookie "u8 list"
  | Other u16 "u8 list"

fun ext_type :: "extension \<Rightarrow> u16" where
  "ext_type (Supported_Versions _) = 43"
| "ext_type (Supported_Groups _) = 10"
| "ext_type (Key_Share _) = 51"
| "ext_type (Signature_Algorithms _) = 13"
| "ext_type (Alpn _) = 16"
| "ext_type (Pre_Shared_Key _) = 41"
| "ext_type (Early_Data _) = 42"
| "ext_type (Cookie _) = 44"
| "ext_type (Other t _) = t"

definition enc16s :: "u16 list \<Rightarrow> u8 list" where
  "enc16s xs = concat (map enc16 xs)"

definition enc_shares :: "(u16 \<times> u8 list) list \<Rightarrow> u8 list" where
  "enc_shares ks = concat (map (\<lambda>(g, k). enc16 g @ vec16 k) ks)"

definition enc_protos :: "u8 list list \<Rightarrow> u8 list" where
  "enc_protos ps = concat (map vec8 ps)"

fun ext_body :: "extension \<Rightarrow> u8 list" where
  "ext_body (Supported_Versions vs) = vec8 (enc16s vs)"
| "ext_body (Supported_Groups gs) = vec16 (enc16s gs)"
| "ext_body (Key_Share ks) = vec16 (enc_shares ks)"
| "ext_body (Signature_Algorithms ss) = vec16 (enc16s ss)"
| "ext_body (Alpn ps) = vec16 (enc_protos ps)"
| "ext_body (Pre_Shared_Key b) = b"
| "ext_body (Early_Data b) = b"
| "ext_body (Cookie b) = b"
| "ext_body (Other _ b) = b"

definition enc_ext :: "extension \<Rightarrow> u8 list" where
  "enc_ext e = enc16 (ext_type e) @ vec16 (ext_body e)"

definition enc_exts :: "extension list \<Rightarrow> u8 list" where
  "enc_exts es = concat (map enc_ext es)"

definition known_types :: "u16 set" where
  "known_types = {43, 10, 51, 13, 16, 41, 42, 44}"

definition x25519_shares :: "(u16 \<times> u8 list) list \<Rightarrow> u8 list list" where
  "x25519_shares ks = map snd (filter (\<lambda>(g, _). g = 29) ks)"

text \<open>What RFC 8446 asks of one extension, as far as the parser looks.\<close>

fun ext_ok :: "extension \<Rightarrow> bool" where
  "ext_ok (Supported_Versions vs) \<longleftrightarrow> vs \<noteq> [] \<and> length vs < 128"
| "ext_ok (Supported_Groups gs) \<longleftrightarrow> gs \<noteq> []"
| "ext_ok (Key_Share ks) \<longleftrightarrow>
     (\<forall>(g, k) \<in> set ks. k \<noteq> [] \<and> (g = 29 \<longrightarrow> length k = 32)) \<and> length (x25519_shares ks) \<le> 1"
| "ext_ok (Signature_Algorithms ss) \<longleftrightarrow> ss \<noteq> []"
| "ext_ok (Alpn ps) \<longleftrightarrow> ps \<noteq> [] \<and> (\<forall>p \<in> set ps. p \<noteq> [] \<and> length p < 256)"
| "ext_ok (Other t _) \<longleftrightarrow> t \<notin> known_types"
| "ext_ok _ \<longleftrightarrow> True"

fun is_psk :: "extension \<Rightarrow> bool" where
  "is_psk (Pre_Shared_Key _) = True"
| "is_psk _ = False"

fun is_deferred :: "extension \<Rightarrow> bool" where
  "is_deferred (Early_Data _) = True"
| "is_deferred (Cookie _) = True"
| "is_deferred _ = False"

fun is_alpn :: "extension \<Rightarrow> bool" where
  "is_alpn (Alpn _) = True"
| "is_alpn _ = False"

definition exts_ok :: "extension list \<Rightarrow> bool" where
  "exts_ok es \<longleftrightarrow>
     (\<forall>e \<in> set es. ext_ok e \<and> length (ext_body e) < 65536) \<and> distinct (map ext_type es) \<and> length es \<le> 64
     \<and> (\<forall>e \<in> set (butlast es). \<not> is_psk e)"

text \<open>What a list of extensions offers.\<close>

fun versions_of :: "extension \<Rightarrow> u16 list" where
  "versions_of (Supported_Versions vs) = vs"
| "versions_of _ = []"

fun groups_of :: "extension \<Rightarrow> u16 list" where
  "groups_of (Supported_Groups gs) = gs"
| "groups_of _ = []"

fun shares_of :: "extension \<Rightarrow> u8 list list" where
  "shares_of (Key_Share ks) = x25519_shares ks"
| "shares_of _ = []"

fun sigalgs_of :: "extension \<Rightarrow> u16 list" where
  "sigalgs_of (Signature_Algorithms ss) = ss"
| "sigalgs_of _ = []"

fun protos_of :: "extension \<Rightarrow> u8 list list" where
  "protos_of (Alpn ps) = ps"
| "protos_of _ = []"

definition offers :: "(extension \<Rightarrow> 'a list) \<Rightarrow> extension list \<Rightarrow> 'a \<Rightarrow> bool" where
  "offers f es x \<longleftrightarrow> x \<in> set (concat (map f es))"

subsection \<open>Lists of 16-bit values\<close>

lemma length_enc16s [simp]: "length (enc16s xs) = 2 * length xs"
  by (induction xs) (simp_all add: enc16s_def)

lemma enc16s_simps [simp]: "enc16s [] = []" "enc16s (x # xs) = enc16 x @ enc16s xs"
  by (simp_all add: enc16s_def)

lemma enc16s_surj: "even (length bs) \<Longrightarrow> \<exists>xs. bs = enc16s xs"
proof (induction bs rule: induct_list012)
  case (3 a b bs)
  then obtain xs where "bs = enc16s xs" by auto
  then show ?case
    by (intro exI [of _ "join16 a b # xs"]) simp
qed (auto intro: exI [of _ "[]"])

lemma u_eq_iff: "x = y \<longleftrightarrow> unat x = unat y" for x y :: "'a::len word"
  by (auto intro: unsigned_word_eqI [where 'a = nat])

lemma unat_ucast_16 [simp]: "unat (ucast (x :: u16) :: u32) = unat x"
  by (simp add: unsigned_ucast_eq take_bit_nat_eq_self unsigned_less [THEN order_less_trans])

lemma unat_ucast_8 [simp]: "unat (ucast (x :: u8) :: u32) = unat x"
  by (simp add: unsigned_ucast_eq take_bit_nat_eq_self unsigned_less [THEN order_less_trans])

lemma ucast16_eq_iff [simp]: "(ucast a :: u32) = ucast b \<longleftrightarrow> a = (b :: u16)"
  by (simp add: u_eq_iff)

lemma any_u16_enc16s:
  "any_u16 (ucast x) found \<lparr>rd_p = enc16s xs, rd_ok = True\<rparr> = Some (found \<or> x \<in> set xs)"
  by (induction xs arbitrary: found) (subst any_u16.simps; auto)+

subsection \<open>Key shares\<close>

lemma enc_shares_simps [simp]:
  "enc_shares [] = []" "enc_shares ((g, k) # ks) = enc16 g @ vec16 k @ enc_shares ks"
  by (simp_all add: enc_shares_def)

lemma x25519_shares_simps [simp]:
  "x25519_shares [] = []"
  "x25519_shares ((g, k) # ks) = (if g = 29 then k # x25519_shares ks else x25519_shares ks)"
  by (simp_all add: x25519_shares_def)

lemma group_x25519: "ucast g = VILTRUM_HS13_GROUP_X25519 \<longleftrightarrow> g = (29 :: u16)"
  using ucast16_eq_iff [of g 29] by (simp add: VILTRUM_HS13_GROUP_X25519_def)

lemma memcpy_whole [simp]: "length k = n \<Longrightarrow> length d = n \<Longrightarrow> memcpy d (Some k) n = Some k"
  by (simp add: memcpy_def)

definition share_ok :: "u16 \<times> u8 list \<Rightarrow> bool" where
  "share_ok gk \<longleftrightarrow> snd gk \<noteq> [] \<and> (fst gk = 29 \<longrightarrow> length (snd gk) = 32)"

definition shares_ok :: "bool \<Rightarrow> (u16 \<times> u8 list) list \<Rightarrow> bool" where
  "shares_ok had ks \<longleftrightarrow> (\<forall>gk \<in> set ks. share_ok gk) \<and> length (x25519_shares ks) \<le> (if had then 0 else 1)"

lemma shares_ok_Cons:
  "shares_ok had ((g, k) # ks) \<longleftrightarrow>
     k \<noteq> [] \<and> (if g = 29 then length k = 32 \<and> \<not> had \<and> shares_ok True ks else shares_ok had ks)"
  by (auto simp: shares_ok_def share_ok_def)

lemma u32_eq_0_iff: "(x :: u32) = 0 \<longleftrightarrow> unat x = 0"
  by (simp add: unat_eq_zero)

lemma u32_eq_32_iff: "(x :: u32) = 32 \<longleftrightarrow> unat x = 32"
  by (simp add: u_eq_iff)

definition add_share :: "u8 list list \<Rightarrow> hs13_vars \<Rightarrow> hs13_vars" where
  "add_share sh s = s\<lparr>v_share := v_share s \<or> sh \<noteq> [], v_key := (if sh = [] then v_key s else last sh)\<rparr>"

lemma key_share_loop_shares:
  "shares_ok (v_share s) ks \<Longrightarrow> length (enc_shares ks) < 65536 \<Longrightarrow> length (v_key s) = 32 \<Longrightarrow>
   key_share_loop \<lparr>rd_p = enc_shares ks, rd_ok = True\<rparr> s = Some (True, add_share (x25519_shares ks) s)"
proof (induction ks arbitrary: s)
  case Nil
  then show ?case
    by (subst key_share_loop.simps) (simp add: add_share_def)
next
  case (Cons gk ks)
  obtain g k where gk: "gk = (g, k)" by fastforce
  have len: "length k < 65536"
    using Cons.prems gk by simp
  show ?case
    using Cons.prems len
    by (subst key_share_loop.simps)
      (auto simp: gk shares_ok_Cons vec16_def take_eq group_x25519 u32_eq_0_iff u32_eq_32_iff
         unat_of_nat take_bit_nat_eq_self Cons.IH add_share_def split: if_splits)
qed

lemma take_okE:
  assumes "viltrum_hs13_take r n = (q, r')" "rd_ok r'"
  obtains v w where "rd_ok r" "rd_p r = v @ w" "length v = n" "q = Some v" "r' = \<lparr>rd_p = w, rd_ok = True\<rparr>"
  using assms that [of "take n (rd_p r)" "drop n (rd_p r)"] by (auto simp: take_eq split: if_splits)

text \<open>One entry of a list, and how the loop goes on after it.\<close>

lemma key_share_entryE:
  assumes run: "key_share_loop r s = Some (True, s')" and nz: "rd_n r \<noteq> 0" and key: "length (v_key s) = 32"
  obtains g v w s1 where "rd_p r = enc16 g @ vec16 v @ w" "share_ok (g, v)" "length v < 65536"
    "g = 29 \<Longrightarrow> \<not> v_share s"
    "s1 = (if g = 29 then s\<lparr>v_key := v, v_share := True\<rparr> else s)"
    "key_share_loop \<lparr>rd_p = w, rd_ok = True\<rparr> s1 = Some (True, s')"
proof -
  obtain group r1 klen r2 k r3 where
    steps: "viltrum_hs13_u16 r = Some (group, r1)" "viltrum_hs13_u16 r1 = Some (klen, r2)"
      "viltrum_hs13_take r2 (unat klen) = (k, r3)"
    by (metis u16_eq surj_pair)
  have ok3: "rd_ok r3" "klen \<noteq> 0"
    using run nz steps by (subst (asm) key_share_loop.simps; auto split: if_splits)+
  from take_okE [OF steps(3) ok3(1)] obtain v w where
    3: "rd_ok r2" "rd_p r2 = v @ w" "length v = unat klen" "k = Some v" "r3 = \<lparr>rd_p = w, rd_ok = True\<rparr>"
    by metis
  from u16_okE [OF steps(2) 3(1)] obtain y w2 where
    2: "rd_ok r1" "rd_p r1 = enc16 y @ w2" "klen = ucast y" "r2 = \<lparr>rd_p = w2, rd_ok = True\<rparr>" by metis
  from u16_okE [OF steps(1) 2(1)] obtain g w1 where
    1: "rd_ok r" "rd_p r = enc16 g @ w1" "group = ucast g" "r1 = \<lparr>rd_p = w1, rd_ok = True\<rparr>" by metis
  have v: "length v = unat y"
    using 2 3 by simp
  have cont: "if g = 29 then length v = 32 \<and> \<not> v_share s
      \<and> key_share_loop r3 (s\<lparr>v_key := v, v_share := True\<rparr>) = Some (True, s')
    else key_share_loop r3 s = Some (True, s')"
    using run nz steps ok3 1(3) 3(3,4) key
    by (subst (asm) key_share_loop.simps) (auto simp: group_x25519 u32_eq_32_iff split: if_splits)
  show thesis
  proof (rule that [of g v w "if g = 29 then s\<lparr>v_key := v, v_share := True\<rparr> else s"])
    show "rd_p r = enc16 g @ vec16 v @ w"
      using 1 2 3 v by (simp add: vec16_def)
    show "length v < 65536"
      using v unsigned_less [of y, where 'a = nat] by simp
    show "share_ok (g, v)"
      using cont 2 3 ok3 by (auto simp: share_ok_def u32_eq_0_iff split: if_splits)
  qed (use cont 3 in \<open>auto split: if_splits\<close>)
qed

lemma key_share_loop_okD:
  "key_share_loop r s = Some (True, s') \<Longrightarrow> rd_ok r \<Longrightarrow> length (v_key s) = 32 \<Longrightarrow>
   \<exists>ks. rd_p r = enc_shares ks \<and> shares_ok (v_share s) ks"
proof (induction "rd_n r" arbitrary: r s rule: less_induct)
  case less
  show ?case
  proof (cases "rd_n r = 0")
    case True
    then show ?thesis
      by (intro exI [of _ "[]"]) (simp add: shares_ok_def)
  next
    case False
    from key_share_entryE [OF less.prems(1) False less.prems(3)] obtain g v w s1 where
      e: "rd_p r = enc16 g @ vec16 v @ w" "share_ok (g, v)" "g = 29 \<Longrightarrow> \<not> v_share s"
        "s1 = (if g = 29 then s\<lparr>v_key := v, v_share := True\<rparr> else s)"
        "key_share_loop \<lparr>rd_p = w, rd_ok = True\<rparr> s1 = Some (True, s')" by metis
    have "\<exists>ks. w = enc_shares ks \<and> shares_ok (v_share s1) ks"
      using less.hyps [of "\<lparr>rd_p = w, rd_ok = True\<rparr>" s1] e less.prems by (auto simp: share_ok_def)
    then obtain ks where "w = enc_shares ks" "shares_ok (v_share s1) ks" by blast
    then show ?thesis
      using e by (intro exI [of _ "(g, v) # ks"]) (auto simp: shares_ok_Cons share_ok_def split: if_splits)
  qed
qed

subsection \<open>Protocol names\<close>

lemma enc_protos_simps [simp]: "enc_protos [] = []" "enc_protos (p # ps) = vec8 p @ enc_protos ps"
  by (simp_all add: enc_protos_def)

definition protos_ok :: "u8 list list \<Rightarrow> bool" where
  "protos_ok ps \<longleftrightarrow> (\<forall>p \<in> set ps. p \<noteq> [] \<and> length p < 256)"

definition add_protos :: "u8 list list \<Rightarrow> hs13_vars \<Rightarrow> hs13_vars" where
  "add_protos ps s = s\<lparr>v_h11 := v_h11 s \<or> proto_http11 \<in> set ps, v_h2 := v_h2 s \<or> proto_h2 \<in> set ps\<rparr>"

lemma proto_is_eq:
  assumes "length p = unat plen" "length lit < 2 ^ 32"
  shows "proto_is plen (Some p) lit = Some (lit = p)"
proof (cases "length p = length lit")
  case True
  then show ?thesis
    using assms by (auto simp: proto_is_def compare_bytes_def u_eq_iff unat_of_nat take_bit_nat_eq_self)
next
  case False
  then have "p \<noteq> lit" by auto
  then show ?thesis
    using False assms by (auto simp: proto_is_def u_eq_iff unat_of_nat take_bit_nat_eq_self)
qed

lemma alpn_loop_protos:
  "protos_ok ps \<Longrightarrow> alpn_loop \<lparr>rd_p = enc_protos ps, rd_ok = True\<rparr> s = Some (True, add_protos ps s)"
proof (induction ps arbitrary: s)
  case Nil
  then show ?case
    by (subst alpn_loop.simps) (simp add: add_protos_def)
next
  case (Cons p ps)
  have len: "unat (of_nat (length p) :: u8) = length p" "p \<noteq> []"
    using Cons.prems by (auto simp: protos_ok_def unat_of_nat take_bit_nat_eq_self)
  have lits: "length proto_http11 < 2 ^ 32" "length proto_h2 < 2 ^ 32"
    by (simp_all add: proto_http11_def proto_h2_def)
  show ?case
    using Cons.prems len
    by (subst alpn_loop.simps)
      (auto simp: vec8_def take_eq proto_is_eq [OF _ lits(1)] proto_is_eq [OF _ lits(2)] u32_eq_0_iff
         Cons.IH protos_ok_def add_protos_def)
qed

lemma alpn_entryE:
  assumes run: "alpn_loop r s = Some (True, s')" and nz: "rd_n r \<noteq> 0"
  obtains p w s1 where "rd_p r = vec8 p @ w" "p \<noteq> []" "length p < 256"
    "alpn_loop \<lparr>rd_p = w, rd_ok = True\<rparr> s1 = Some (True, s')"
proof -
  obtain plen r1 k r2 where
    steps: "viltrum_hs13_u8 r = Some (plen, r1)" "viltrum_hs13_take r1 (unat plen) = (k, r2)"
    by (metis u8_eq surj_pair)
  have ok2: "rd_ok r2" "plen \<noteq> 0"
    using run nz steps by (subst (asm) alpn_loop.simps; auto split: if_splits)+
  from take_okE [OF steps(2) ok2(1)] obtain p w where
    2: "rd_ok r1" "rd_p r1 = p @ w" "length p = unat plen" "r2 = \<lparr>rd_p = w, rd_ok = True\<rparr>"
    by metis
  from u8_okE [OF steps(1) 2(1)] obtain y w1 where
    1: "rd_p r = y # w1" "plen = ucast y" "r1 = \<lparr>rd_p = w1, rd_ok = True\<rparr>" by metis
  have p: "length p = unat y"
    using 1 2 by simp
  have "\<exists>s1. alpn_loop r2 s1 = Some (True, s')"
    using run nz steps ok2 by (subst (asm) alpn_loop.simps) (auto simp: bind_eq_Some_conv)
  then obtain s1 where "alpn_loop r2 s1 = Some (True, s')" ..
  moreover have "length p < 256"
    using p unsigned_less [of y, where 'a = nat] by simp
  ultimately show thesis
    using 1 2 p ok2 by (intro that [of p w s1]) (auto simp: vec8_def u32_eq_0_iff)
qed

lemma alpn_loop_okD:
  "alpn_loop r s = Some (True, s') \<Longrightarrow> \<exists>ps. rd_p r = enc_protos ps \<and> protos_ok ps"
proof (induction "rd_n r" arbitrary: r s rule: less_induct)
  case less
  show ?case
  proof (cases "rd_n r = 0")
    case True
    then show ?thesis
      by (intro exI [of _ "[]"]) (simp add: protos_ok_def)
  next
    case False
    from alpn_entryE [OF less.prems False] obtain p w s1 where
      e: "rd_p r = vec8 p @ w" "p \<noteq> []" "length p < 256"
        "alpn_loop \<lparr>rd_p = w, rd_ok = True\<rparr> s1 = Some (True, s')" by metis
    obtain ps where "w = enc_protos ps" "protos_ok ps"
      using less.hyps [of "\<lparr>rd_p = w, rd_ok = True\<rparr>" s1] e by auto
    then show ?thesis
      using e by (intro exI [of _ "p # ps"]) (auto simp: protos_ok_def)
  qed
qed

section \<open>One extension\<close>

text \<open>What an extension does to the variables of the loop.\<close>

definition ext_apply :: "extension \<Rightarrow> hs13_vars \<Rightarrow> hs13_vars" where
  "ext_apply e s = s\<lparr>
     v_v13 := v_v13 s \<or> 0x0304 \<in> set (versions_of e),
     v_group := v_group s \<or> 29 \<in> set (groups_of e),
     v_share := v_share s \<or> shares_of e \<noteq> [],
     v_key := (if shares_of e = [] then v_key s else last (shares_of e)),
     v_pss := v_pss s \<or> 0x0804 \<in> set (sigalgs_of e),
     v_alpn := v_alpn s \<or> is_alpn e,
     v_h11 := v_h11 s \<or> proto_http11 \<in> set (protos_of e),
     v_h2 := v_h2 s \<or> proto_h2 \<in> set (protos_of e),
     v_defer := v_defer s \<or> is_deferred e\<rparr>"

lemma ext_ok_Key_Share: "ext_ok (Key_Share ks) \<longleftrightarrow> shares_ok False ks"
  by (auto simp: shares_ok_def share_ok_def)

lemma ext_ok_Alpn: "ext_ok (Alpn ps) \<longleftrightarrow> ps \<noteq> [] \<and> protos_ok ps"
  by (auto simp: protos_ok_def)

lemma enc_protos_eq_Nil [simp]: "enc_protos ps = [] \<longleftrightarrow> ps = []"
  by (cases ps) (auto simp: vec8_def)

lemmas any_u16_const =
  any_u16_enc16s [of "0x0304", simplified] any_u16_enc16s [of 29, simplified] any_u16_enc16s [of "0x0804", simplified]
  any_u16_enc16s [of "0x1301", simplified]

lemmas hs13_constants =
  VILTRUM_HS13_GROUP_X25519_def VILTRUM_HS13_SUITE_def VILTRUM_HS13_SIG_PSS_SHA256_def VILTRUM_HS13_MAX_EXT_def

lemma enc16s_eq_Nil [simp]: "enc16s xs = [] \<longleftrightarrow> xs = []"
  by (cases xs) (auto simp: enc16_def)

lemma hs13_ext_apply:
  assumes "ext_ok e" "length (ext_body e) < 65536" "length (v_key s) = 32"
    and "ext_type e = 51 \<Longrightarrow> \<not> v_share s"
  shows "hs13_ext (ucast (ext_type e)) \<lparr>rd_p = ext_body e, rd_ok = True\<rparr> rest s
    = Some (\<not> is_psk e \<or> rd_n rest = 0, ext_apply e s)"
proof (cases e)
  case (Key_Share ks)
  then show ?thesis
    using assms
    by (simp add: hs13_ext_def ext_key_share_def ext_apply_def ext_ok_Key_Share key_share_loop_shares add_share_def
        del: ext_ok.simps)
next
  case (Alpn ps)
  then show ?thesis
    using assms
    by (simp add: hs13_ext_def ext_alpn_def ext_apply_def ext_ok_Alpn alpn_loop_protos add_protos_def
        del: ext_ok.simps)
next
  case (Other t b)
  then show ?thesis
    using assms ucast16_eq_iff [of t 43] ucast16_eq_iff [of t 10] ucast16_eq_iff [of t 51] ucast16_eq_iff [of t 13]
      ucast16_eq_iff [of t 16] ucast16_eq_iff [of t 41] ucast16_eq_iff [of t 42] ucast16_eq_iff [of t 44]
    by (simp add: hs13_ext_def ext_apply_def known_types_def)
qed (use assms in \<open>simp_all add: hs13_ext_def ext_supported_versions_def ext_supported_groups_def u16_vector_def
    ext_signature_algorithms_def ext_apply_def any_u16_const hs13_constants\<close>)

lemma u16_vectorD:
  assumes "u16_vector r v"
  obtains xs where "rd_ok r" "rd_p r = []" "rd_p v = enc16s xs" "xs \<noteq> []"
proof -
  obtain xs where "rd_p v = enc16s xs"
    using assms enc16s_surj [of "rd_p v"] by (auto simp: u16_vector_def mod_2_eq_odd)
  then show thesis
    using assms that [of xs] by (auto simp: u16_vector_def)
qed

lemma ext_u16sE:
  assumes "sub16 ext = Some (g, r)" "u16_vector r g"
  obtains xs where "rd_p ext = vec16 (enc16s xs)" "xs \<noteq> []"
  using u16_vectorD [OF assms(2)] sub16_okE [OF assms(1)]
  by (metis append_Nil2 viltrum_hs13_rd.select_convs(1))

lemma hs13_ext_okD:
  assumes run: "hs13_ext (ucast t) ext rest s = Some (True, s')" and "rd_ok ext" "length (v_key s) = 32"
    and share: "t = 51 \<Longrightarrow> \<not> v_share s"
  obtains e where "ext_type e = t" "ext_body e = rd_p ext" "ext_ok e" "is_psk e \<Longrightarrow> rd_n rest = 0"
proof -
  note cases = ucast16_eq_iff [of t 43] ucast16_eq_iff [of t 10] ucast16_eq_iff [of t 51] ucast16_eq_iff [of t 13]
      ucast16_eq_iff [of t 16] ucast16_eq_iff [of t 41] ucast16_eq_iff [of t 42] ucast16_eq_iff [of t 44]
  consider "t = 43" | "t = 10" | "t = 51" | "t = 13" | "t = 16" | "t = 41" | "t = 42" | "t = 44"
    | "t \<notin> known_types"
    by (auto simp: known_types_def)
  then show thesis
  proof cases
    case 1
    then obtain v r where 2: "sub8 ext = Some (v, r)" "u16_vector r v"
      using run by (auto simp: hs13_ext_def ext_supported_versions_def bind_eq_Some_conv split: if_splits)
    from u16_vectorD [OF 2(2)] obtain xs where xs: "rd_ok r" "rd_p r = []" "rd_p v = enc16s xs" "xs \<noteq> []" by metis
    from sub8_okE [OF 2(1) xs(1)] have "rd_p ext = vec8 (enc16s xs) \<and> 2 * length xs < 256"
      by (metis append_Nil2 length_enc16s viltrum_hs13_rd.select_convs(1) xs(2,3))
    then show thesis
      using that [of "Supported_Versions xs"] 1 xs by simp
  next
    case 2
    then obtain g r where "sub16 ext = Some (g, r)" "u16_vector r g"
      using run by (auto simp: hs13_ext_def ext_supported_groups_def bind_eq_Some_conv split: if_splits)
    from ext_u16sE [OF this] obtain xs where "rd_p ext = vec16 (enc16s xs)" "xs \<noteq> []" by metis
    then show thesis
      using that [of "Supported_Groups xs"] 2 by simp
  next
    case 3
    then obtain ks r where ks: "sub16 ext = Some (ks, r)" "rd_ok r" "rd_p r = []" "key_share_loop ks s = Some (True, s')"
      using run by (auto simp: hs13_ext_def ext_key_share_def bind_eq_Some_conv split: if_splits)
    from sub16_okE [OF ks(1,2)] obtain v where v: "rd_p ext = vec16 v" "ks = \<lparr>rd_p = v, rd_ok = True\<rparr>"
      by (metis append_Nil2 ks(3) viltrum_hs13_rd.select_convs(1))
    from key_share_loop_okD [OF ks(4)] obtain l where "v = enc_shares l" "shares_ok False l"
      using v assms 3 by auto
    then show thesis
      using that [of "Key_Share l"] 3 v ext_ok_Key_Share by simp
  next
    case 4
    then obtain g r where "sub16 ext = Some (g, r)" "u16_vector r g"
      using run by (auto simp: hs13_ext_def ext_signature_algorithms_def bind_eq_Some_conv split: if_splits)
    from ext_u16sE [OF this] obtain xs where "rd_p ext = vec16 (enc16s xs)" "xs \<noteq> []" by metis
    then show thesis
      using that [of "Signature_Algorithms xs"] 4 by simp
  next
    case 5
    then obtain l r s1 where l: "sub16 ext = Some (l, r)" "rd_ok r" "rd_p r = []" "rd_p l \<noteq> []"
      "alpn_loop l s1 = Some (True, s')"
      using run by (auto simp: hs13_ext_def ext_alpn_def bind_eq_Some_conv split: if_splits)
    from sub16_okE [OF l(1,2)] have v: "rd_p ext = vec16 (rd_p l)"
      by (metis append_Nil2 l(3) viltrum_hs13_rd.select_convs(1))
    from alpn_loop_okD [OF l(5)] obtain ps where "rd_p l = enc_protos ps" "protos_ok ps" by auto
    then show thesis
      using that [of "Alpn ps"] 5 v l by (simp add: protos_ok_def)
  next
    case 6
    then show thesis
      using that [of "Pre_Shared_Key (rd_p ext)"] run by (auto simp: hs13_ext_def)
  next
    case 7
    then show thesis
      using that [of "Early_Data (rd_p ext)"] by auto
  next
    case 8
    then show thesis
      using that [of "Cookie (rd_p ext)"] by auto
  next
    case 9
    then show thesis
      using that [of "Other t (rd_p ext)"] by auto
  qed
qed

section \<open>Totality of the handlers\<close>

lemma any_u16_total: "\<exists>f. any_u16 x found r = Some f"
proof (induction x found r rule: any_u16.induct)
  case (1 x found r)
  obtain y r' where "viltrum_hs13_u16 r = Some (y, r')"
    using u16_total by blast
  then show ?case
    using 1 by (subst any_u16.simps) simp
qed

text \<open>What a handler keeps, whether it accepts the extension or not.\<close>

definition handler_post :: "hs13_vars \<Rightarrow> hs13_step \<Rightarrow> bool" where
  "handler_post s res \<longleftrightarrow>
     (\<exists>ok s'. res = Some (ok, s') \<and> length (v_key s') = length (v_key s) \<and> v_seen s' = v_seen s
        \<and> (\<not> ok \<longrightarrow> v_v13 s' = v_v13 s))"

lemma handler_postI [intro]:
  "length (v_key s') = length (v_key s) \<Longrightarrow> v_seen s' = v_seen s \<Longrightarrow> (\<not> ok \<Longrightarrow> v_v13 s' = v_v13 s) \<Longrightarrow>
   handler_post s (Some (ok, s'))"
  by (auto simp: handler_post_def)

lemma handler_post_trans:
  "handler_post s1 res \<Longrightarrow> length (v_key s1) = length (v_key s) \<Longrightarrow> v_seen s1 = v_seen s \<Longrightarrow> v_v13 s1 = v_v13 s \<Longrightarrow>
   handler_post s res"
  by (auto simp: handler_post_def)

lemma key_share_loop_post: "length (v_key s) = 32 \<Longrightarrow> handler_post s (key_share_loop r s)"
proof (induction r s rule: key_share_loop.induct)
  case (1 r s)
  show ?case
  proof (cases "rd_n r = 0")
    case True
    then show ?thesis
      by (subst key_share_loop.simps) auto
  next
    case False
    obtain group r1 klen r2 key r3 where
      steps: "viltrum_hs13_u16 r = Some (group, r1)" "viltrum_hs13_u16 r1 = Some (klen, r2)"
        "viltrum_hs13_take r2 (unat klen) = (key, r3)"
      by (metis u16_total surj_pair)
    note run = key_share_loop.simps [of r s, unfolded steps bind.bind_lunit prod.case]
    note IH = 1(1) [OF False steps(1) refl steps(2) refl steps(3) [symmetric]]
      1(2) [OF False steps(1) refl steps(2) refl steps(3) [symmetric]]
    show ?thesis
    proof (cases "rd_ok r3 \<and> klen \<noteq> 0 \<and> \<not> (group = VILTRUM_HS13_GROUP_X25519 \<and> (klen \<noteq> 32 \<or> v_share s))")
      case False
      then show ?thesis
        using \<open>rd_n r \<noteq> 0\<close> run steps by (auto simp: handler_post_def)
    next
      case True
      then obtain v where "key = Some v" "length v = unat klen"
        using steps(3) by (metis take_okE)
      then show ?thesis
        using True \<open>rd_n r \<noteq> 0\<close> run steps IH 1(3)
        by (auto simp: u32_eq_32_iff elim!: handler_post_trans)
    qed
  qed
qed

lemma proto_is_total:
  "length lit < 2 ^ 32 \<Longrightarrow> length v = unat plen \<Longrightarrow> \<exists>b. proto_is plen (Some v) lit = Some b"
  by (simp add: proto_is_eq)

lemma alpn_loop_post: "handler_post s (alpn_loop r s)"
proof (induction r s rule: alpn_loop.induct)
  case (1 r s)
  show ?case
  proof (cases "rd_n r = 0")
    case True
    then show ?thesis
      by (subst alpn_loop.simps) auto
  next
    case False
    obtain plen r1 proto r2 where
      steps: "viltrum_hs13_u8 r = Some (plen, r1)" "viltrum_hs13_take r1 (unat plen) = (proto, r2)"
      by (metis u8_total surj_pair)
    note run = alpn_loop.simps [of r s, unfolded steps bind.bind_lunit prod.case]
    show ?thesis
    proof (cases "rd_ok r2 \<and> plen \<noteq> 0")
      case False
      then show ?thesis
        using \<open>rd_n r \<noteq> 0\<close> run steps by (auto simp: handler_post_def)
    next
      case True
      then obtain v where v: "proto = Some v" "length v = unat plen"
        using steps(2) by (metis take_okE)
      then obtain a b where ab: "proto_is plen proto proto_http11 = Some a" "proto_is plen proto proto_h2 = Some b"
        using proto_is_total [of proto_http11 v plen] proto_is_total [of proto_h2 v plen]
        by (auto simp: proto_http11_def proto_h2_def)
      have "handler_post (s\<lparr>v_h11 := v_h11 s \<or> a, v_h2 := v_h2 s \<or> b\<rparr>)
          (alpn_loop r2 (s\<lparr>v_h11 := v_h11 s \<or> a, v_h2 := v_h2 s \<or> b\<rparr>))"
        using 1 [OF False steps(1) refl steps(2) [symmetric] _ ab] True by simp
      then show ?thesis
        using True \<open>rd_n r \<noteq> 0\<close> run steps ab by (auto elim!: handler_post_trans)
    qed
  qed
qed

lemma hs13_ext_post:
  assumes "length (v_key s) = 32"
  shows "handler_post s (hs13_ext t ext rest s)"
proof -
  obtain v r1 g r2 where sub: "sub8 ext = Some (v, r1)" "sub16 ext = Some (g, r2)"
    using sub8_total sub16_total by blast
  obtain f1 f2 f3 where any: "any_u16 0x0304 (v_v13 s) v = Some f1"
    "any_u16 VILTRUM_HS13_GROUP_X25519 (v_group s) g = Some f2"
    "any_u16 VILTRUM_HS13_SIG_PSS_SHA256 (v_pss s) g = Some f3"
    using any_u16_total by metis
  have "handler_post s (alpn_loop g (s\<lparr>v_alpn := True\<rparr>))"
    using alpn_loop_post by (rule handler_post_trans) simp_all
  then show ?thesis
    using assms key_share_loop_post [of s g]
    by (auto simp: hs13_ext_def ext_supported_versions_def ext_supported_groups_def ext_key_share_def
        ext_signature_algorithms_def ext_alpn_def sub any)
qed

section \<open>The extension loop\<close>

definition see_apply :: "extension \<Rightarrow> hs13_vars \<Rightarrow> hs13_vars" where
  "see_apply e s = ext_apply e (s\<lparr>v_seen := v_seen s @ [ucast (ext_type e)]\<rparr>)"

definition vars_inv :: "hs13_vars \<Rightarrow> bool" where
  "vars_inv s \<longleftrightarrow> length (v_key s) = 32 \<and> (v_share s \<longrightarrow> 51 \<in> set (v_seen s))"

definition exts_from :: "u32 list \<Rightarrow> extension list \<Rightarrow> bool" where
  "exts_from seen es \<longleftrightarrow>
     (\<forall>e \<in> set es. ext_ok e \<and> length (ext_body e) < 65536) \<and> distinct (seen @ map (\<lambda>e. ucast (ext_type e)) es)
     \<and> length seen + length es \<le> 64 \<and> (\<forall>e \<in> set (butlast es). \<not> is_psk e)"

lemma exts_from_Cons:
  "distinct seen \<Longrightarrow> exts_from seen (e # es) \<longleftrightarrow>
     ext_ok e \<and> length (ext_body e) < 65536 \<and> ucast (ext_type e) \<notin> set seen \<and> length seen < 64
     \<and> (is_psk e \<longrightarrow> es = []) \<and> exts_from (seen @ [ucast (ext_type e)]) es"
  by (auto simp: exts_from_def)

lemma exts_from_Nil: "exts_from [] es = exts_ok es"
proof -
  have "distinct (map (\<lambda>e. ucast (ext_type e) :: u32) es) = distinct (map ext_type es)"
    by (simp add: distinct_map inj_on_def)
  then show ?thesis
    by (simp add: exts_from_def exts_ok_def)
qed

lemma shares_of_32: "ext_ok e \<Longrightarrow> shares_of e \<noteq> [] \<Longrightarrow> ext_type e = 51 \<and> length (last (shares_of e)) = 32"
proof (induction e rule: shares_of.induct)
  case (1 ks)
  then show ?case
    by (cases "x25519_shares ks") (auto simp: x25519_shares_def filter_eq_Cons_iff dest!: split_list)
qed simp_all

lemma vars_inv_see_apply: "vars_inv s \<Longrightarrow> ext_ok e \<Longrightarrow> vars_inv (see_apply e s)"
  using shares_of_32 [of e] by (auto simp: vars_inv_def see_apply_def ext_apply_def)

lemma v_seen_see_apply [simp]: "v_seen (see_apply e s) = v_seen s @ [ucast (ext_type e)]"
  by (simp add: see_apply_def ext_apply_def)

lemma enc_exts_simps [simp]:
  "enc_exts [] = []" "enc_exts (e # es) = enc16 (ext_type e) @ vec16 (ext_body e) @ enc_exts es"
  by (simp_all add: enc_exts_def enc_ext_def)

lemma enc_exts_eq_Nil [simp]: "enc_exts es = [] \<longleftrightarrow> es = []"
  by (cases es) (auto simp: enc16_def)

lemma exts_loop_enc_exts:
  "exts_from (v_seen s) es \<Longrightarrow> distinct (v_seen s) \<Longrightarrow> vars_inv s \<Longrightarrow>
   exts_loop \<lparr>rd_p = enc_exts es, rd_ok = True\<rparr> s = Some (Finished, fold see_apply es s)"
proof (induction es arbitrary: s)
  case Nil
  then show ?case
    by (subst exts_loop.simps) simp
next
  case (Cons e es)
  let ?s = "s\<lparr>v_seen := v_seen s @ [ucast (ext_type e)]\<rparr>"
  have e: "ext_ok e" "length (ext_body e) < 65536" "ucast (ext_type e) \<notin> set (v_seen s)" "length (v_seen s) < 64"
    "is_psk e \<longrightarrow> es = []" "exts_from (v_seen (see_apply e s)) es"
    using Cons.prems by (auto simp: exts_from_Cons)
  have "hs13_ext (ucast (ext_type e)) \<lparr>rd_p = ext_body e, rd_ok = True\<rparr> \<lparr>rd_p = enc_exts es, rd_ok = True\<rparr> ?s
    = Some (True, see_apply e s)"
    using e Cons.prems by (subst hs13_ext_apply) (auto simp: vars_inv_def see_apply_def)
  then have "exts_loop \<lparr>rd_p = enc_exts (e # es), rd_ok = True\<rparr> s
    = exts_loop \<lparr>rd_p = enc_exts es, rd_ok = True\<rparr> (see_apply e s)"
    using e by (subst exts_loop.simps) (simp add: push_seen_def hs13_constants)
  then show ?case
    using Cons.IH [of "see_apply e s"] e Cons.prems vars_inv_see_apply by simp
qed

text \<open>
  One turn of the loop: it stops with \<open>v13\<close> as it was, or it has read an extension and goes on.
\<close>

lemma exts_entry_cases:
  assumes run: "exts_loop r s = Some (ex, s')" and nz: "rd_n r \<noteq> 0" and inv: "vars_inv s"
  obtains (stop) "ex \<noteq> Finished" "v_v13 s' = v_v13 s" "ex = Unusual \<Longrightarrow> length (v_seen s) = 64"
  | (entry) e w where "rd_p r = enc16 (ext_type e) @ vec16 (ext_body e) @ w" "ext_ok e" "length (ext_body e) < 65536"
    "ucast (ext_type e) \<notin> set (v_seen s)" "length (v_seen s) \<noteq> 64" "is_psk e \<Longrightarrow> w = []"
    "exts_loop \<lparr>rd_p = w, rd_ok = True\<rparr> (see_apply e s) = Some (ex, s')"
proof -
  obtain type r1 ext r2 where
    steps: "viltrum_hs13_u16 r = Some (type, r1)" "sub16 r1 = Some (ext, r2)"
    using u16_total [of r] sub16_total by blast
  let ?s = "s\<lparr>v_seen := v_seen s @ [type]\<rparr>"
  obtain ok s2 where s2: "hs13_ext type ext r2 ?s = Some (ok, s2)" "\<not> ok \<Longrightarrow> v_v13 s2 = v_v13 s"
    using hs13_ext_post [of ?s type ext r2] inv by (auto simp: handler_post_def vars_inv_def)
  note loop = exts_loop.simps [of r s, unfolded steps bind.bind_lunit prod.case]
  show thesis
  proof (cases "rd_ok r2 \<and> length (v_seen s) < 64 \<and> type \<notin> set (v_seen s) \<and> ok")
    case False
    then have "ex \<noteq> Finished \<and> v_v13 s' = v_v13 s \<and> (ex = Unusual \<longrightarrow> length (v_seen s) = 64)"
      using run nz s2 unfolding loop by (auto simp: hs13_constants push_seen_def split: if_splits)
    then show thesis
      using stop by blast
  next
    case True
    then have next_turn: "exts_loop r2 s2 = Some (ex, s')"
      using run nz s2 unfolding loop by (auto simp: hs13_constants push_seen_def)
    from True have "rd_ok r2" by simp
    from sub16_okE [OF steps(2) this] obtain v w where
      2: "rd_ok r1" "rd_p r1 = vec16 v @ w" "length v < 65536" "ext = \<lparr>rd_p = v, rd_ok = True\<rparr>"
      "r2 = \<lparr>rd_p = w, rd_ok = True\<rparr>" by metis
    from u16_okE [OF steps(1) 2(1)] obtain t w1 where
      1: "rd_p r = enc16 t @ w1" "type = ucast t" "r1 = \<lparr>rd_p = w1, rd_ok = True\<rparr>" by metis
    have key: "length (v_key ?s) = 32" and share: "t = 51 \<Longrightarrow> \<not> v_share ?s"
      using inv True 1 by (auto simp: vars_inv_def)
    have "hs13_ext (ucast t) ext r2 ?s = Some (True, s2)"
      using s2(1) True 1(2) by simp
    then obtain e where e: "ext_type e = t" "ext_body e = v" "ext_ok e" "is_psk e \<Longrightarrow> w = []"
      by (rule hs13_ext_okD) (use 2 key share in auto)
    have "s2 = see_apply e s"
      using hs13_ext_apply [of e ?s r2] s2(1) e 1 2 key share by (auto simp: see_apply_def)
    then show thesis
      using e 1 2 True next_turn by (intro entry [of e w]) auto
  qed
qed

text \<open>
  What the loop read before it stopped: well-formed extensions, all of the list when it finished, and
  enough of it to know whether the hello offers TLS 1.3.
\<close>

lemma exts_loop_read:
  "exts_loop r s = Some (ex, s') \<Longrightarrow> distinct (v_seen s) \<Longrightarrow> length (v_seen s) \<le> 64 \<Longrightarrow> vars_inv s \<Longrightarrow>
   \<exists>es w. rd_p r = enc_exts es @ w \<and> exts_from (v_seen s) es \<and> v_v13 s' = v_v13 (fold see_apply es s)
     \<and> (ex = Finished \<longrightarrow> w = [] \<and> s' = fold see_apply es s) \<and> (ex = Unusual \<longrightarrow> length (v_seen s) + length es = 64)"
proof (induction "rd_n r" arbitrary: r s rule: less_induct)
  case less
  show ?case
  proof (cases "rd_n r = 0")
    case True
    then show ?thesis
      using less.prems by (intro exI [of _ "[]"] exI [of _ "[]"]) (simp add: exts_from_def exts_loop.simps)
  next
    case False
    from less.prems(1) False less.prems(4) show ?thesis
    proof (cases rule: exts_entry_cases)
      case stop
      then show ?thesis
        using less.prems by (intro exI [of _ "[]"] exI [of _ "rd_p r"]) (auto simp: exts_from_def)
    next
      case (entry e w)
      obtain es w' where es: "w = enc_exts es @ w'" "exts_from (v_seen (see_apply e s)) es"
        "v_v13 s' = v_v13 (fold see_apply es (see_apply e s))"
        "ex = Finished \<longrightarrow> w' = [] \<and> s' = fold see_apply es (see_apply e s)"
        "ex = Unusual \<longrightarrow> Suc (length (v_seen s)) + length es = 64"
        using less.hyps [of "\<lparr>rd_p = w, rd_ok = True\<rparr>" "see_apply e s"] entry less.prems vars_inv_see_apply
        by auto
      then show ?thesis
        using entry less.prems
        by (intro exI [of _ "e # es"] exI [of _ w']) (auto simp: exts_from_Cons)
    qed
  qed
qed

lemma exts_loop_total:
  "length (v_key s) = 32 \<Longrightarrow> length (v_seen s) \<le> 64 \<Longrightarrow> \<exists>ex s'. exts_loop r s = Some (ex, s')"
proof (induction "rd_n r" arbitrary: r s rule: less_induct)
  case less
  obtain type r1 ext r2 where
    steps: "viltrum_hs13_u16 r = Some (type, r1)" "sub16 r1 = Some (ext, r2)"
    using u16_total [of r] sub16_total by blast
  let ?s = "s\<lparr>v_seen := v_seen s @ [type]\<rparr>"
  obtain ok s2 where s2: "hs13_ext type ext r2 ?s = Some (ok, s2)" "length (v_key s2) = 32" "v_seen s2 = v_seen ?s"
    using hs13_ext_post [of ?s type ext r2] less.prems by (auto simp: handler_post_def)
  note loop = exts_loop.simps [of r s, unfolded steps bind.bind_lunit prod.case]
  show ?case
  proof (cases "rd_n r \<noteq> 0 \<and> rd_ok r2 \<and> length (v_seen s) < 64 \<and> type \<notin> set (v_seen s) \<and> ok")
    case False
    then show ?thesis
      using less.prems(2) s2 unfolding loop by (auto simp: hs13_constants push_seen_def)
  next
    case True
    have "\<exists>ex s'. exts_loop r2 s2 = Some (ex, s')"
      using less.hyps [of r2 s2] True s2 u16_rd_n [OF steps(1)] sub16_rd_n [OF steps(2)] by simp
    then show ?thesis
      using True s2 unfolding loop by (auto simp: hs13_constants push_seen_def)
  qed
qed

section \<open>The message\<close>

record client_hello =
  ch_version :: u16
  ch_random :: "u8 list"
  ch_sid :: "u8 list"
  ch_suites :: "u16 list"
  ch_comp :: "u8 list"
  ch_exts :: "extension list"

definition enc_hello_head :: "client_hello \<Rightarrow> u8 list" where
  "enc_hello_head c =
     enc16 (ch_version c) @ ch_random c @ vec8 (ch_sid c) @ vec16 (enc16s (ch_suites c)) @ vec8 (ch_comp c)"

definition enc_handshake :: "u8 \<Rightarrow> u8 list \<Rightarrow> u8 list" where
  "enc_handshake t body = t # enc24 (of_nat (length body)) @ body"

definition enc_hello :: "client_hello \<Rightarrow> u8 list" where
  "enc_hello c = enc_handshake 1 (enc_hello_head c @ vec16 (enc_exts (ch_exts c)))"

definition hello_head_ok :: "client_hello \<Rightarrow> bool" where
  "hello_head_ok c \<longleftrightarrow>
     length (ch_random c) = 32 \<and> length (ch_sid c) \<le> 32 \<and> ch_suites c \<noteq> [] \<and> length (ch_suites c) < 32768
     \<and> ch_comp c \<noteq> [] \<and> length (ch_comp c) < 256"

definition hello_ok :: "client_hello \<Rightarrow> bool" where
  "hello_ok c \<longleftrightarrow> hello_head_ok c \<and> exts_ok (ch_exts c) \<and> length (enc_exts (ch_exts c)) < 65536"

text \<open>The application protocol: h2 when both sides speak it, else http/1.1; 0 is none.\<close>

definition chosen_alpn :: "bool \<Rightarrow> extension list \<Rightarrow> nat" where
  "chosen_alpn h2 es =
     (if h2 \<and> offers protos_of es proto_h2 then 2 else if offers protos_of es proto_http11 then 1 else 0)"

text \<open>The hellos to serve, among those that offer TLS 1.3 and keep its rules.\<close>

definition hello_served :: "bool \<Rightarrow> client_hello \<Rightarrow> bool" where
  "hello_served h2 c \<longleftrightarrow>
     (\<forall>e \<in> set (ch_exts c). \<not> is_deferred e) \<and> 0x1301 \<in> set (ch_suites c) \<and> offers groups_of (ch_exts c) 29
     \<and> concat (map shares_of (ch_exts c)) \<noteq> [] \<and> offers sigalgs_of (ch_exts c) 0x0804
     \<and> ((\<exists>e \<in> set (ch_exts c). is_alpn e) \<longrightarrow> chosen_alpn h2 (ch_exts c) \<noteq> 0)"

definition hello_verdict :: "bool \<Rightarrow> client_hello \<Rightarrow> int" where
  "hello_verdict h2 c =
     (if \<not> offers versions_of (ch_exts c) 0x0304 then 0
      else if ch_version c \<noteq> 0x0303 \<or> ch_comp c \<noteq> [0] then - 1
      else if hello_served h2 c then 1 else 0)"

definition hello_result :: "bool \<Rightarrow> client_hello \<Rightarrow> viltrum_hs13_hello" where
  "hello_result h2 c =
     \<lparr>h_random = ch_random c, h_session_id = ch_sid c @ replicate (32 - length (ch_sid c)) 0,
      h_session_id_len = length (ch_sid c), h_share = hd (concat (map shares_of (ch_exts c))),
      h_alpn = chosen_alpn h2 (ch_exts c), h_h2 = h2\<rparr>"

subsection \<open>The head of the message\<close>

definition head_of :: "client_hello \<Rightarrow> u8 list \<Rightarrow> hs13_head" where
  "head_of c w = \<lparr>hd_version = ucast (ch_version c), hd_random = Some (ch_random c),
     hd_sid_len = ucast (of_nat (length (ch_sid c)) :: u8), hd_sid = Some (ch_sid c),
     hd_suites = \<lparr>rd_p = enc16s (ch_suites c), rd_ok = True\<rparr>, hd_comp = \<lparr>rd_p = ch_comp c, rd_ok = True\<rparr>,
     hd_rest = \<lparr>rd_p = w, rd_ok = True\<rparr>\<rparr>"

lemma take_append [simp]:
  "length v = n \<Longrightarrow> viltrum_hs13_take \<lparr>rd_p = v @ w, rd_ok = True\<rparr> n = (Some v, \<lparr>rd_p = w, rd_ok = True\<rparr>)"
  by (simp add: take_eq)

lemma u24_enc24 [simp]:
  "x < 2 ^ 24 \<Longrightarrow> viltrum_hs13_u24 \<lparr>rd_p = enc24 x @ w, rd_ok = True\<rparr> = Some (x, \<lparr>rd_p = w, rd_ok = True\<rparr>)"
  by (simp add: u24_eq enc24_def join24_enc24)

lemma unat_len8: "n < 256 \<Longrightarrow> unat (of_nat n :: u8) = n"
  by (simp add: unat_of_nat take_bit_nat_eq_self)

lemma hello_head_length:
  "hello_head_ok c \<Longrightarrow> length (enc_hello_head c) < 65536 + 512"
  by (simp add: hello_head_ok_def enc_hello_head_def)

lemma unat_len32: "n < 2 ^ 32 \<Longrightarrow> unat (of_nat n :: u32) = n"
  by (simp add: unat_of_nat take_bit_nat_eq_self)

lemma parse_fields_enc:
  assumes c: "hello_head_ok c"
  shows "parse_fields \<lparr>rd_p = enc_hello_head c @ w, rd_ok = True\<rparr> = Some (Some (head_of c w))"
proof -
  have sid: "unat (ucast (of_nat (length (ch_sid c)) :: u8) :: u32) = length (ch_sid c)"
    "\<not> (ucast (of_nat (length (ch_sid c)) :: u8) :: u32) > 32"
    using c by (auto simp: hello_head_ok_def unat_len8 word_less_nat_alt)
  have "vec8 (ch_sid c) @ x = of_nat (length (ch_sid c)) # ch_sid c @ x" for x
    by (simp add: vec8_def)
  then show ?thesis
    using c sid by (simp add: parse_fields_def enc_hello_head_def head_of_def hello_head_ok_def)
qed

lemma parse_head_enc:
  assumes b: "length b < 2 ^ 24"
  shows "parse_head (enc_handshake 1 b) = parse_fields \<lparr>rd_p = b, rd_ok = True\<rparr>"
proof -
  have unat: "unat (of_nat (length b) :: u32) = length b"
    using b by (simp add: unat_len32)
  then have "(of_nat (length b) :: u32) < 2 ^ 24"
    using b by (simp add: word_less_nat_alt)
  moreover have "uint (of_nat (length b) :: u32) = int (length b)"
    using arg_cong [OF unat, of int] by simp
  ultimately show ?thesis
    using b by (simp add: parse_head_def viltrum_hs13_rd_new_def enc_handshake_def)
qed

lemma parse_fields_okD:
  assumes run: "parse_fields r = Some (Some d)"
  obtains c w where "hello_head_ok c" "rd_p r = enc_hello_head c @ w" "d = head_of c w" "ch_exts c = []"
proof -
  obtain version r1 random r2 sid_len r3 sid r4 suites r5 comp r6 where
    steps: "viltrum_hs13_u16 r = Some (version, r1)" "viltrum_hs13_take r1 32 = (random, r2)"
      "viltrum_hs13_u8 r2 = Some (sid_len, r3)" "viltrum_hs13_take r3 (unat sid_len) = (sid, r4)"
      "sub16 r4 = Some (suites, r5)" "sub8 r5 = Some (comp, r6)"
    by (metis u16_total u8_total sub16_total sub8_total surj_pair)
  have final: "rd_ok r6" "\<not> sid_len > 32" "rd_p suites \<noteq> []" "even (rd_n suites)" "rd_p comp \<noteq> []"
    and d: "d = \<lparr>hd_version = version, hd_random = random, hd_sid_len = sid_len,
      hd_sid = sid, hd_suites = suites, hd_comp = comp, hd_rest = r6\<rparr>"
    using run steps by (auto simp: parse_fields_def split: if_splits)
  from sub8_okE [OF steps(6) final(1)] obtain cs w where
    6: "rd_ok r5" "rd_p r5 = vec8 cs @ w" "length cs < 256" "comp = \<lparr>rd_p = cs, rd_ok = True\<rparr>"
      "r6 = \<lparr>rd_p = w, rd_ok = True\<rparr>" by metis
  from sub16_okE [OF steps(5) 6(1)] obtain ss w5 where
    5: "rd_ok r4" "rd_p r4 = vec16 ss @ w5" "length ss < 65536" "suites = \<lparr>rd_p = ss, rd_ok = True\<rparr>"
      "r5 = \<lparr>rd_p = w5, rd_ok = True\<rparr>" by metis
  from take_okE [OF steps(4) 5(1)] obtain si w4 where
    4: "rd_ok r3" "rd_p r3 = si @ w4" "length si = unat sid_len" "sid = Some si"
      "r4 = \<lparr>rd_p = w4, rd_ok = True\<rparr>" by metis
  from u8_okE [OF steps(3) 4(1)] obtain y w3 where
    3: "rd_ok r2" "rd_p r2 = y # w3" "sid_len = ucast y" "r3 = \<lparr>rd_p = w3, rd_ok = True\<rparr>" by metis
  from take_okE [OF steps(2) 3(1)] obtain rn w2 where
    2: "rd_ok r1" "rd_p r1 = rn @ w2" "length rn = 32" "random = Some rn" "r2 = \<lparr>rd_p = w2, rd_ok = True\<rparr>" by metis
  from u16_okE [OF steps(1) 2(1)] obtain v w1 where
    1: "rd_ok r" "rd_p r = enc16 v @ w1" "version = ucast v" "r1 = \<lparr>rd_p = w1, rd_ok = True\<rparr>" by metis
  obtain xs where xs: "ss = enc16s xs"
    using enc16s_surj [of ss] final 5 by auto
  have y: "length si = unat y"
    using 3 4 by simp
  then have y': "of_nat (length si) = y" "length si \<le> 32"
    using final(2) 3 by (simp_all add: word_less_nat_alt)
  define c where "c = \<lparr>ch_version = v, ch_random = rn, ch_sid = si, ch_suites = xs, ch_comp = cs, ch_exts = []\<rparr>"
  show thesis
  proof (rule that)
    show "hello_head_ok c"
      using 2 5 6 xs y' final by (auto simp: c_def hello_head_ok_def)
    show "rd_p r = enc_hello_head c @ w"
      using 1 2 3 4 5 6 xs y' by (simp add: c_def enc_hello_head_def vec8_def)
    show "d = head_of c w"
      using d 1 2 3 4 5 6 xs y' by (simp add: c_def head_of_def)
  qed (simp add: c_def)
qed

lemma parse_head_okD:
  assumes run: "parse_head msg = Some (Some d)"
  obtains n rest where "msg = 1 # enc24 n @ rest" "int (unat n) = int (length rest) mod 2 ^ 64"
    "parse_fields \<lparr>rd_p = rest, rd_ok = True\<rparr> = Some (Some d)"
proof -
  obtain t r1 l r2 where
    steps: "viltrum_hs13_u8 (viltrum_hs13_rd_new msg) = Some (t, r1)" "viltrum_hs13_u24 r1 = Some (l, r2)"
    by (metis u8_total u24_eq surj_pair)
  have ok: "t = 1" "int (unat l) = (int (length msg) - 4) mod 2 ^ 64" "rd_ok r2" "parse_fields r2 = Some (Some d)"
    using run steps by (auto simp: parse_head_def split: if_splits)
  have r1: "rd_ok r1" "3 \<le> rd_n r1"
    using steps(2) ok(3) by (auto simp: u24_eq split: if_splits)
  then obtain a b c rest where abc: "rd_p r1 = a # b # c # rest"
    by (cases "rd_p r1"; cases "tl (rd_p r1)"; cases "tl (tl (rd_p r1))") auto
  from u8_okE [OF steps(1) r1(1)] obtain y w where y: "msg = y # w" "t = ucast y" "r1 = \<lparr>rd_p = w, rd_ok = True\<rparr>"
    by (auto simp: viltrum_hs13_rd_new_def)
  have "y = 1"
    using ok(1) y(2) by (simp add: u_eq_iff)
  moreover have "l = join24 a b c" "r2 = \<lparr>rd_p = rest, rd_ok = True\<rparr>"
    using steps(2) r1 abc by (auto simp: u24_eq)
  ultimately show thesis
    using ok y abc by (intro that [of l rest]) simp_all
qed

subsection \<open>The variables after the loop\<close>

lemma vars_inv_zero [simp]: "vars_inv vars_zero" "v_seen vars_zero = []"
  by (simp_all add: vars_inv_def vars_zero_def)

lemma offers_simps [simp]:
  "offers f [] x = False" "offers f (e # es) x = (x \<in> set (f e) \<or> offers f es x)"
  by (auto simp: offers_def)

lemma fold_see_apply:
  "v_v13 (fold see_apply es s) = (v_v13 s \<or> offers versions_of es 0x0304)"
  "v_group (fold see_apply es s) = (v_group s \<or> offers groups_of es 29)"
  "v_pss (fold see_apply es s) = (v_pss s \<or> offers sigalgs_of es 0x0804)"
  "v_h11 (fold see_apply es s) = (v_h11 s \<or> offers protos_of es proto_http11)"
  "v_h2 (fold see_apply es s) = (v_h2 s \<or> offers protos_of es proto_h2)"
  "v_alpn (fold see_apply es s) = (v_alpn s \<or> (\<exists>e \<in> set es. is_alpn e))"
  "v_defer (fold see_apply es s) = (v_defer s \<or> (\<exists>e \<in> set es. is_deferred e))"
  "v_share (fold see_apply es s) = (v_share s \<or> concat (map shares_of es) \<noteq> [])"
  "v_key (fold see_apply es s) =
     (if concat (map shares_of es) = [] then v_key s else last (concat (map shares_of es)))"
  by (induction es arbitrary: s) (auto simp: see_apply_def ext_apply_def)

lemma shares_of_le_1: "ext_ok e \<Longrightarrow> length (shares_of e) \<le> 1"
  by (cases e) simp_all

lemma shares_of_type: "shares_of e \<noteq> [] \<Longrightarrow> ext_type e = 51"
  by (cases e) simp_all

lemma one_share: "\<forall>e \<in> set es. ext_ok e \<Longrightarrow> distinct (map ext_type es) \<Longrightarrow> length (concat (map shares_of es)) \<le> 1"
proof (induction es)
  case (Cons e es)
  show ?case
  proof (cases "shares_of e = []")
    case False
    then have "\<forall>e' \<in> set es. shares_of e' = []"
      using Cons.prems shares_of_type by (metis distinct.simps(2) list.simps(9) in_set_conv_nth length_map nth_map nth_mem)
    then have "concat (map shares_of es) = []"
      by simp
    moreover have "length (shares_of e) \<le> 1"
      using Cons.prems shares_of_le_1 by simp
    ultimately show ?thesis
      by (simp only: list.map concat.simps append_Nil2)
  qed (use Cons in simp)
qed simp

lemma last_share:
  assumes "exts_ok es" "concat (map shares_of es) \<noteq> []"
  shows "last (concat (map shares_of es)) = hd (concat (map shares_of es))"
  using assms one_share [of es] by (cases "concat (map shares_of es)") (auto simp: exts_ok_def)

definition hello_left :: "bool \<Rightarrow> extension list \<Rightarrow> viltrum_hs13_hello" where
  "hello_left h2 es = (hello_zero h2)\<lparr>h_share :=
     (if concat (map shares_of es) = [] then replicate 32 0 else hd (concat (map shares_of es)))\<rparr>"

lemma comp_null_only_eq [simp]: "comp_null_only \<lparr>rd_p = cs, rd_ok = True\<rparr> = Some (cs = [0])"
  by (cases cs) (auto simp: comp_null_only_def u_eq_iff)

lemma protos_of_not_alpn: "\<not> is_alpn e \<Longrightarrow> protos_of e = []"
  by (cases e) simp_all

lemma chosen_alpn_0: "\<forall>e \<in> set es. \<not> is_alpn e \<Longrightarrow> chosen_alpn h2 es = 0"
  by (simp add: chosen_alpn_def offers_def protos_of_not_alpn)

lemma parse_verdict_eq:
  assumes c: "hello_ok c"
  shows "parse_verdict (head_of c w) (0x1301 \<in> set (ch_suites c)) (ch_comp c = [0]) (hello_left h2 (ch_exts c))
      (fold see_apply (ch_exts c) vars_zero)
    = Some (hello_verdict h2 c, if hello_verdict h2 c = 1 then hello_result h2 c else hello_left h2 (ch_exts c))"
proof -
  let ?s = "fold see_apply (ch_exts c) vars_zero"
  have vars: "v_v13 ?s = offers versions_of (ch_exts c) 0x0304" "v_group ?s = offers groups_of (ch_exts c) 29"
    "v_pss ?s = offers sigalgs_of (ch_exts c) 0x0804" "v_h11 ?s = offers protos_of (ch_exts c) proto_http11"
    "v_h2 ?s = offers protos_of (ch_exts c) proto_h2" "v_alpn ?s = (\<exists>e \<in> set (ch_exts c). is_alpn e)"
    "v_defer ?s = (\<exists>e \<in> set (ch_exts c). is_deferred e)" "v_share ?s = (concat (map shares_of (ch_exts c)) \<noteq> [])"
    by (simp_all add: fold_see_apply vars_zero_def)
  have ver: "(ucast (ch_version c) :: u32) = 0x0303 \<longleftrightarrow> ch_version c = 0x0303"
    using ucast16_eq_iff [of "ch_version c" "0x0303"] by simp
  have sid: "length (ch_sid c) \<le> 32" "length (ch_random c) = 32"
    using c by (simp_all add: hello_ok_def hello_head_ok_def)
  have copies: "memcpy (replicate 32 0) (Some (ch_random c)) 32 = Some (ch_random c)"
    "memcpy (replicate 32 0) (Some (ch_sid c)) (length (ch_sid c))
      = Some (ch_sid c @ replicate (32 - length (ch_sid c)) 0)"
    using sid by (simp_all add: memcpy_def)
  have left: "h_h2 (hello_left h2 es) = h2" "h_random (hello_left h2 es) = replicate 32 0"
    "h_session_id (hello_left h2 es) = replicate 32 0" for es
    by (simp_all add: hello_left_def hello_zero_def)
  have chosen: "alpn_chosen (hello_left h2 (ch_exts c)) ?s = chosen_alpn h2 (ch_exts c)"
    by (simp add: alpn_chosen_def chosen_alpn_def vars left)
  show ?thesis
  proof (cases "hello_verdict h2 c = 1")
    case True
    then have v: "offers versions_of (ch_exts c) 0x0304" "ch_version c = 0x0303" "ch_comp c = [0]" "hello_served h2 c"
      by (auto simp: hello_verdict_def split: if_splits)
    have alpn: "(if \<exists>e \<in> set (ch_exts c). is_alpn e then chosen_alpn h2 (ch_exts c) else 0) = chosen_alpn h2 (ch_exts c)"
      using chosen_alpn_0 [of "ch_exts c" h2] by auto
    have "hello_left h2 (ch_exts c) = (hello_zero h2)\<lparr>h_share := hd (concat (map shares_of (ch_exts c)))\<rparr>"
      using v(4) by (simp add: hello_left_def hello_served_def del: concat_eq_Nil_conv)
    then have result: "hello_result h2 c = (hello_left h2 (ch_exts c))\<lparr>h_random := ch_random c,
      h_session_id := ch_sid c @ replicate (32 - length (ch_sid c)) 0, h_session_id_len := length (ch_sid c),
      h_alpn := chosen_alpn h2 (ch_exts c)\<rparr>"
      by (simp add: hello_result_def hello_zero_def)
    show ?thesis
      using v True sid unfolding hello_served_def
      by (auto simp: chosen_alpn_0 parse_verdict_def vars Let_def left chosen alpn head_of_def copies unat_len8 result
          simp del: concat_eq_Nil_conv split del: if_split)
  next
    case False
    then show ?thesis
      using ver by (auto simp: parse_verdict_def vars Let_def left chosen head_of_def hello_served_def hello_verdict_def
          simp del: concat_eq_Nil_conv split: if_split_asm)
  qed
qed

lemma parse_enc_hello:
  assumes c: "hello_ok c"
  shows "viltrum_hs13_parse (enc_hello c) h2
    = Some (hello_verdict h2 c, if hello_verdict h2 c = 1 then hello_result h2 c else hello_left h2 (ch_exts c))"
proof -
  let ?w = "vec16 (enc_exts (ch_exts c))"
  have head: "parse_head (enc_hello c) = Some (Some (head_of c ?w))"
    using c hello_head_length [of c]
    by (simp add: enc_hello_def parse_head_enc parse_fields_enc hello_ok_def)
  have loop: "exts_loop \<lparr>rd_p = enc_exts (ch_exts c), rd_ok = True\<rparr> vars_zero
    = Some (Finished, fold see_apply (ch_exts c) vars_zero)"
    using c by (intro exts_loop_enc_exts) (simp_all add: exts_from_Nil hello_ok_def)
  have key: "(hello_zero h2)\<lparr>h_share := v_key (fold see_apply (ch_exts c) vars_zero)\<rparr> = hello_left h2 (ch_exts c)"
    using c last_share [of "ch_exts c"] by (simp add: hello_left_def fold_see_apply hello_ok_def vars_zero_def)
  have "hd_rest (head_of c ?w) = \<lparr>rd_p = ?w, rd_ok = True\<rparr>"
    "hd_suites (head_of c ?w) = \<lparr>rd_p = enc16s (ch_suites c), rd_ok = True\<rparr>"
    "hd_comp (head_of c ?w) = \<lparr>rd_p = ch_comp c, rd_ok = True\<rparr>"
    by (simp_all add: head_of_def)
  then show ?thesis
    using c loop parse_verdict_eq [OF c, of ?w h2]
    by (simp add: viltrum_hs13_parse_def head hello_ok_def any_u16_const hs13_constants key)
qed


subsection \<open>The parser on every message\<close>

lemma parse_head_total: "\<exists>d. parse_head msg = Some d"
proof -
  have "\<exists>d. parse_fields r = Some d" for r
  proof -
    obtain version r1 random r2 sid_len r3 sid r4 suites r5 cm r6 where
      "viltrum_hs13_u16 r = Some (version, r1)" "viltrum_hs13_take r1 32 = (random, r2)"
      "viltrum_hs13_u8 r2 = Some (sid_len, r3)" "viltrum_hs13_take r3 (unat sid_len) = (sid, r4)"
      "sub16 r4 = Some (suites, r5)" "sub8 r5 = Some (cm, r6)"
      by (metis u16_total u8_total sub16_total sub8_total surj_pair)
    then show ?thesis
      by (simp add: parse_fields_def)
  qed
  then show ?thesis
    by (simp add: parse_head_def u8_eq u24_eq)
qed

definition left_with :: "bool \<Rightarrow> hs13_vars \<Rightarrow> viltrum_hs13_hello" where
  "left_with h2 s = (hello_zero h2)\<lparr>h_share := v_key s\<rparr>"

lemma head_of_exts [simp]:
  "head_of (c\<lparr>ch_exts := es\<rparr>) w = head_of c w" "enc_hello_head (c\<lparr>ch_exts := es\<rparr>) = enc_hello_head c"
  "hello_head_ok (c\<lparr>ch_exts := es\<rparr>) = hello_head_ok c"
  by (simp_all add: head_of_def enc_hello_head_def hello_head_ok_def)

lemma enc_handshake_len:
  assumes "int (unat n) = int (length b) mod 2 ^ 64" "length b < 2 ^ 24"
  shows "1 # enc24 n @ b = enc_handshake 1 b"
proof -
  have "int (unat n) = int (length b)"
    using assms by simp
  then have "unat n = length b"
    by (simp only: of_nat_eq_iff)
  then have "n = of_nat (length b)"
    by (metis of_nat_unat ucast_id)
  then show ?thesis
    by (simp add: enc_handshake_def)
qed

lemma parse_cases:
  obtains (early) "viltrum_hs13_parse msg h2 = Some (0, hello_zero h2)"
  | (body) c x ex s where "hello_head_ok c" "length x < 65536" "msg = enc_handshake 1 (enc_hello_head c @ vec16 x)"
      "exts_loop \<lparr>rd_p = x, rd_ok = True\<rparr> vars_zero = Some (ex, s)"
      "viltrum_hs13_parse msg h2 =
         (case ex of Malformed \<Rightarrow> Some (if v_v13 s then - 1 else 0, left_with h2 s)
          | Unusual \<Rightarrow> Some (0, left_with h2 s)
          | Finished \<Rightarrow> parse_verdict (head_of c (vec16 x)) (0x1301 \<in> set (ch_suites c)) (ch_comp c = [0])
              (left_with h2 s) s)"
proof -
  obtain d where d: "parse_head msg = Some d"
    using parse_head_total by blast
  show thesis
  proof (cases d)
    case None
    then show thesis
      using d early by (simp add: viltrum_hs13_parse_def)
  next
    case (Some dd)
    obtain exts r where sub: "sub16 (hd_rest dd) = Some (exts, r)"
      using sub16_total by blast
    show thesis
    proof (cases "rd_n (hd_rest dd) \<noteq> 0 \<and> rd_ok r \<and> rd_n r = 0")
      case False
      then show thesis
        using d Some sub early by (auto simp: viltrum_hs13_parse_def)
    next
      case True
      then have "rd_ok r" by simp
      from sub16_okE [OF sub this] obtain x where x: "rd_p (hd_rest dd) = vec16 x" "length x < 65536"
        "exts = \<lparr>rd_p = x, rd_ok = True\<rparr>"
        using True by (metis append_Nil2 length_0_conv viltrum_hs13_rd.select_convs(1))
      from parse_head_okD [OF d [unfolded Some]] obtain n rest where
        n: "msg = 1 # enc24 n @ rest" "int (unat n) = int (length rest) mod 2 ^ 64"
          "parse_fields \<lparr>rd_p = rest, rd_ok = True\<rparr> = Some (Some dd)" by metis
      from parse_fields_okD [OF n(3)] obtain c w where
        c: "hello_head_ok c" "rest = enc_hello_head c @ w" "dd = head_of c w"
        by (metis viltrum_hs13_rd.select_convs(1))
      have w: "w = vec16 x"
        using c(3) x(1) by (simp add: head_of_def)
      have "length rest < 2 ^ 24"
        using hello_head_length [OF c(1)] c(2) w x(2) by simp
      then have msg: "msg = enc_handshake 1 (enc_hello_head c @ vec16 x)"
        using n(1,2) c(2) w by (simp add: enc_handshake_len)
      obtain ex s where loop: "exts_loop \<lparr>rd_p = x, rd_ok = True\<rparr> vars_zero = Some (ex, s)"
        using exts_loop_total [of vars_zero "\<lparr>rd_p = x, rd_ok = True\<rparr>"] by (auto simp: vars_zero_def)
      have "hd_suites dd = \<lparr>rd_p = enc16s (ch_suites c), rd_ok = True\<rparr>" "hd_comp dd = \<lparr>rd_p = ch_comp c, rd_ok = True\<rparr>"
        by (simp_all add: c head_of_def)
      then show thesis
        using True d Some sub x loop c w
        by (intro body [OF c(1) x(2) msg loop])
          (cases ex; simp add: viltrum_hs13_parse_def any_u16_const hs13_constants left_with_def Let_def)
    qed
  qed
qed

text \<open>What the parser returns on any message, in terms of what it has read.\<close>

lemma parse_outcome:
  obtains (deferred) h where "viltrum_hs13_parse msg h2 = Some (0, h)"
  | (refused) c w h where "viltrum_hs13_parse msg h2 = Some (- 1, h)" "hello_ok c"
      "msg = enc_handshake 1 (enc_hello_head c @ vec16 (enc_exts (ch_exts c) @ w))"
      "offers versions_of (ch_exts c) 0x0304"
  | (judged) c h where "hello_ok c" "msg = enc_hello c"
      "viltrum_hs13_parse msg h2 = Some (hello_verdict h2 c, h)" "hello_verdict h2 c = 1 \<Longrightarrow> h = hello_result h2 c"
proof (cases rule: parse_cases [of msg h2])
  case early
  then show ?thesis by (rule deferred)
next
  case (body c x ex s)
  obtain es w where es: "x = enc_exts es @ w" "exts_ok es" "v_v13 s = v_v13 (fold see_apply es vars_zero)"
    "ex = Finished \<longrightarrow> w = [] \<and> s = fold see_apply es vars_zero"
    using exts_loop_read [OF body(4)] by (auto simp: exts_from_Nil)
  let ?c = "c\<lparr>ch_exts := es\<rparr>"
  have ok: "hello_ok ?c"
    using body(1,2) es by (simp add: hello_ok_def)
  show ?thesis
  proof (cases ex)
    case Finished
    then have msg: "msg = enc_hello ?c"
      using body(3) es by (simp add: enc_hello_def)
    show ?thesis
      using parse_enc_hello [OF ok, of h2] judged [OF ok msg] unfolding msg by presburger
  next
    case Unusual
    then show ?thesis
      using body(5) deferred by simp
  next
    case Malformed
    show ?thesis
    proof (cases "v_v13 s")
      case True
      then have "offers versions_of (ch_exts ?c) 0x0304"
        using es(3) by (simp add: fold_see_apply vars_zero_def)
      then show ?thesis
        using body(3,5) Malformed True es ok by (intro refused [of _ ?c w]) simp_all
    qed (use body(5) Malformed deferred in simp)
  qed
qed

section \<open>Properties\<close>

text \<open>
  C8. The parser never reads or writes outside the message, the hello or the array of seen types, ends on
  every input, and returns 1, 0 or -1.
\<close>

theorem hs13_parse_total:
  "\<exists>ret h. viltrum_hs13_parse msg h2 = Some (ret, h) \<and> ret \<in> {1, 0, - 1}"
proof (cases rule: parse_outcome [of msg h2])
  case (judged c h)
  then show ?thesis
    by (auto simp: hello_verdict_def)
qed auto

text \<open>
  The parser decides every well-formed hello as the rules say: 0 without TLS 1.3, -1 when TLS 1.3 is
  offered with another legacy version or with compression, 1 when the hello offers what the handshake
  serves, 0 otherwise; when it serves the hello the session fields, the client's key share and the
  protocol are the hello's own.
\<close>

theorem hs13_parse_enc_hello:
  assumes "hello_ok c"
  shows "\<exists>h. viltrum_hs13_parse (enc_hello c) h2 = Some (hello_verdict h2 c, h)
    \<and> (hello_verdict h2 c = 1 \<longrightarrow> h = hello_result h2 c)"
  using parse_enc_hello [OF assms, of h2] by simp

text \<open>
  C7. The parser serves a message exactly when it is the encoding of a well-formed hello that the rules
  serve, and then fills in the hello with that hello's fields: nothing else is ever served.
\<close>

theorem hs13_parse_serves_iff:
  "viltrum_hs13_parse msg h2 = Some (1, h) \<longleftrightarrow>
     (\<exists>c. hello_ok c \<and> msg = enc_hello c \<and> hello_verdict h2 c = 1 \<and> h = hello_result h2 c)"
proof
  assume run: "viltrum_hs13_parse msg h2 = Some (1, h)"
  show "\<exists>c. hello_ok c \<and> msg = enc_hello c \<and> hello_verdict h2 c = 1 \<and> h = hello_result h2 c"
    by (cases rule: parse_outcome [of msg h2]) (use run in auto)
next
  assume "\<exists>c. hello_ok c \<and> msg = enc_hello c \<and> hello_verdict h2 c = 1 \<and> h = hello_result h2 c"
  then obtain c where "hello_ok c" "msg = enc_hello c" "hello_verdict h2 c = 1" "h = hello_result h2 c"
    by blast
  then show "viltrum_hs13_parse msg h2 = Some (1, h)"
    using parse_enc_hello [of c h2] by simp
qed

text \<open>
  C29. The parser refuses a connection only for a hello that offered TLS 1.3: the extensions it had read
  by then are well-formed and name version 0x0304. Whatever else is wrong is left to mbedtls.
\<close>

theorem hs13_parse_refuses_only_tls13:
  assumes "viltrum_hs13_parse msg h2 = Some (- 1, h)"
  shows "\<exists>c w. hello_ok c \<and> msg = enc_handshake 1 (enc_hello_head c @ vec16 (enc_exts (ch_exts c) @ w))
    \<and> offers versions_of (ch_exts c) 0x0304"
proof (cases rule: parse_outcome [of msg h2])
  case (judged c h')
  then have "offers versions_of (ch_exts c) 0x0304"
    using assms by (auto simp: hello_verdict_def split: if_splits)
  moreover have "msg = enc_handshake 1 (enc_hello_head c @ vec16 (enc_exts (ch_exts c) @ []))"
    using judged by (simp add: enc_hello_def)
  ultimately show ?thesis
    using judged(1) by blast
qed (use assms in auto)

subsection \<open>A hello\<close>

definition demo_hello :: client_hello where
  "demo_hello = \<lparr>ch_version = 0x0303, ch_random = replicate 32 7, ch_sid = [1, 2, 3], ch_suites = [0x1302, 0x1301],
     ch_comp = [0], ch_exts = [Supported_Versions [0x0304, 0x0303], Supported_Groups [23, 29],
       Key_Share [(23, [4, 5]), (29, replicate 32 9)], Signature_Algorithms [0x0403, 0x0804],
       Alpn [proto_h2, proto_http11], Other 0 [0, 0]]\<rparr>"

lemma demo_exts:
  "exts_ok (ch_exts demo_hello)" "length (enc_exts (ch_exts demo_hello)) < 65536"
  "offers versions_of (ch_exts demo_hello) 0x0304"
  by (simp_all add: demo_hello_def exts_ok_def known_types_def proto_h2_def proto_http11_def)

lemma demo_hello_ok: "hello_ok demo_hello"
  using demo_exts by (simp add: hello_ok_def hello_head_ok_def demo_hello_def)

lemma demo_verdict: "hello_verdict True demo_hello = 1"
  using demo_exts
  by (simp add: hello_verdict_def hello_served_def chosen_alpn_def demo_hello_def)

lemma hs13_parse_enc_hello_witness:
  "hello_ok demo_hello \<and> viltrum_hs13_parse (enc_hello demo_hello) True = Some (1, hello_result True demo_hello)"
  using hs13_parse_enc_hello [OF demo_hello_ok, of True] demo_hello_ok demo_verdict by auto

definition demo_bad :: client_hello where
  "demo_bad = demo_hello\<lparr>ch_comp := [1]\<rparr>"

lemma hs13_parse_refuses_only_tls13_witness:
  "\<exists>h c w. viltrum_hs13_parse (enc_hello demo_bad) True = Some (- 1, h) \<and> hello_ok c
    \<and> enc_hello demo_bad = enc_handshake 1 (enc_hello_head c @ vec16 (enc_exts (ch_exts c) @ w))
    \<and> offers versions_of (ch_exts c) 0x0304"
proof -
  have ok: "hello_ok demo_bad" "hello_verdict True demo_bad = - 1"
    using demo_exts by (simp_all add: demo_bad_def hello_verdict_def hello_ok_def hello_head_ok_def)
      (simp_all add: demo_hello_def)
  obtain h where h: "viltrum_hs13_parse (enc_hello demo_bad) True = Some (- 1, h)"
    using parse_enc_hello [OF ok(1), of True] ok(2) by auto
  show ?thesis
    using h hs13_parse_refuses_only_tls13 [OF h] by blast
qed

end
