(* ===== verification/Simd.thy ===== *)
theory Simd
  imports Prelude
begin

unbundle bit_operations_syntax

text \<open>
  The 128-bit vector operations the C code uses. A vector register is a 128-bit word whose byte \<open>i\<close> in memory
  order is its bits \<open>8 i\<close> to \<open>8 i + 7\<close>; each operation is written as the Intel manual defines it, and comes
  with the reading of its bits that the proofs use.
\<close>

type_synonym m128i = "128 word"

named_theorems m128_bits \<open>bits of vector operations\<close>

definition mm_slli_si128 :: "m128i \<Rightarrow> nat \<Rightarrow> m128i" where
  "mm_slli_si128 x n = push_bit (8 * n) x"

definition mm_srli_si128 :: "m128i \<Rightarrow> nat \<Rightarrow> m128i" where
  "mm_srli_si128 x n = drop_bit (8 * n) x"

text \<open>Lanes of 32 bits, the lowest first.\<close>

definition lane32 :: "m128i \<Rightarrow> nat \<Rightarrow> u32" where
  "lane32 x i = ucast (drop_bit (32 * i) x)"

definition from_lanes32 :: "u32 \<Rightarrow> u32 \<Rightarrow> u32 \<Rightarrow> u32 \<Rightarrow> m128i" where
  "from_lanes32 a b c d = ucast a OR push_bit 32 (ucast b) OR push_bit 64 (ucast c) OR push_bit 96 (ucast d)"

definition map_lanes32 :: "(u32 \<Rightarrow> u32) \<Rightarrow> m128i \<Rightarrow> m128i" where
  "map_lanes32 f x = from_lanes32 (f (lane32 x 0)) (f (lane32 x 1)) (f (lane32 x 2)) (f (lane32 x 3))"

definition mm_slli_epi32 :: "m128i \<Rightarrow> nat \<Rightarrow> m128i" where
  "mm_slli_epi32 x n = map_lanes32 (push_bit n) x"

definition mm_srli_epi32 :: "m128i \<Rightarrow> nat \<Rightarrow> m128i" where
  "mm_srli_epi32 x n = map_lanes32 (drop_bit n) x"

text \<open>\<^verbatim>\<open>_mm_shuffle_epi32\<close>: two bits of the immediate choose the lane.\<close>

definition mm_shuffle_epi32 :: "m128i \<Rightarrow> nat \<Rightarrow> m128i" where
  "mm_shuffle_epi32 x imm =
     from_lanes32 (lane32 x (imm mod 4)) (lane32 x (imm div 4 mod 4)) (lane32 x (imm div 16 mod 4))
       (lane32 x (imm div 64 mod 4))"

definition mm_insert_epi32 :: "m128i \<Rightarrow> u32 \<Rightarrow> nat \<Rightarrow> m128i" where
  "mm_insert_epi32 x v i = (x AND NOT (push_bit (32 * i) (mask 32))) OR push_bit (32 * i) (ucast v)"

definition mm_set_epi64x :: "u64 \<Rightarrow> u64 \<Rightarrow> m128i" where
  "mm_set_epi64x hi lo = push_bit 64 (ucast hi) OR ucast lo"

text \<open>Bytes in memory order.\<close>

definition mm_bytes :: "m128i \<Rightarrow> u8 list" where
  "mm_bytes x = map (\<lambda>i. ucast (drop_bit (8 * i) x)) [0..<16]"

definition mm_of_bytes :: "u8 list \<Rightarrow> m128i" where
  "mm_of_bytes bs = word_of_int (le_val (take 16 bs))"

text \<open>
  \<^verbatim>\<open>_mm_shuffle_epi8\<close>: byte \<open>i\<close> of the result is zero when the top bit of byte \<open>i\<close> of the mask is set, and
  otherwise the byte its low four bits name.
\<close>

definition mm_shuffle_epi8 :: "m128i \<Rightarrow> u8 list \<Rightarrow> m128i" where
  "mm_shuffle_epi8 x m =
     mm_of_bytes (map (\<lambda>k. if bit k 7 then 0 else mm_bytes x ! unat (k AND 15)) m)"

text \<open>\<^verbatim>\<open>_mm_clmulepi64_si128\<close>: the carry-less product of two 64-bit halves, which the immediate chooses.\<close>

primrec clmul_bits :: "nat \<Rightarrow> u64 \<Rightarrow> m128i \<Rightarrow> m128i" where
  "clmul_bits 0 a b = 0"
| "clmul_bits (Suc n) a b = clmul_bits n a b XOR (if bit a n then push_bit n b else 0)"

definition half64 :: "m128i \<Rightarrow> bool \<Rightarrow> u64" where
  "half64 x high = ucast (if high then drop_bit 64 x else x)"

definition mm_clmulepi64_si128 :: "m128i \<Rightarrow> m128i \<Rightarrow> nat \<Rightarrow> m128i" where
  "mm_clmulepi64_si128 a b imm = clmul_bits 64 (half64 a (odd imm)) (ucast (half64 b (odd (imm div 16))))"

section \<open>Bits\<close>

lemma bit_m128_ge: "128 \<le> n \<Longrightarrow> \<not> bit (x::m128i) n"
  using bit_imp_le_length [of x n] by auto

lemma bit_u32_ge: "32 \<le> n \<Longrightarrow> \<not> bit (x::u32) n"
  using bit_imp_le_length [of x n] by auto

lemma m128_eqI:
  assumes "\<And>n. n < 128 \<Longrightarrow> bit x n = bit (y::m128i) n"
  shows "x = y"
  by (rule bit_eqI) (use assms in auto)

lemma bit_from_lanes32:
  "bit (from_lanes32 a b c d) n \<longleftrightarrow>
     n < 128 \<and> bit (if n < 32 then a else if n < 64 then b else if n < 96 then c else d) (n mod 32)"
proof -
  consider "n < 32" | "32 \<le> n" "n < 64" | "64 \<le> n" "n < 96" | "96 \<le> n" "n < 128" | "128 \<le> n"
    by linarith
  then show ?thesis
  proof cases
    case 2
    then have "n mod 32 = n - 32" by (simp add: mod_if)
    then show ?thesis using 2 by (auto simp: from_lanes32_def bit_simps bit_u32_ge)
  next
    case 3
    then have "n mod 32 = n - 64" by (simp add: mod_if)
    then show ?thesis using 3 by (auto simp: from_lanes32_def bit_simps bit_u32_ge)
  next
    case 4
    then have "n mod 32 = n - 96" by (simp add: mod_if)
    then show ?thesis using 4 by (auto simp: from_lanes32_def bit_simps bit_u32_ge)
  qed (auto simp: from_lanes32_def bit_simps bit_u32_ge bit_m128_ge)
qed

lemma bit_lane32: "bit (lane32 x i) n \<longleftrightarrow> n < 32 \<and> bit x (32 * i + n)"
  by (simp add: lane32_def bit_simps)

lemma bit_map_lanes32:
  assumes "n < 128"
  shows "bit (map_lanes32 f x) n = bit (f (lane32 x (n div 32))) (n mod 32)"
proof -
  have "n div 32 = (if n < 32 then 0 else if n < 64 then 1 else if n < 96 then 2 else 3)"
    using assms by (auto simp: div_nat_eqI)
  then show ?thesis
    using assms by (simp add: map_lanes32_def bit_from_lanes32)
qed

lemma bit_slli_epi32 [m128_bits]:
  "bit (mm_slli_epi32 x k) n \<longleftrightarrow> n < 128 \<and> k \<le> n mod 32 \<and> bit x (n - k)"
proof (cases "n < 128 \<and> k \<le> n mod 32")
  case True
  then have "32 * (n div 32) + (n mod 32 - k) = n - k"
    using mult_div_mod_eq [of 32 n] by linarith
  then show ?thesis
    using True by (auto simp: mm_slli_epi32_def bit_map_lanes32 bit_simps bit_lane32 less_imp_diff_less)
next
  case False
  then show ?thesis
    by (cases "n < 128") (auto simp: mm_slli_epi32_def bit_map_lanes32 bit_simps bit_m128_ge)
qed

lemma bit_srli_epi32 [m128_bits]:
  "bit (mm_srli_epi32 x k) n \<longleftrightarrow> n < 128 \<and> n mod 32 + k < 32 \<and> bit x (n + k)"
proof (cases "n < 128")
  case True
  have "32 * (n div 32) + (k + n mod 32) = n + k"
    using mult_div_mod_eq [of 32 n] by linarith
  then show ?thesis
    using True by (auto simp: mm_srli_epi32_def bit_map_lanes32 bit_simps bit_lane32 ac_simps)
qed (auto simp: bit_m128_ge)

lemma bit_slli_si128 [m128_bits]: "bit (mm_slli_si128 x k) n \<longleftrightarrow> n < 128 \<and> 8 * k \<le> n \<and> bit x (n - 8 * k)"
  by (auto simp: mm_slli_si128_def bit_simps)

lemma bit_srli_si128 [m128_bits]: "bit (mm_srli_si128 x k) n \<longleftrightarrow> bit x (n + 8 * k)"
  by (simp add: mm_srli_si128_def bit_simps ac_simps)

section \<open>Lanes\<close>

named_theorems m128_lanes \<open>lanes of vector operations\<close>

lemma m128_lanes_eqI:
  assumes "lane32 x 0 = lane32 y 0" "lane32 x 1 = lane32 y 1" "lane32 x 2 = lane32 y 2" "lane32 x 3 = lane32 y 3"
  shows "x = y"
proof (rule m128_eqI)
  fix n :: nat assume n: "n < 128"
  define q r where "q = n div 32" and "r = n mod 32"
  have "n = 32 * q + r" "r < 32" "q < 4"
    using n by (auto simp: q_def r_def)
  moreover from \<open>q < 4\<close> have "lane32 x q = lane32 y q"
    using assms by (auto simp: numeral_eq_Suc less_Suc_eq)
  ultimately show "bit x n = bit y n"
    by (metis bit_lane32)
qed

lemma lane32_bitwise [m128_lanes]:
  "lane32 (x XOR y) q = lane32 x q XOR lane32 y q" "lane32 (x OR y) q = lane32 x q OR lane32 y q"
  by (auto simp: bit_lane32 bit_simps intro!: bit_word_eqI)

lemma lane32_ge: "4 \<le> q \<Longrightarrow> lane32 x q = 0"
  by (auto simp: bit_lane32 bit_m128_ge intro!: bit_word_eqI)

lemma lane32_from_lanes:
  "lane32 (from_lanes32 a b c d) 0 = a" "lane32 (from_lanes32 a b c d) 1 = b"
  "lane32 (from_lanes32 a b c d) 2 = c" "lane32 (from_lanes32 a b c d) 3 = d"
proof -
  have "n < 32 \<Longrightarrow> (32 * k + n) mod 32 = n" for k n :: nat
    by simp
  from this [of _ 2] this [of _ 3]
  have m: "n < 32 \<Longrightarrow> (64 + n) mod 32 = n" "n < 32 \<Longrightarrow> (96 + n) mod 32 = n" for n :: nat
    by simp_all
  show "lane32 (from_lanes32 a b c d) 0 = a" "lane32 (from_lanes32 a b c d) 1 = b"
    "lane32 (from_lanes32 a b c d) 2 = c" "lane32 (from_lanes32 a b c d) 3 = d"
    by (rule bit_word_eqI, simp add: bit_lane32 bit_from_lanes32 m)+
qed

lemma lane32_map [m128_lanes]: "q < 4 \<Longrightarrow> lane32 (map_lanes32 f x) q = f (lane32 x q)"
  using lane32_from_lanes
  by (auto simp: map_lanes32_def numeral_eq_Suc less_Suc_eq)

lemma lane32_slli_si128: "q < 4 \<Longrightarrow> lane32 (mm_slli_si128 x (4 * m)) q = (if q < m then 0 else lane32 x (q - m))"
  by (auto simp: bit_lane32 bit_slli_si128 right_diff_distrib' intro!: bit_word_eqI)

lemma lane32_srli_si128: "lane32 (mm_srli_si128 x (4 * m)) q = lane32 x (q + m)"
  by (auto simp: bit_lane32 bit_srli_si128 ac_simps distrib_left intro!: bit_word_eqI)

text \<open>Whole-register shifts by less than a lane, and by three lanes and less than one more.\<close>

lemma lane32_push_bit:
  assumes "0 < k" "k < 32" "q < 4"
  shows "lane32 (push_bit k x) q = push_bit k (lane32 x q) XOR (if q = 0 then 0 else drop_bit (32 - k) (lane32 x (q - 1)))"
proof (rule bit_word_eqI)
  fix n assume n: "n < LENGTH(32)"
  have "q \<noteq> 0 \<Longrightarrow> 32 * (q - 1) + (32 - k + n) = 32 * q + n - k"
    using assms by (cases q) auto
  then show "bit (lane32 (push_bit k x) q) n
    = bit (push_bit k (lane32 x q) XOR (if q = 0 then 0 else drop_bit (32 - k) (lane32 x (q - 1)))) n"
    using assms n by (cases "k \<le> n") (auto simp: bit_lane32 bit_simps)
qed

lemma lane32_drop_bit:
  assumes "0 < k" "k < 32"
  shows "lane32 (drop_bit k x) q = drop_bit k (lane32 x q) XOR push_bit (32 - k) (lane32 x (Suc q))"
proof (rule bit_word_eqI)
  fix n assume n: "n < LENGTH(32)"
  have "32 - k \<le> n \<Longrightarrow> 32 * Suc q + (n - (32 - k)) = 32 * q + k + n"
    using assms by auto
  then show "bit (lane32 (drop_bit k x) q) n = bit (drop_bit k (lane32 x q) XOR push_bit (32 - k) (lane32 x (Suc q))) n"
    using assms n by (cases "32 - k \<le> n") (auto simp: bit_lane32 bit_simps ac_simps)
qed

lemma lane32_push_bit_96:
  assumes "k < 32" "q < 4"
  shows "lane32 (push_bit (96 + k) x) q = (if q = 3 then push_bit k (lane32 x 0) else 0)"
  using assms by (auto simp: bit_lane32 bit_simps intro!: bit_word_eqI)

lemma lane32_drop_bit_96:
  assumes "k < 32"
  shows "lane32 (drop_bit (96 + k) x) q = (if q = 0 then drop_bit k (lane32 x 3) else 0)"
proof (rule bit_word_eqI)
  fix n assume "n < LENGTH(32)"
  have "bit x (k + (n + 96)) \<Longrightarrow> k + n < 32"
    using bit_imp_le_length [of x "k + (n + 96)"] by simp
  then show "bit (lane32 (drop_bit (96 + k) x) q) n = bit (if q = 0 then drop_bit k (lane32 x 3) else 0) n"
    using assms \<open>n < LENGTH(32)\<close> by (auto simp: bit_lane32 bit_simps bit_m128_ge ac_simps)
qed

section \<open>Bytes\<close>

lemma length_mm_bytes [simp]: "length (mm_bytes x) = 16"
  by (simp add: mm_bytes_def)

lemma uint_mm_of_bytes: "length bs = 16 \<Longrightarrow> uint (mm_of_bytes bs) = le_val bs"
  using le_val_less [of bs] by (simp add: mm_of_bytes_def uint_word_of_int)

lemma mm_bytes_of_bytes [simp]: "length bs = 16 \<Longrightarrow> mm_bytes (mm_of_bytes bs) = bs"
  by (simp add: mm_bytes_def bytes_of_word uint_mm_of_bytes)

lemma mm_of_bytes_bytes [simp]: "mm_of_bytes (mm_bytes x) = x"
proof -
  have "uint (mm_of_bytes (mm_bytes x)) = le_val (le_digits 16 (uint x) :: u8 list)"
    by (simp add: uint_mm_of_bytes) (simp add: mm_bytes_def bytes_of_word)
  also have "\<dots> = uint x"
    using uint_nonneg_less(2) [of x] by (simp add: le_val_le_digits)
  finally show ?thesis
    by (simp add: word_uint_eq_iff)
qed

lemma mm_bytes_xor: "mm_bytes (x XOR y) = map2 (XOR) (mm_bytes x) (mm_bytes y)"
  by (rule nth_equalityI) (simp_all add: mm_bytes_def drop_bit_xor unsigned_xor_eq)

lemma mm_bytes_inj: "mm_bytes x = mm_bytes y \<Longrightarrow> x = y"
  by (metis mm_of_bytes_bytes)

end
