(* ===== verification/Gf128.thy ===== *)
theory Gf128
  imports Simd
begin

unbundle bit_operations_syntax

text \<open>
  The field multiplication of GCM in \<^verbatim>\<open>src/engine/aesgcm.h\<close>: carry-less products, the Karatsuba form, and the
  reduction, against the multiplication algorithm of NIST SP 800-38D. Every map here is linear over exclusive
  or, so equalities are proved on the single bits.
\<close>

section \<open>The code\<close>

definition viltrum_bswap128 :: "m128i \<Rightarrow> m128i" where
  "viltrum_bswap128 x = mm_shuffle_epi8 x [15, 14, 13, 12, 11, 10, 9, 8, 7, 6, 5, 4, 3, 2, 1, 0]"

definition viltrum_clmul_wide :: "m128i \<Rightarrow> m128i \<Rightarrow> m128i \<times> m128i \<Rightarrow> m128i \<times> m128i" where
  "viltrum_clmul_wide a b = (\<lambda>(lo, hi).
     let l = mm_clmulepi64_si128 a b 0x00;
         h = mm_clmulepi64_si128 a b 0x11;
         m = mm_clmulepi64_si128 a b 0x10 XOR mm_clmulepi64_si128 a b 0x01
     in (lo XOR (l XOR mm_slli_si128 m 8), hi XOR (h XOR mm_srli_si128 m 8)))"

definition viltrum_clmul_kar ::
  "m128i \<Rightarrow> m128i \<Rightarrow> m128i \<Rightarrow> m128i \<times> m128i \<times> m128i \<Rightarrow> m128i \<times> m128i \<times> m128i" where
  "viltrum_clmul_kar a b bk = (\<lambda>(lo, mid, hi).
     let ak = a XOR mm_shuffle_epi32 a 0x4e
     in (lo XOR mm_clmulepi64_si128 a b 0x00, mid XOR mm_clmulepi64_si128 ak bk 0x00,
         hi XOR mm_clmulepi64_si128 a b 0x11))"

definition viltrum_kar_fold :: "m128i \<times> m128i \<times> m128i \<Rightarrow> m128i \<times> m128i" where
  "viltrum_kar_fold = (\<lambda>(lo, mid, hi).
     let mid = mid XOR (lo XOR hi)
     in (lo XOR mm_slli_si128 mid 8, hi XOR mm_srli_si128 mid 8))"

definition viltrum_gf_reduce :: "m128i \<times> m128i \<Rightarrow> m128i" where
  "viltrum_gf_reduce = (\<lambda>(lo, hi).
     let t7 = mm_srli_epi32 lo 31;
         t8 = mm_srli_epi32 hi 31;
         lo = mm_slli_epi32 lo 1;
         hi = mm_slli_epi32 hi 1;
         t9 = mm_srli_si128 t7 12;
         t8 = mm_slli_si128 t8 4;
         t7 = mm_slli_si128 t7 4;
         lo = lo OR t7;
         hi = (hi OR t8) OR t9;
         t7 = mm_slli_epi32 lo 31;
         t8 = mm_slli_epi32 lo 30;
         t9 = mm_slli_epi32 lo 25;
         t7 = (t7 XOR t8) XOR t9;
         t8 = mm_srli_si128 t7 4;
         t7 = mm_slli_si128 t7 12;
         lo = lo XOR t7;
         t2 = mm_srli_epi32 lo 1;
         t4 = mm_srli_epi32 lo 2;
         t5 = mm_srli_epi32 lo 7;
         t2 = ((t2 XOR t4) XOR t5) XOR t8;
         lo = lo XOR t2
     in hi XOR lo)"

definition viltrum_gf_mul :: "m128i \<Rightarrow> m128i \<Rightarrow> m128i" where
  "viltrum_gf_mul a b = viltrum_gf_reduce (viltrum_clmul_wide a b (0, 0))"

section \<open>The multiplication of SP 800-38D\<close>

text \<open>
  A block is the 128-bit number its bytes give, the first byte on top, so that bit \<open>127 - i\<close> is the coefficient
  of \<open>x ^ i\<close>. Algorithm 1: \<open>v\<close> runs through the multiples of \<open>y\<close> by powers of \<open>x\<close>.
\<close>

definition gf_step :: "m128i \<Rightarrow> m128i" where
  "gf_step v = (if bit v 0 then drop_bit 1 v XOR push_bit 120 0xe1 else drop_bit 1 v)"

definition gf_mult :: "m128i \<Rightarrow> m128i \<Rightarrow> m128i" where
  "gf_mult x y =
     fst (fold (\<lambda>i (z, v). (if bit x (127 - i) then z XOR v else z, gf_step v)) [0..<128] (0, y))"

section \<open>Linear maps\<close>

definition xor_linear :: "('a::len word \<Rightarrow> 'b::len word) \<Rightarrow> bool" where
  "xor_linear f \<longleftrightarrow> (\<forall>x y. f (x XOR y) = f x XOR f y)"

lemma xor_linearD: "xor_linear f \<Longrightarrow> f (x XOR y) = f x XOR f y"
  by (simp add: xor_linear_def)

lemma xor_linear_0: "xor_linear f \<Longrightarrow> f 0 = 0"
  using xor_linearD [of f 0 0] by simp

lemma xor_linear_id: "xor_linear (\<lambda>x. x)" "xor_linear (\<lambda>x. 0)"
  by (simp_all add: xor_linear_def)

lemma xor_linear_xor: "xor_linear f \<Longrightarrow> xor_linear g \<Longrightarrow> xor_linear (\<lambda>x. f x XOR g x)"
  by (simp add: xor_linear_def ac_simps)

lemma xor_linear_comp: "xor_linear f \<Longrightarrow> xor_linear g \<Longrightarrow> xor_linear (\<lambda>x. f (g x))"
  by (simp add: xor_linear_def)

lemma xor_linear_push_bit: "xor_linear (push_bit n :: 'a::len word \<Rightarrow> _)"
  by (simp add: xor_linear_def push_bit_xor)

lemma xor_linear_drop_bit: "xor_linear (drop_bit n :: 'a::len word \<Rightarrow> _)"
  by (simp add: xor_linear_def drop_bit_xor)

lemma xor_linear_ucast: "xor_linear (ucast :: 'a::len word \<Rightarrow> 'b::len word)"
  by (simp add: xor_linear_def unsigned_xor_eq)

lemma take_bit_Suc_xor: "take_bit (Suc n) x = take_bit n x XOR (if bit x n then push_bit n 1 else (0 :: 'a::len word))"
  by (rule bit_word_eqI) (auto simp: bit_simps less_Suc_eq)

text \<open>Two linear maps that agree on single bits are equal.\<close>

lemma xor_linear_eq:
  fixes f g :: "'a::len word \<Rightarrow> 'b::len word"
  assumes f: "xor_linear f" and g: "xor_linear g"
    and basis: "\<And>i. i < LENGTH('a) \<Longrightarrow> f (push_bit i 1) = g (push_bit i 1)"
  shows "f x = g x"
proof -
  have "n \<le> LENGTH('a) \<Longrightarrow> f (take_bit n x) = g (take_bit n x)" for n
  proof (induction n)
    case 0
    then show ?case
      by (simp add: xor_linear_0 [OF f] xor_linear_0 [OF g])
  next
    case (Suc n)
    then show ?case
      using basis [of n]
      by (simp add: take_bit_Suc_xor xor_linearD [OF f] xor_linearD [OF g] xor_linear_0 [OF f] xor_linear_0 [OF g])
  qed
  from this [of "LENGTH('a)"] show ?thesis
    by simp
qed

subsection \<open>Multiplication by powers of x\<close>

definition gf_x :: "nat \<Rightarrow> m128i" where
  "gf_x i = push_bit (127 - i) 1"

lemma gf_linear_eq:
  assumes "xor_linear f" "xor_linear g" "\<And>i. i < 128 \<Longrightarrow> f (gf_x i) = g (gf_x i)"
  shows "f (x :: m128i) = (g x :: m128i)"
proof (rule xor_linear_eq [OF assms(1,2)])
  fix i assume "i < LENGTH(128)"
  then have "push_bit i 1 = gf_x (127 - i)"
    by (simp add: gf_x_def)
  then show "f (push_bit i 1) = g (push_bit i 1)"
    using assms(3) [of "127 - i"] by (simp only: less_imp_diff_less)
qed

lemma bit_gf_x: "i < 128 \<Longrightarrow> bit (gf_x i) n \<longleftrightarrow> n = 127 - i"
  by (auto simp: gf_x_def bit_simps simp del: push_bit_of_1)

lemma gf_step_linear: "xor_linear gf_step"
  by (auto simp: xor_linear_def gf_step_def bit_simps drop_bit_xor ac_simps)

lemma gf_step_pow_linear: "xor_linear (gf_step ^^ n)"
  by (induction n) (auto simp: xor_linear_def gf_step_linear [THEN xor_linearD])

primrec gf_sum :: "nat \<Rightarrow> m128i \<Rightarrow> m128i \<Rightarrow> m128i" where
  "gf_sum 0 x y = 0"
| "gf_sum (Suc n) x y = gf_sum n x y XOR (if bit x (127 - n) then (gf_step ^^ n) y else 0)"

lemma gf_mult_sum: "gf_mult x y = gf_sum 128 x y"
proof -
  have "fold (\<lambda>i (z, v). (if bit x (127 - i) then z XOR v else z, gf_step v)) [0..<n] (0, y)
    = (gf_sum n x y, (gf_step ^^ n) y)" for n
    by (induction n) auto
  then show ?thesis
    by (simp add: gf_mult_def)
qed

lemma gf_sum_linear1: "xor_linear (\<lambda>x. gf_sum n x y)"
  by (induction n) (auto simp: xor_linear_def bit_simps ac_simps)

lemma gf_sum_linear2: "xor_linear (gf_sum n x)"
  by (induction n) (auto simp: xor_linear_def ac_simps gf_step_pow_linear [THEN xor_linearD])

lemma gf_mult_linear: "xor_linear (\<lambda>x. gf_mult x y)" "xor_linear (gf_mult x)"
  using gf_sum_linear1 [of 128 y] gf_sum_linear2 [of 128 x] by (simp_all add: gf_mult_sum [abs_def])

lemma gf_mult_x:
  assumes "i < 128"
  shows "gf_mult (gf_x i) y = (gf_step ^^ i) y"
proof -
  have "n \<le> 128 \<Longrightarrow> gf_sum n (gf_x i) y = (if i < n then (gf_step ^^ i) y else 0)" for n
    using assms by (induction n) (auto simp: bit_gf_x less_Suc_eq)
  then show ?thesis
    using assms by (simp add: gf_mult_sum)
qed

lemma gf_step_x: "i < 127 \<Longrightarrow> gf_step (gf_x i) = gf_x (Suc i)"
  by (rule bit_word_eqI) (auto simp: gf_step_def bit_gf_x bit_simps)

lemma gf_step_x_127: "gf_step (gf_x 127) = ((gf_x 0 XOR gf_x 1) XOR gf_x 2) XOR gf_x 7"
  by (simp add: gf_step_def gf_x_def)

lemma gf_step_pow_x: "i < 128 \<Longrightarrow> (gf_step ^^ i) (gf_x 0) = gf_x i"
  by (induction i) (simp_all add: gf_step_x)

lemma gf_step_pow_commute: "(gf_step ^^ m) ((gf_step ^^ n) v) = (gf_step ^^ n) ((gf_step ^^ m) v)"
  by (metis add.commute comp_apply funpow_add)

lemma gf_step_pow_128: "(gf_step ^^ 128) v = gf_step ((gf_step ^^ 127) v)"
proof -
  have "(128::nat) = Suc 127" by simp
  then show ?thesis
    by (simp only: funpow.simps comp_apply)
qed

text \<open>The relation \<open>x ^ 128 = 1 + x + x ^ 2 + x ^ 7\<close>.\<close>

definition gf_low :: "m128i \<Rightarrow> m128i" where
  "gf_low v = (((gf_step ^^ 0) v XOR (gf_step ^^ 1) v) XOR (gf_step ^^ 2) v) XOR (gf_step ^^ 7) v"

lemma gf_low_linear: "xor_linear gf_low"
  unfolding gf_low_def by (intro xor_linear_xor gf_step_pow_linear)

lemma gf_low_commute: "gf_low ((gf_step ^^ n) v) = (gf_step ^^ n) (gf_low v)"
  unfolding gf_low_def xor_linearD [OF gf_step_pow_linear] by (simp only: gf_step_pow_commute [of n])

lemma gf_step_128: "(gf_step ^^ 128) v = gf_low v"
proof (rule gf_linear_eq [OF gf_step_pow_linear gf_low_linear])
  have base: "(gf_step ^^ 128) (gf_x 0) = gf_low (gf_x 0)"
    unfolding gf_low_def gf_step_pow_128 by (simp only: gf_step_pow_x gf_step_x_127)
  fix i :: nat assume "i < 128"
  then have "gf_x i = (gf_step ^^ i) (gf_x 0)"
    by (rule gf_step_pow_x [symmetric])
  then show "(gf_step ^^ 128) (gf_x i) = gf_low (gf_x i)"
    by (simp only: gf_low_commute base gf_step_pow_commute [of 128])
qed

lemma gf_mult_step1: "gf_mult (gf_step x) y = gf_step (gf_mult x y)"
proof (rule gf_linear_eq [of "\<lambda>x. gf_mult (gf_step x) y" "\<lambda>x. gf_step (gf_mult x y)"])
  show "xor_linear (\<lambda>x. gf_mult (gf_step x) y)" "xor_linear (\<lambda>x. gf_step (gf_mult x y))"
    by (simp_all only: xor_linear_comp [OF gf_mult_linear(1) gf_step_linear]
        xor_linear_comp [OF gf_step_linear gf_mult_linear(1)])
next
  fix i :: nat assume i: "i < 128"
  show "gf_mult (gf_step (gf_x i)) y = gf_step (gf_mult (gf_x i) y)"
  proof (cases "i = 127")
    case False
    then show ?thesis
      using i by (simp add: gf_step_x gf_mult_x)
  next
    case True
    have "gf_step ((gf_step ^^ 127) y) = gf_low y"
      by (simp only: gf_step_128 [symmetric] gf_step_pow_128)
    then show ?thesis
      unfolding True gf_step_x_127 xor_linearD [OF gf_mult_linear(1)] gf_low_def by (simp only: gf_mult_x)
  qed
qed

lemma gf_mult_step_pow1: "gf_mult ((gf_step ^^ n) x) y = (gf_step ^^ n) (gf_mult x y)"
  by (induction n) (simp_all add: gf_mult_step1)

lemma gf_mult_assoc: "gf_mult (gf_mult a b) c = gf_mult a (gf_mult b c)"
proof (rule gf_linear_eq [of "\<lambda>a. gf_mult (gf_mult a b) c" "\<lambda>a. gf_mult a (gf_mult b c)"])
  show "xor_linear (\<lambda>a. gf_mult (gf_mult a b) c)" "xor_linear (\<lambda>a. gf_mult a (gf_mult b c))"
    by (simp_all only: xor_linear_comp [OF gf_mult_linear(1) gf_mult_linear(1)] gf_mult_linear(1))
qed (simp add: gf_mult_x gf_mult_step_pow1)

section \<open>The products\<close>

lemma clmul_bits_linear1: "xor_linear (\<lambda>a. clmul_bits n a b)"
  by (induction n) (auto simp: xor_linear_def bit_simps ac_simps)

lemma clmul_bits_linear2: "xor_linear (clmul_bits n a)"
  by (induction n) (auto simp: xor_linear_def push_bit_xor ac_simps)

lemma clmul_bits_basis: "i < n \<Longrightarrow> n \<le> 64 \<Longrightarrow> clmul_bits n (push_bit i 1) b = push_bit i b"
proof (induction n)
  case (Suc n)
  have "clmul_bits i (push_bit i 1) b = 0" if "i \<le> 64" for i
  proof -
    have "m \<le> i \<Longrightarrow> clmul_bits m (push_bit i 1) b = 0" for m
      by (induction m) (auto simp: bit_simps simp del: push_bit_of_1)
    then show ?thesis by simp
  qed
  then show ?case
    using Suc by (auto simp: bit_simps less_Suc_eq simp del: push_bit_of_1)
qed simp

lemma half64_linear: "xor_linear (\<lambda>x. half64 x high)"
  by (simp add: half64_def xor_linear_def unsigned_xor_eq drop_bit_xor)

lemma clmulepi64_linear1: "xor_linear (\<lambda>a. mm_clmulepi64_si128 a b imm)"
  unfolding mm_clmulepi64_si128_def by (rule xor_linear_comp [OF clmul_bits_linear1 half64_linear])

lemma clmulepi64_linear2: "xor_linear (\<lambda>b. mm_clmulepi64_si128 a b imm)"
  unfolding mm_clmulepi64_si128_def
  by (rule xor_linear_comp [OF clmul_bits_linear2 xor_linear_comp [OF xor_linear_ucast half64_linear]])

lemmas clmulepi64_xor = xor_linearD [OF clmulepi64_linear1] xor_linearD [OF clmulepi64_linear2]

lemma half64_basis:
  "half64 (push_bit i 1) False = (if i < 64 then push_bit i 1 else 0)"
  "i < 128 \<Longrightarrow> half64 (push_bit i 1) True = (if i < 64 then 0 else push_bit (i - 64) 1)"
  by (auto simp: half64_def bit_simps intro!: bit_word_eqI simp del: push_bit_of_1)

lemma clmulepi64_basis:
  assumes "i < 128" "j < 128"
  shows "mm_clmulepi64_si128 (push_bit i 1) (push_bit j 1) 0x00 = (if i < 64 \<and> j < 64 then push_bit (i + j) 1 else 0)"
    "mm_clmulepi64_si128 (push_bit i 1) (push_bit j 1) 0x11
      = (if 64 \<le> i \<and> 64 \<le> j then push_bit (i + j - 128) 1 else 0)"
    "mm_clmulepi64_si128 (push_bit i 1) (push_bit j 1) 0x10
      = (if i < 64 \<and> 64 \<le> j then push_bit (i + j - 64) 1 else 0)"
    "mm_clmulepi64_si128 (push_bit i 1) (push_bit j 1) 0x01
      = (if 64 \<le> i \<and> j < 64 then push_bit (i + j - 64) 1 else 0)"
proof -
  have u: "k < 64 \<Longrightarrow> (ucast (push_bit k 1 :: u64) :: m128i) = push_bit k 1" for k
    by (auto simp: bit_simps intro!: bit_word_eqI simp del: push_bit_of_1)
  note z = xor_linear_0 [OF clmul_bits_linear1] xor_linear_0 [OF clmul_bits_linear2]
  show "mm_clmulepi64_si128 (push_bit i 1) (push_bit j 1) 0x00 = (if i < 64 \<and> j < 64 then push_bit (i + j) 1 else 0)"
    "mm_clmulepi64_si128 (push_bit i 1) (push_bit j 1) 0x11
      = (if 64 \<le> i \<and> 64 \<le> j then push_bit (i + j - 128) 1 else 0)"
    "mm_clmulepi64_si128 (push_bit i 1) (push_bit j 1) 0x10
      = (if i < 64 \<and> 64 \<le> j then push_bit (i + j - 64) 1 else 0)"
    "mm_clmulepi64_si128 (push_bit i 1) (push_bit j 1) 0x01
      = (if 64 \<le> i \<and> j < 64 then push_bit (i + j - 64) 1 else 0)"
    using assms
    by (auto simp: mm_clmulepi64_si128_def half64_basis z u clmul_bits_basis push_bit_push_bit simp del: push_bit_of_1)
qed

text \<open>The low and the high half of the product, as functions of one factor.\<close>

definition wide_lo :: "m128i \<Rightarrow> m128i \<Rightarrow> m128i" where
  "wide_lo a b = fst (viltrum_clmul_wide a b (0, 0))"

definition wide_hi :: "m128i \<Rightarrow> m128i \<Rightarrow> m128i" where
  "wide_hi a b = snd (viltrum_clmul_wide a b (0, 0))"

lemma clmul_wide_acc: "viltrum_clmul_wide a b (lo, hi) = (lo XOR wide_lo a b, hi XOR wide_hi a b)"
  by (simp add: viltrum_clmul_wide_def wide_lo_def wide_hi_def Let_def)

lemma si128_xor:
  "mm_slli_si128 (x XOR y) n = mm_slli_si128 x n XOR mm_slli_si128 y n"
  "mm_srli_si128 (x XOR y) n = mm_srli_si128 x n XOR mm_srli_si128 y n"
  by (simp_all add: mm_slli_si128_def mm_srli_si128_def push_bit_xor drop_bit_xor)

lemma wide_linear:
  "xor_linear (\<lambda>a. wide_lo a b)" "xor_linear (wide_lo a)"
  "xor_linear (\<lambda>a. wide_hi a b)" "xor_linear (wide_hi a)"
  by (simp_all add: xor_linear_def wide_lo_def wide_hi_def viltrum_clmul_wide_def Let_def clmulepi64_xor si128_xor ac_simps)

lemma wide_basis:
  assumes "i < 128" "j < 128"
  shows "wide_lo (push_bit i 1) (push_bit j 1) = push_bit (i + j) 1"
    "wide_hi (push_bit i 1) (push_bit j 1) = (if i + j < 128 then 0 else push_bit (i + j - 128) 1)"
proof -
  have 0: "mm_slli_si128 0 n = 0" "mm_srli_si128 0 n = 0" for n
    by (simp_all add: mm_slli_si128_def mm_srli_si128_def)
  have sh: "mm_slli_si128 (push_bit k 1) 8 = push_bit (k + 64) 1"
    "mm_srli_si128 (push_bit k 1) 8 = (if k < 64 then 0 else if k < 128 then push_bit (k - 64) 1 else 0)" for k
    by (auto simp: mm_slli_si128_def mm_srli_si128_def push_bit_push_bit ac_simps bit_simps
        intro!: bit_word_eqI simp del: push_bit_of_1)
  have out: "128 \<le> k \<Longrightarrow> push_bit k 1 = (0 :: m128i)" for k
    by (auto simp: bit_simps intro!: bit_word_eqI simp del: push_bit_of_1)
  show "wide_lo (push_bit i 1) (push_bit j 1) = push_bit (i + j) 1"
    "wide_hi (push_bit i 1) (push_bit j 1) = (if i + j < 128 then 0 else push_bit (i + j - 128) 1)"
    using assms
    by (auto simp: wide_lo_def wide_hi_def viltrum_clmul_wide_def Let_def clmulepi64_basis sh 0 out simp del: push_bit_of_1 One_nat_def)
qed

section \<open>The reduction\<close>

text \<open>
  The reduction without lanes: the product shifted up by one, then its low half folded into the high half by
  \<open>x ^ 128 = 1 + x + x ^ 2 + x ^ 7\<close>, where the shifts that leave the register fold once more.
\<close>

definition gf_fold :: "m128i \<Rightarrow> m128i" where
  "gf_fold lo = ((lo XOR push_bit 127 lo) XOR push_bit 126 lo) XOR push_bit 121 lo"

definition gf_reduce_wide :: "m128i \<Rightarrow> m128i \<Rightarrow> m128i" where
  "gf_reduce_wide lo hi =
     (let l = gf_fold (push_bit 1 lo)
      in (push_bit 1 hi OR drop_bit 127 lo) XOR (((l XOR drop_bit 1 l) XOR drop_bit 2 l) XOR drop_bit 7 l))"

lemmas byte_shift_lanes =
  lane32_slli_si128 [where m = 1, simplified] lane32_slli_si128 [where m = 3, simplified]
  lane32_srli_si128 [where m = 1, simplified] lane32_srli_si128 [where m = 3, simplified]

lemmas epi32_lanes = mm_slli_epi32_def mm_srli_epi32_def lane32_map lane32_bitwise

lemma shift_left_1: "mm_slli_epi32 x 1 OR mm_slli_si128 (mm_srli_epi32 x 31) 4 = push_bit 1 x"
proof (intro m128_lanes_eqI)
  have "push_bit k a XOR drop_bit (32 - k) b = push_bit k a OR drop_bit (32 - k) b" for k and a b :: u32
    by (rule bit_word_eqI) (auto simp: bit_simps bit_u32_ge)
  from this [of 1]
  have lane: "push_bit 1 a XOR drop_bit 31 b = push_bit 1 a OR drop_bit 31 b" for a b :: u32
    by simp
  note simps = epi32_lanes byte_shift_lanes lane32_push_bit lane
  show "lane32 (mm_slli_epi32 x 1 OR mm_slli_si128 (mm_srli_epi32 x 31) 4) 0 = lane32 (push_bit 1 x) 0"
    "lane32 (mm_slli_epi32 x 1 OR mm_slli_si128 (mm_srli_epi32 x 31) 4) 1 = lane32 (push_bit 1 x) 1"
    "lane32 (mm_slli_epi32 x 1 OR mm_slli_si128 (mm_srli_epi32 x 31) 4) 2 = lane32 (push_bit 1 x) 2"
    "lane32 (mm_slli_epi32 x 1 OR mm_slli_si128 (mm_srli_epi32 x 31) 4) 3 = lane32 (push_bit 1 x) 3"
    by (simp_all add: simps del: push_bit_Suc One_nat_def)
qed

lemma shift_left_carry: "mm_srli_si128 (mm_srli_epi32 lo 31) 12 = drop_bit 127 lo"
  using lane32_drop_bit_96 [of 31 lo]
  by (intro m128_lanes_eqI) (simp_all add: epi32_lanes byte_shift_lanes lane32_ge)

lemma fold_lanes:
  "lo XOR mm_slli_si128 ((mm_slli_epi32 lo 31 XOR mm_slli_epi32 lo 30) XOR mm_slli_epi32 lo 25) 12 = gf_fold lo"
  using lane32_push_bit_96 [of 31 _ lo] lane32_push_bit_96 [of 30 _ lo] lane32_push_bit_96 [of 25 _ lo]
  by (intro m128_lanes_eqI) (simp_all add: gf_fold_def epi32_lanes byte_shift_lanes ac_simps)

lemma lane32_gf_fold:
  "lane32 (gf_fold lo) 0 = lane32 lo 0" "lane32 (gf_fold lo) 1 = lane32 lo 1" "lane32 (gf_fold lo) 2 = lane32 lo 2"
  "lane32 (gf_fold lo) 3
    = ((lane32 lo 3 XOR push_bit 31 (lane32 lo 0)) XOR push_bit 30 (lane32 lo 0)) XOR push_bit 25 (lane32 lo 0)"
  using lane32_push_bit_96 [of 31 _ lo] lane32_push_bit_96 [of 30 _ lo] lane32_push_bit_96 [of 25 _ lo]
  by (simp_all add: gf_fold_def lane32_bitwise)

lemma shift_lanes:
  "((mm_srli_epi32 (gf_fold lo) 1 XOR mm_srli_epi32 (gf_fold lo) 2) XOR mm_srli_epi32 (gf_fold lo) 7)
     XOR mm_srli_si128 ((mm_slli_epi32 lo 31 XOR mm_slli_epi32 lo 30) XOR mm_slli_epi32 lo 25) 4
    = (drop_bit 1 (gf_fold lo) XOR drop_bit 2 (gf_fold lo)) XOR drop_bit 7 (gf_fold lo)"
proof (intro m128_lanes_eqI)
  have out: "32 \<le> k \<Longrightarrow> push_bit k (a :: u32) = 0" for k a
    by (rule bit_word_eqI) (auto simp: bit_simps)
  note simps = epi32_lanes byte_shift_lanes lane32_drop_bit lane32_gf_fold lane32_gf_fold(2) [unfolded One_nat_def] lane32_ge push_bit_xor push_bit_push_bit out
    xor.assoc xor.commute xor.left_commute
  let ?l = "((mm_srli_epi32 (gf_fold lo) 1 XOR mm_srli_epi32 (gf_fold lo) 2) XOR mm_srli_epi32 (gf_fold lo) 7)
     XOR mm_srli_si128 ((mm_slli_epi32 lo 31 XOR mm_slli_epi32 lo 30) XOR mm_slli_epi32 lo 25) 4"
  let ?r = "(drop_bit 1 (gf_fold lo) XOR drop_bit 2 (gf_fold lo)) XOR drop_bit 7 (gf_fold lo)"
  show "lane32 ?l 0 = lane32 ?r 0"
    by (simp add: simps)
  show "lane32 ?l 1 = lane32 ?r 1"
    by (simp add: simps numeral_2_eq_2 [symmetric])
  show "lane32 ?l 2 = lane32 ?r 2"
    by (simp add: simps numeral_3_eq_3 [symmetric])
  show "lane32 ?l 3 = lane32 ?r 3"
    by (simp add: simps)
qed

lemma gf_reduce_eq: "viltrum_gf_reduce (lo, hi) = gf_reduce_wide lo hi"
  unfolding viltrum_gf_reduce_def gf_reduce_wide_def prod.case Let_def shift_left_1 shift_left_carry fold_lanes shift_lanes
  by (simp only: xor.assoc)

lemma or_carry: "push_bit 1 hi OR drop_bit 127 lo = push_bit 1 hi XOR drop_bit 127 (lo :: m128i)"
proof -
  have "push_bit k hi OR drop_bit (128 - k) lo = push_bit k hi XOR drop_bit (128 - k) lo" for k
    by (rule bit_word_eqI) (auto simp: bit_simps bit_m128_ge)
  from this [of 1] show ?thesis
    by simp
qed

lemma gf_fold_xor: "gf_fold (a XOR b) = gf_fold a XOR gf_fold b"
  by (simp add: gf_fold_def push_bit_xor ac_simps)

lemma gf_reduce_xor:
  "gf_reduce_wide (a XOR a') (b XOR b') = gf_reduce_wide a b XOR gf_reduce_wide a' b'"
  unfolding gf_reduce_wide_def Let_def or_carry
  unfolding push_bit_xor drop_bit_xor gf_fold_xor by (simp only: ac_simps)

lemma push_1_out: "128 \<le> k \<Longrightarrow> push_bit k 1 = (0 :: m128i)"
  by (rule bit_word_eqI) (auto simp: bit_simps simp del: push_bit_of_1)

lemma drop_push_1: "j \<le> k \<Longrightarrow> k < 128 \<Longrightarrow> drop_bit j (push_bit k 1) = (push_bit (k - j) 1 :: m128i)"
  by (rule bit_word_eqI) (auto simp: bit_simps simp del: push_bit_of_1)

text \<open>The product of two powers of \<open>x\<close>, wherever it falls in the double-length register.\<close>

lemma gf_low_x: "m \<le> 120 \<Longrightarrow> gf_low (gf_x m) = ((gf_x m XOR gf_x (m + 1)) XOR gf_x (m + 2)) XOR gf_x (m + 7)"
  by (simp add: gf_low_def gf_step_x numeral_eq_Suc)

lemma gf_reduce_low_basis:
  assumes "6 \<le> k" "k < 127"
  shows "gf_reduce_wide (push_bit k 1) 0 = gf_low (gf_x (126 - k))"
proof -
  have l: "gf_fold (push_bit 1 (push_bit k 1)) = push_bit (k + 1) 1"
    using assms by (simp only: gf_fold_def push_bit_push_bit) (simp add: push_1_out del: push_bit_of_1)
  have d: "drop_bit 127 (push_bit k 1 :: m128i) = 0"
    using assms by (intro bit_word_eqI) (auto simp: bit_simps simp del: push_bit_of_1)
  have x: "gf_x (126 - k) = push_bit (k + 1) 1" "gf_x (126 - k + 1) = push_bit k 1"
    "gf_x (126 - k + 2) = push_bit (k - 1) 1" "gf_x (126 - k + 7) = push_bit (k - 6) 1"
    using assms by (simp_all add: gf_x_def Suc_diff_le del: push_bit_of_1)
  have "gf_low (gf_x (126 - k)) = ((push_bit (k + 1) 1 XOR push_bit k 1) XOR push_bit (k - 1) 1) XOR push_bit (k - 6) 1"
    using assms gf_low_x [of "126 - k"] by (simp only: x)
  then show ?thesis
    unfolding gf_reduce_wide_def Let_def l d using assms
    by (simp add: drop_push_1 del: push_bit_of_1 push_bit_Suc)
qed

lemma gf_step_pow_x_add:
  assumes "i < 128"
  shows "i + j < 128 \<Longrightarrow> (gf_step ^^ j) (gf_x i) = gf_x (i + j)"
    "128 \<le> i + j \<Longrightarrow> i + j < 256 \<Longrightarrow> (gf_step ^^ j) (gf_x i) = gf_low (gf_x (i + j - 128))"
proof -
  have i: "(gf_step ^^ j) (gf_x i) = (gf_step ^^ (i + j)) (gf_x 0)"
    unfolding add.commute [of i] funpow_add comp_apply gf_step_pow_x [OF assms] ..
  show "i + j < 128 \<Longrightarrow> (gf_step ^^ j) (gf_x i) = gf_x (i + j)"
    unfolding i by (rule gf_step_pow_x)
  assume "128 \<le> i + j" "i + j < 256"
  define m where "m = i + j - 128"
  have m: "i + j = 128 + m" "m < 128"
    using \<open>128 \<le> i + j\<close> \<open>i + j < 256\<close> by (auto simp: m_def)
  have "(gf_step ^^ (i + j)) (gf_x 0) = (gf_step ^^ 128) ((gf_step ^^ m) (gf_x 0))"
    unfolding m(1) funpow_add by (rule comp_apply)
  then show "(gf_step ^^ j) (gf_x i) = gf_low (gf_x (i + j - 128))"
    unfolding i gf_step_128 gf_step_pow_x [OF m(2)] by (simp only: m_def)
qed

lemma gf_low_x_high:
  assumes "121 \<le> m" "m < 126"
  shows "gf_low (gf_x m) = ((gf_x m XOR gf_x (m + 1)) XOR gf_x (m + 2)) XOR gf_low (gf_x (m - 121))"
  using assms by (simp add: gf_low_def [of "gf_x m"] gf_step_pow_x_add gf_step_x)

lemma gf_low_x_126: "gf_low (gf_x 126) = ((gf_x 126 XOR gf_x 127) XOR gf_low (gf_x 0)) XOR gf_low (gf_x 5)"
  by (simp add: gf_low_def [of "gf_x 126"] gf_step_pow_x_add gf_step_x)

lemma gf_reduce_low_basis_small:
  assumes "k < 6"
  shows "gf_reduce_wide (push_bit k 1) 0 = gf_low (gf_x (126 - k))"
proof (cases "k = 0")
  case True
  have "gf_low (gf_x 126) = ((gf_x 126 XOR gf_x 127) XOR (((gf_x 0 XOR gf_x 1) XOR gf_x 2) XOR gf_x 7))
      XOR (((gf_x 5 XOR gf_x 6) XOR gf_x 7) XOR gf_x 12)"
    using gf_low_x_126 gf_low_x [of 0] gf_low_x [of 5] by (simp add: numeral_2_eq_2)
  also have "\<dots> = gf_reduce_wide (push_bit 0 1) 0"
    by (simp add: gf_reduce_wide_def gf_fold_def gf_x_def)
  finally show ?thesis
    using True by simp
next
  case False
  then have k: "k = 1 \<or> k = 2 \<or> k = 3 \<or> k = 4 \<or> k = 5"
    using assms by auto
  have "gf_low (gf_x (126 - k)) = ((gf_x (126 - k) XOR gf_x (127 - k)) XOR gf_x (128 - k))
      XOR (((gf_x (5 - k) XOR gf_x (6 - k)) XOR gf_x (7 - k)) XOR gf_x (12 - k))"
  proof -
    have i: "126 - k + 1 = 127 - k" "126 - k + 2 = 128 - k" "126 - k - 121 = 5 - k" "5 - k + 1 = 6 - k" "5 - k + 2 = 7 - k"
      "5 - k + 7 = 12 - k"
      using k by auto
    show ?thesis
      using k gf_low_x_high [of "126 - k"] gf_low_x [of "5 - k"] by (simp only: i) linarith
  qed
  also have "\<dots> = gf_reduce_wide (push_bit k 1) 0"
    using k by (auto simp: gf_reduce_wide_def gf_fold_def gf_x_def)
  finally show ?thesis ..
qed

lemma gf_reduce_basis:
  assumes "k < 255"
  shows "gf_reduce_wide (push_bit k 1) (if k < 128 then 0 else push_bit (k - 128) 1) = (gf_step ^^ (254 - k)) (gf_x 0)"
proof -
  consider "k < 127" | "k = 127" | "128 \<le> k" by linarith
  then show ?thesis
  proof cases
    case 1
    then have "(gf_step ^^ (254 - k)) (gf_x 0) = gf_low (gf_x (126 - k))"
      by (subst gf_step_pow_x_add(2)) auto
    then show ?thesis
      using 1 gf_reduce_low_basis [of k] gf_reduce_low_basis_small [of k] by (cases "k < 6") auto
  next
    case 2
    then show ?thesis
      by (simp only: gf_step_pow_x) (simp add: gf_reduce_wide_def gf_fold_def gf_x_def)
  next
    case 3
    have "push_bit 1 (push_bit (k - 128) 1) = gf_x (254 - k)"
      unfolding push_bit_push_bit gf_x_def using 3 assms by (intro arg_cong2 [where f = push_bit]) simp_all
    then show ?thesis
      using 3 assms by (simp add: gf_step_pow_x gf_reduce_wide_def gf_fold_def push_1_out del: push_bit_of_1)
  qed
qed

text \<open>
  C30. The field multiplication is that of SP 800-38D: the four carry-less products and the reduction, with
  its shifts by lanes, give Algorithm 1's product of any two blocks.
\<close>

theorem gf_mul_is_gf_mult: "viltrum_gf_mul a b = gf_mult a b"
proof -
  have mul: "viltrum_gf_mul a b = gf_reduce_wide (wide_lo a b) (wide_hi a b)" for a b
    by (simp add: viltrum_gf_mul_def clmul_wide_acc gf_reduce_eq)
  have lin1: "xor_linear (\<lambda>a. viltrum_gf_mul a b)" and lin2: "xor_linear (viltrum_gf_mul a)" for a b
    unfolding xor_linear_def mul xor_linearD [OF wide_linear(1)] xor_linearD [OF wide_linear(2)]
      xor_linearD [OF wide_linear(3)] xor_linearD [OF wide_linear(4)] gf_reduce_xor by simp_all
  have "viltrum_gf_mul (gf_x i) (gf_x j) = gf_mult (gf_x i) (gf_x j)" if ij: "i < 128" "j < 128" for i j
  proof -
    let ?k = "(127 - i) + (127 - j)"
    have "viltrum_gf_mul (gf_x i) (gf_x j) = (gf_step ^^ (254 - ?k)) (gf_x 0)"
      unfolding mul gf_x_def using gf_reduce_basis [of ?k] ij by (simp add: wide_basis gf_x_def del: push_bit_of_1)
    also have "254 - ?k = i + j" using ij by simp
    also have "(gf_step ^^ (i + j)) (gf_x 0) = gf_mult (gf_x i) (gf_x j)"
      using ij by (simp add: gf_mult_x funpow_add gf_step_pow_x)
    finally show ?thesis .
  qed
  then have "viltrum_gf_mul (gf_x i) b = gf_mult (gf_x i) b" if "i < 128" for i b
    by (rule gf_linear_eq [OF lin2 gf_mult_linear(2)]) (use that in simp_all)
  then show ?thesis
    by (rule gf_linear_eq [OF lin1 gf_mult_linear(1)])
qed

section \<open>Sums of products\<close>

definition kar_halves :: "m128i \<Rightarrow> m128i" where
  "kar_halves b = b XOR mm_shuffle_epi32 b 0x4e"

lemma half64_kar: "half64 (kar_halves x) False = half64 x False XOR half64 x True"
proof (rule bit_word_eqI)
  fix n assume n: "n < LENGTH(64)"
  have "mm_shuffle_epi32 x 0x4e = from_lanes32 (lane32 x 2) (lane32 x 3) (lane32 x 0) (lane32 x 1)"
    by (simp add: mm_shuffle_epi32_def)
  then have "bit (mm_shuffle_epi32 x 0x4e) n = bit x (64 + n)"
    using n by (cases "n < 32") (auto simp: bit_from_lanes32 bit_lane32 mod_if)
  then show "bit (half64 (kar_halves x) False) n = bit (half64 x False XOR half64 x True) n"
    using n by (simp add: half64_def kar_halves_def bit_simps)
qed

lemma clmul_kar_product:
  "mm_clmulepi64_si128 (kar_halves a) (kar_halves b) 0x00 =
     (mm_clmulepi64_si128 a b 0x00 XOR mm_clmulepi64_si128 a b 0x11)
     XOR (mm_clmulepi64_si128 a b 0x10 XOR mm_clmulepi64_si128 a b 0x01)"
  by (simp add: mm_clmulepi64_si128_def half64_kar xor_linearD [OF clmul_bits_linear1] xor_linearD [OF clmul_bits_linear2]
      xor_linearD [OF xor_linear_ucast] ac_simps)

lemma kar_fold_clmul_kar:
  "viltrum_kar_fold (viltrum_clmul_kar a b (kar_halves b) acc) = viltrum_clmul_wide a b (viltrum_kar_fold acc)"
proof -
  obtain lo mid hi where acc: "acc = (lo, mid, hi)" by (cases acc)
  define m where "m = mm_clmulepi64_si128 a b 0x10 XOR mm_clmulepi64_si128 a b 0x01"
  have kar: "mm_clmulepi64_si128 (a XOR mm_shuffle_epi32 a 0x4e) (kar_halves b) 0x00
    = (mm_clmulepi64_si128 a b 0x00 XOR mm_clmulepi64_si128 a b 0x11) XOR m"
    using clmul_kar_product [of a b] by (simp only: kar_halves_def [of a] m_def)
  have cancel: "(mid XOR ((l XOR h) XOR m)) XOR ((lo XOR l) XOR (hi XOR h)) = (mid XOR (lo XOR hi)) XOR m" for l h
    by (rule bit_word_eqI) (auto simp: bit_simps)
  show ?thesis
    unfolding acc viltrum_kar_fold_def viltrum_clmul_kar_def viltrum_clmul_wide_def Let_def prod.case kar cancel
      m_def [symmetric]
    by (simp add: si128_xor ac_simps)
qed

text \<open>
  One more block in a batch: the reduced sum grows by its product, with three multiplications or with four.
\<close>

lemma gf_reduce_clmul_wide: "viltrum_gf_reduce (viltrum_clmul_wide a b acc) = viltrum_gf_reduce acc XOR viltrum_gf_mul a b"
  by (cases acc) (simp add: clmul_wide_acc gf_reduce_eq gf_reduce_xor viltrum_gf_mul_def)

lemma gf_reduce_clmul_kar:
  "viltrum_gf_reduce (viltrum_kar_fold (viltrum_clmul_kar a b (kar_halves b) acc))
     = viltrum_gf_reduce (viltrum_kar_fold acc) XOR viltrum_gf_mul a b"
  by (simp add: kar_fold_clmul_kar gf_reduce_clmul_wide)

lemma gf_reduce_kar_zero: "viltrum_gf_reduce (viltrum_kar_fold (0, 0, 0)) = 0"
  by (simp add: viltrum_kar_fold_def gf_reduce_eq gf_reduce_wide_def gf_fold_def mm_slli_si128_def mm_srli_si128_def)

end
