(* ===== verification/Aes.thy ===== *)
theory Aes
  imports Simd
begin

unbundle bit_operations_syntax

text \<open>
  The AES of \<^verbatim>\<open>src/engine/aesgcm.h\<close>: the key expansion and the block cipher on the AES instructions, against
  FIPS 197. The instructions are written as the Intel manual defines them, over the sixteen bytes of a
  register in memory order, which are the state of FIPS 197 column by column.
\<close>

section \<open>The steps of FIPS 197\<close>

definition aes_sbox :: "u8 list" where
  "aes_sbox = [
   0x63, 0x7c, 0x77, 0x7b, 0xf2, 0x6b, 0x6f, 0xc5, 0x30, 0x01, 0x67, 0x2b, 0xfe, 0xd7, 0xab, 0x76,
   0xca, 0x82, 0xc9, 0x7d, 0xfa, 0x59, 0x47, 0xf0, 0xad, 0xd4, 0xa2, 0xaf, 0x9c, 0xa4, 0x72, 0xc0,
   0xb7, 0xfd, 0x93, 0x26, 0x36, 0x3f, 0xf7, 0xcc, 0x34, 0xa5, 0xe5, 0xf1, 0x71, 0xd8, 0x31, 0x15,
   0x04, 0xc7, 0x23, 0xc3, 0x18, 0x96, 0x05, 0x9a, 0x07, 0x12, 0x80, 0xe2, 0xeb, 0x27, 0xb2, 0x75,
   0x09, 0x83, 0x2c, 0x1a, 0x1b, 0x6e, 0x5a, 0xa0, 0x52, 0x3b, 0xd6, 0xb3, 0x29, 0xe3, 0x2f, 0x84,
   0x53, 0xd1, 0x00, 0xed, 0x20, 0xfc, 0xb1, 0x5b, 0x6a, 0xcb, 0xbe, 0x39, 0x4a, 0x4c, 0x58, 0xcf,
   0xd0, 0xef, 0xaa, 0xfb, 0x43, 0x4d, 0x33, 0x85, 0x45, 0xf9, 0x02, 0x7f, 0x50, 0x3c, 0x9f, 0xa8,
   0x51, 0xa3, 0x40, 0x8f, 0x92, 0x9d, 0x38, 0xf5, 0xbc, 0xb6, 0xda, 0x21, 0x10, 0xff, 0xf3, 0xd2,
   0xcd, 0x0c, 0x13, 0xec, 0x5f, 0x97, 0x44, 0x17, 0xc4, 0xa7, 0x7e, 0x3d, 0x64, 0x5d, 0x19, 0x73,
   0x60, 0x81, 0x4f, 0xdc, 0x22, 0x2a, 0x90, 0x88, 0x46, 0xee, 0xb8, 0x14, 0xde, 0x5e, 0x0b, 0xdb,
   0xe0, 0x32, 0x3a, 0x0a, 0x49, 0x06, 0x24, 0x5c, 0xc2, 0xd3, 0xac, 0x62, 0x91, 0x95, 0xe4, 0x79,
   0xe7, 0xc8, 0x37, 0x6d, 0x8d, 0xd5, 0x4e, 0xa9, 0x6c, 0x56, 0xf4, 0xea, 0x65, 0x7a, 0xae, 0x08,
   0xba, 0x78, 0x25, 0x2e, 0x1c, 0xa6, 0xb4, 0xc6, 0xe8, 0xdd, 0x74, 0x1f, 0x4b, 0xbd, 0x8b, 0x8a,
   0x70, 0x3e, 0xb5, 0x66, 0x48, 0x03, 0xf6, 0x0e, 0x61, 0x35, 0x57, 0xb9, 0x86, 0xc1, 0x1d, 0x9e,
   0xe1, 0xf8, 0x98, 0x11, 0x69, 0xd9, 0x8e, 0x94, 0x9b, 0x1e, 0x87, 0xe9, 0xce, 0x55, 0x28, 0xdf,
   0x8c, 0xa1, 0x89, 0x0d, 0xbf, 0xe6, 0x42, 0x68, 0x41, 0x99, 0x2d, 0x0f, 0xb0, 0x54, 0xbb, 0x16]"

definition sub_byte :: "u8 \<Rightarrow> u8" where
  "sub_byte b = aes_sbox ! unat b"

definition xtime :: "u8 \<Rightarrow> u8" where
  "xtime b = push_bit 1 b XOR (if bit b 7 then 0x1b else 0)"

definition sub_bytes :: "u8 list \<Rightarrow> u8 list" where
  "sub_bytes s = map sub_byte s"

definition shift_rows :: "u8 list \<Rightarrow> u8 list" where
  "shift_rows s = map (\<lambda>i. s ! ((i + 4 * (i mod 4)) mod 16)) [0..<16]"

definition mix_column :: "u8 \<Rightarrow> u8 \<Rightarrow> u8 \<Rightarrow> u8 \<Rightarrow> u8" where
  "mix_column a b c d = ((xtime a XOR (xtime b XOR b)) XOR c) XOR d"

definition mix_columns :: "u8 list \<Rightarrow> u8 list" where
  "mix_columns s =
     map (\<lambda>i. let c = 4 * (i div 4); r = i mod 4
        in mix_column (s ! (c + r)) (s ! (c + (r + 1) mod 4)) (s ! (c + (r + 2) mod 4)) (s ! (c + (r + 3) mod 4)))
       [0..<16]"

definition xor_bytes :: "u8 list \<Rightarrow> u8 list \<Rightarrow> u8 list" where
  "xor_bytes s k = map2 (XOR) s k"

text \<open>Words of four bytes, the first byte lowest.\<close>

definition word_bytes :: "u32 \<Rightarrow> u8 list" where
  "word_bytes w = map (\<lambda>i. ucast (drop_bit (8 * i) w)) [0..<4]"

definition word_of_bytes :: "u8 list \<Rightarrow> u32" where
  "word_of_bytes bs = word_of_int (le_val (take 4 bs))"

definition sub_word :: "u32 \<Rightarrow> u32" where
  "sub_word w = word_of_bytes (map sub_byte (word_bytes w))"

definition rot_word :: "u32 \<Rightarrow> u32" where
  "rot_word w = word_of_bytes (rotate1 (word_bytes w))"

section \<open>The instructions\<close>

definition mm_aesenc_si128 :: "m128i \<Rightarrow> m128i \<Rightarrow> m128i" where
  "mm_aesenc_si128 x k = mm_of_bytes (mix_columns (sub_bytes (shift_rows (mm_bytes x)))) XOR k"

definition mm_aesenclast_si128 :: "m128i \<Rightarrow> m128i \<Rightarrow> m128i" where
  "mm_aesenclast_si128 x k = mm_of_bytes (sub_bytes (shift_rows (mm_bytes x))) XOR k"

definition mm_aeskeygenassist_si128 :: "m128i \<Rightarrow> u8 \<Rightarrow> m128i" where
  "mm_aeskeygenassist_si128 x rcon =
     from_lanes32 (sub_word (lane32 x 1)) (rot_word (sub_word (lane32 x 1)) XOR ucast rcon)
       (sub_word (lane32 x 3)) (rot_word (sub_word (lane32 x 3)) XOR ucast rcon)"

section \<open>The code\<close>

record viltrum_gcm =
  g_rk :: "m128i list"
  g_hp :: "m128i list"
  g_hk :: "m128i list"
  g_nr :: nat

text \<open>A context with every byte zero, as \<^verbatim>\<open>viltrum_gcm_new\<close> and \<^verbatim>\<open>viltrum_gcm_wipe\<close> leave it.\<close>

definition gcm_zero :: viltrum_gcm where
  "gcm_zero = \<lparr>g_rk = replicate 15 0, g_hp = replicate 8 0, g_hk = replicate 8 0, g_nr = 0\<rparr>"

text \<open>The steps both key sizes share: \<^verbatim>\<open>k\<close> is exclusive-ored with itself one, two and three words up.\<close>

definition viltrum_aes128_step :: "m128i \<Rightarrow> m128i \<Rightarrow> m128i" where
  "viltrum_aes128_step k assist =
     (let assist = mm_shuffle_epi32 assist 0xff;
          t = mm_slli_si128 k 4;
          k = k XOR t;
          t = mm_slli_si128 t 4;
          k = k XOR t;
          t = mm_slli_si128 t 4;
          k = k XOR t
      in k XOR assist)"

definition viltrum_aes256_odd :: "m128i \<Rightarrow> m128i \<Rightarrow> m128i" where
  "viltrum_aes256_odd prev k =
     (let assist = mm_shuffle_epi32 (mm_aeskeygenassist_si128 prev 0x00) 0xaa;
          t = mm_slli_si128 k 4;
          k = k XOR t;
          t = mm_slli_si128 t 4;
          k = k XOR t;
          t = mm_slli_si128 t 4;
          k = k XOR t
      in k XOR assist)"

definition VILTRUM_K128 :: "nat \<Rightarrow> u8 \<Rightarrow> m128i list \<Rightarrow> m128i list" where
  "VILTRUM_K128 i rcon rk =
     rk[i := viltrum_aes128_step (rk ! (i - 1)) (mm_aeskeygenassist_si128 (rk ! (i - 1)) rcon)]"

definition VILTRUM_K256 :: "nat \<Rightarrow> u8 \<Rightarrow> m128i list \<Rightarrow> m128i list" where
  "VILTRUM_K256 i rcon rk =
     (let rk = rk[i := viltrum_aes128_step (rk ! (i - 2)) (mm_aeskeygenassist_si128 (rk ! (i - 1)) rcon)]
      in if i + 1 < 15 then rk[i + 1 := viltrum_aes256_odd (rk ! i) (rk ! (i - 1))] else rk)"

definition viltrum_aes_expand :: "viltrum_gcm \<Rightarrow> u8 list \<Rightarrow> int \<Rightarrow> viltrum_gcm" where
  "viltrum_aes_expand g key key_len =
     (if key_len = 16 then
        (let rk = (g_rk g)[0 := mm_of_bytes key];
             rk = VILTRUM_K128 1 0x01 rk;
             rk = VILTRUM_K128 2 0x02 rk;
             rk = VILTRUM_K128 3 0x04 rk;
             rk = VILTRUM_K128 4 0x08 rk;
             rk = VILTRUM_K128 5 0x10 rk;
             rk = VILTRUM_K128 6 0x20 rk;
             rk = VILTRUM_K128 7 0x40 rk;
             rk = VILTRUM_K128 8 0x80 rk;
             rk = VILTRUM_K128 9 0x1b rk;
             rk = VILTRUM_K128 10 0x36 rk
         in g\<lparr>g_nr := 10, g_rk := rk\<rparr>)
      else
        (let rk = (g_rk g)[0 := mm_of_bytes key];
             rk = rk[1 := mm_of_bytes (drop 16 key)];
             rk = VILTRUM_K256 2 0x01 rk;
             rk = VILTRUM_K256 4 0x02 rk;
             rk = VILTRUM_K256 6 0x04 rk;
             rk = VILTRUM_K256 8 0x08 rk;
             rk = VILTRUM_K256 10 0x10 rk;
             rk = VILTRUM_K256 12 0x20 rk;
             rk = VILTRUM_K256 14 0x40 rk
         in g\<lparr>g_nr := 14, g_rk := rk\<rparr>))"

definition viltrum_aes_block :: "viltrum_gcm \<Rightarrow> m128i \<Rightarrow> m128i" where
  "viltrum_aes_block g x =
     (let x = x XOR g_rk g ! 0;
          x = fold (\<lambda>r x. mm_aesenc_si128 x (g_rk g ! r)) [1..<g_nr g] x
      in mm_aesenclast_si128 x (g_rk g ! g_nr g))"

section \<open>The key expansion of FIPS 197\<close>

definition aes_rcon :: "nat \<Rightarrow> u8" where
  "aes_rcon i = (xtime ^^ (i - 1)) 1"

function fips_key :: "nat \<Rightarrow> u32 list \<Rightarrow> nat \<Rightarrow> u32" where
  "fips_key nk key i =
     (if i < nk \<or> nk = 0 then key ! i
      else fips_key nk key (i - nk) XOR
        (let t = fips_key nk key (i - 1)
         in if i mod nk = 0 then sub_word (rot_word t) XOR ucast (aes_rcon (i div nk))
            else if 6 < nk \<and> i mod nk = 4 then sub_word t
            else t))"
  by pat_completeness auto
termination
  by (relation "measure (\<lambda>(_, _, i). i)") auto

declare fips_key.simps [simp del]

definition key_words :: "u8 list \<Rightarrow> u32 list" where
  "key_words key = map (\<lambda>i. word_of_bytes (drop (4 * i) key)) [0..<length key div 4]"

text \<open>Round \<open>r\<close> uses words \<open>4 r\<close> to \<open>4 r + 3\<close>.\<close>

definition round_key :: "(nat \<Rightarrow> u32) \<Rightarrow> nat \<Rightarrow> u8 list" where
  "round_key w r = concat (map (\<lambda>c. word_bytes (w (4 * r + c))) [0..<4])"

definition fips_round :: "(nat \<Rightarrow> u32) \<Rightarrow> nat \<Rightarrow> u8 list \<Rightarrow> u8 list" where
  "fips_round w r s = xor_bytes (mix_columns (shift_rows (sub_bytes s))) (round_key w r)"

definition fips_cipher :: "nat \<Rightarrow> (nat \<Rightarrow> u32) \<Rightarrow> u8 list \<Rightarrow> u8 list" where
  "fips_cipher nr w blk =
     (let s = xor_bytes blk (round_key w 0);
          s = fold (fips_round w) [1..<nr] s
      in xor_bytes (shift_rows (sub_bytes s)) (round_key w nr))"

text \<open>AES-128 and AES-256 by the length of the key.\<close>

definition aes_rounds :: "u8 list \<Rightarrow> nat" where
  "aes_rounds key = length key div 4 + 6"

definition aes_encrypt :: "u8 list \<Rightarrow> u8 list \<Rightarrow> u8 list" where
  "aes_encrypt key blk = fips_cipher (aes_rounds key) (fips_key (length key div 4) (key_words key)) blk"

section \<open>Words and bytes\<close>

lemma length_word_bytes [simp]: "length (word_bytes w) = 4"
  by (simp add: word_bytes_def)

lemma uint_word_of_bytes: "length bs = 4 \<Longrightarrow> uint (word_of_bytes bs) = le_val bs"
  using le_val_less [of bs] by (simp add: word_of_bytes_def uint_word_of_int)

lemma word_bytes_of_bytes [simp]: "length bs = 4 \<Longrightarrow> word_bytes (word_of_bytes bs) = bs"
  by (simp add: word_bytes_def bytes_of_word uint_word_of_bytes)

lemma rot_sub_word: "rot_word (sub_word w) = sub_word (rot_word w)"
  by (simp add: rot_word_def sub_word_def rotate1_map)

lemma mm_bytes_lanes: "mm_bytes x = concat (map (\<lambda>c. word_bytes (lane32 x c)) [0..<4])"
proof -
  have b: "(ucast (drop_bit (8 * i) (lane32 x c)) :: u8) = ucast (drop_bit (8 * (4 * c + i)) x)" if "i < 4" for i c
    using that by (intro bit_word_eqI) (auto simp: bit_simps bit_lane32 algebra_simps)
  have u: "[0..<16] = concat (map (\<lambda>c. map (\<lambda>i. 4 * c + i) [0..<4]) [0..<4])"
    by (simp add: upt_rec)
  show ?thesis
    unfolding mm_bytes_def word_bytes_def u map_concat map_map comp_def
    by (intro arg_cong [where f = concat] map_cong refl) (simp add: b)
qed

lemma word_bytes_inj: "word_bytes x = word_bytes y \<Longrightarrow> x = y"
proof -
  have "le_val (word_bytes w) = uint w" for w
    using uint_nonneg_less(2) [of w] by (simp add: word_bytes_def bytes_of_word le_val_le_digits)
  then show "word_bytes x = word_bytes y \<Longrightarrow> x = y"
    by (metis word_uint_eq_iff)
qed

lemma lane32_mm_of_bytes:
  assumes bs: "length bs = 16" and c: "c < 4"
  shows "lane32 (mm_of_bytes bs) c = word_of_bytes (drop (4 * c) bs)"
proof -
  have "word_bytes (lane32 (mm_of_bytes bs) c) = take 4 (drop (4 * c) (mm_bytes (mm_of_bytes bs)))"
    using c unfolding mm_bytes_lanes by (auto simp: numeral_eq_Suc less_Suc_eq upt_rec word_bytes_def)
  then have "word_bytes (lane32 (mm_of_bytes bs) c) = word_bytes (word_of_bytes (take 4 (drop (4 * c) bs)))"
    using bs c by simp
  then show ?thesis
    by (auto simp: word_of_bytes_def dest: word_bytes_inj)
qed

section \<open>The key expansion\<close>

lemma lanes_aes_step:
  assumes "k' = (((k XOR mm_slli_si128 k 4) XOR mm_slli_si128 (mm_slli_si128 k 4) 4)
      XOR mm_slli_si128 (mm_slli_si128 (mm_slli_si128 k 4) 4) 4) XOR from_lanes32 t t t t"
  shows "lane32 k' 0 = lane32 k 0 XOR t"
    "lane32 k' 1 = lane32 k 1 XOR lane32 k' 0"
    "lane32 k' 2 = lane32 k 2 XOR lane32 k' 1"
    "lane32 k' 3 = lane32 k 3 XOR lane32 k' 2"
proof -
  note simps = lane32_bitwise lane32_from_lanes lane32_from_lanes(2) [unfolded One_nat_def]
    lane32_slli_si128 [where m = 1, simplified] ac_simps
  show "lane32 k' 0 = lane32 k 0 XOR t" "lane32 k' 1 = lane32 k 1 XOR lane32 k' 0"
    "lane32 k' 2 = lane32 k 2 XOR lane32 k' 1" "lane32 k' 3 = lane32 k 3 XOR lane32 k' 2"
    unfolding assms by (simp_all add: simps)
qed

lemma shuffle_all:
  "mm_shuffle_epi32 x 0xff = from_lanes32 (lane32 x 3) (lane32 x 3) (lane32 x 3) (lane32 x 3)"
  "mm_shuffle_epi32 x 0xaa = from_lanes32 (lane32 x 2) (lane32 x 2) (lane32 x 2) (lane32 x 2)"
  by (simp_all add: mm_shuffle_epi32_def)

lemmas lanes_aes128_step = lanes_aes_step [OF viltrum_aes128_step_def [unfolded Let_def shuffle_all(1)]]
lemmas lanes_aes256_odd = lanes_aes_step [OF viltrum_aes256_odd_def [unfolded Let_def shuffle_all(2)]]

lemma lanes_keygenassist:
  "lane32 (mm_aeskeygenassist_si128 x rcon) 2 = sub_word (lane32 x 3)"
  "lane32 (mm_aeskeygenassist_si128 x rcon) 3 = sub_word (rot_word (lane32 x 3)) XOR ucast rcon"
  by (simp_all add: mm_aeskeygenassist_si128_def lane32_from_lanes rot_sub_word)

text \<open>The first \<open>n\<close> round keys are in place.\<close>

definition rk_holds :: "(nat \<Rightarrow> u32) \<Rightarrow> m128i list \<Rightarrow> nat \<Rightarrow> bool" where
  "rk_holds w rk n \<longleftrightarrow> length rk = 15 \<and> (\<forall>r < n. \<forall>c < 4. lane32 (rk ! r) c = w (4 * r + c))"

lemma all_less_4: "(\<forall>c < (4::nat). P c) \<longleftrightarrow> P 0 \<and> P 1 \<and> P 2 \<and> P 3"
  by (auto simp: numeral_eq_Suc less_Suc_eq)

lemma rk_holds_update:
  assumes "rk_holds w rk n" "n < 15" "\<forall>c < 4. lane32 k c = w (4 * n + c)"
  shows "rk_holds w (rk[n := k]) (Suc n)"
  using assms by (auto simp: rk_holds_def nth_list_update less_Suc_eq)

lemma lanes_match:
  assumes "lane32 k' 0 = lane32 k 0 XOR t" "lane32 k' 1 = lane32 k 1 XOR lane32 k' 0"
    "lane32 k' 2 = lane32 k 2 XOR lane32 k' 1" "lane32 k' 3 = lane32 k 3 XOR lane32 k' 2"
    and a: "\<And>c. c < 4 \<Longrightarrow> lane32 k c = a c"
    and b: "b 0 = a 0 XOR t" "\<And>c. c < 3 \<Longrightarrow> b (Suc c) = a (Suc c) XOR b c"
  shows "\<forall>c < 4. lane32 k' c = b c"
  using assms(1-4) a [of 0] a [of 1] a [of 2] a [of 3] b(1) b(2) [of 0] b(2) [of 1] b(2) [of 2]
  unfolding all_less_4 by (simp add: numeral_2_eq_2 numeral_3_eq_3)

lemma fips_key_4:
  "fips_key 4 k (4 * Suc q) = fips_key 4 k (4 * q) XOR (sub_word (rot_word (fips_key 4 k (4 * q + 3))) XOR ucast (aes_rcon (Suc q)))"
  "c < 3 \<Longrightarrow> fips_key 4 k (4 * Suc q + Suc c) = fips_key 4 k (4 * q + Suc c) XOR fips_key 4 k (4 * Suc q + c)"
proof -
  show "fips_key 4 k (4 * Suc q) = fips_key 4 k (4 * q) XOR (sub_word (rot_word (fips_key 4 k (4 * q + 3))) XOR ucast (aes_rcon (Suc q)))"
    by (subst fips_key.simps) (simp add: Let_def add.commute)
  assume c: "c < 3"
  have j: "4 * Suc q + Suc c - 4 = 4 * q + Suc c" "4 * Suc q + Suc c - 1 = 4 * Suc q + c"
    by simp_all
  have m: "(4 * Suc q + Suc c) mod 4 = Suc c"
    using c by (simp del: mult_Suc_right)
  show "fips_key 4 k (4 * Suc q + Suc c) = fips_key 4 k (4 * q + Suc c) XOR fips_key 4 k (4 * Suc q + c)"
    using c by (subst fips_key.simps) (simp only: m j Let_def, simp)
qed

lemma fips_key_8:
  "fips_key 8 k (8 * Suc q) = fips_key 8 k (8 * q) XOR (sub_word (rot_word (fips_key 8 k (8 * q + 7))) XOR ucast (aes_rcon (Suc q)))"
  "fips_key 8 k (8 * Suc q + 4) = fips_key 8 k (8 * q + 4) XOR sub_word (fips_key 8 k (8 * Suc q + 3))"
  "c < 7 \<Longrightarrow> c \<noteq> 3 \<Longrightarrow>
     fips_key 8 k (8 * Suc q + Suc c) = fips_key 8 k (8 * q + Suc c) XOR fips_key 8 k (8 * Suc q + c)"
proof -
  show "fips_key 8 k (8 * Suc q) = fips_key 8 k (8 * q) XOR (sub_word (rot_word (fips_key 8 k (8 * q + 7))) XOR ucast (aes_rcon (Suc q)))"
    by (subst fips_key.simps) (simp add: Let_def add.commute)
  have j: "8 * Suc q + Suc c - 8 = 8 * q + Suc c" "8 * Suc q + Suc c - 1 = 8 * Suc q + c" for c
    by simp_all
  have m: "c < 7 \<Longrightarrow> (8 * Suc q + Suc c) mod 8 = Suc c" for c
    by (simp del: mult_Suc_right)
  have 4: "(4::nat) = Suc 3" by simp
  show "fips_key 8 k (8 * Suc q + 4) = fips_key 8 k (8 * q + 4) XOR sub_word (fips_key 8 k (8 * Suc q + 3))"
    unfolding 4 by (subst fips_key.simps) (simp only: m j Let_def, simp)
  show "c < 7 \<Longrightarrow> c \<noteq> 3 \<Longrightarrow>
     fips_key 8 k (8 * Suc q + Suc c) = fips_key 8 k (8 * q + Suc c) XOR fips_key 8 k (8 * Suc q + c)"
    by (subst fips_key.simps) (simp only: m j Let_def, simp)
qed

lemma K128_step:
  assumes "rk_holds (fips_key 4 k) rk i" "0 < i" "i < 15" "rcon = aes_rcon i"
  shows "rk_holds (fips_key 4 k) (VILTRUM_K128 i rcon rk) (Suc i)"
proof -
  obtain q where i: "i = Suc q" using assms(2) by (cases i) auto
  have prev: "lane32 (rk ! q) c = fips_key 4 k (4 * q + c)" if "c < 4" for c
    using assms(1) that i by (simp add: rk_holds_def)
  have "\<forall>c < 4. lane32 (viltrum_aes128_step (rk ! q) (mm_aeskeygenassist_si128 (rk ! q) rcon)) c
    = fips_key 4 k (4 * Suc q + c)"
    by (rule lanes_match [OF lanes_aes128_step prev])
      (use fips_key_4 [where k = k and q = q] prev [of 3] in \<open>simp_all add: lanes_keygenassist assms(4) i del: mult_Suc_right\<close>)
  then show ?thesis
    unfolding VILTRUM_K128_def using rk_holds_update [OF assms(1,3)] by (simp add: i)
qed

lemma K256_step:
  assumes "rk_holds (fips_key 8 k) rk (2 * Suc q)" "2 * Suc q < 15" "rcon = aes_rcon (Suc q)"
  shows "rk_holds (fips_key 8 k) (VILTRUM_K256 (2 * Suc q) rcon rk) (min 15 (2 * Suc (Suc q)))"
proof -
  let ?i = "2 * Suc q" and ?w = "fips_key 8 k"
  have prev: "lane32 (rk ! (2 * q)) c = ?w (8 * q + c)" "lane32 (rk ! (2 * q + 1)) c = ?w (8 * q + (4 + c))" if "c < 4" for c
    using assms(1) that by (simp_all add: rk_holds_def algebra_simps)
  define k1 where "k1 = viltrum_aes128_step (rk ! (2 * q)) (mm_aeskeygenassist_si128 (rk ! (2 * q + 1)) rcon)"
  have k1: "\<forall>c < 4. lane32 k1 c = ?w (8 * Suc q + c)"
    unfolding k1_def
    by (rule lanes_match [OF lanes_aes128_step prev(1)])
      (use fips_key_8 [where k = k and q = q] prev(2) [of 3] in \<open>simp_all add: lanes_keygenassist assms(3) del: mult_Suc_right\<close>)
  then have 1: "rk_holds ?w (rk[?i := k1]) (Suc ?i)"
    using rk_holds_update [OF assms(1,2), of k1] by simp
  have 2: "VILTRUM_K256 ?i rcon rk =
    (if ?i + 1 < 15 then (rk[?i := k1])[Suc ?i := viltrum_aes256_odd k1 (rk ! (2 * q + 1))] else rk[?i := k1])"
    using assms(1,2) by (simp add: VILTRUM_K256_def Let_def k1_def rk_holds_def)
  show ?thesis
  proof (cases "?i + 1 < 15")
    case True
    have "\<forall>c < 4. lane32 (viltrum_aes256_odd k1 (rk ! (2 * q + 1))) c = ?w (8 * Suc q + (4 + c))"
      by (rule lanes_match [OF lanes_aes256_odd prev(2)])
        (use k1 fips_key_8(2) [where k = k and q = q] fips_key_8(3) [where k = k and q = q and c = "4 + _"] in
          \<open>simp_all add: lanes_keygenassist del: mult_Suc_right\<close>)
    then have "rk_holds ?w ((rk[?i := k1])[Suc ?i := viltrum_aes256_odd k1 (rk ! (2 * q + 1))]) (Suc (Suc ?i))"
      using True by (intro rk_holds_update [OF 1]) (simp_all add: algebra_simps)
    then show ?thesis
      using True unfolding 2 by (simp add: min_def)
  next
    case False
    then show ?thesis
      using 1 assms(2) unfolding 2 by (simp add: rk_holds_def min_def)
  qed
qed

lemma aes_rcon_Suc: "aes_rcon (Suc (Suc n)) = xtime (aes_rcon (Suc n))"
  by (simp add: aes_rcon_def)

lemma aes_rcon_table:
  "aes_rcon 1 = 0x01" "aes_rcon 2 = 0x02" "aes_rcon 3 = 0x04" "aes_rcon 4 = 0x08" "aes_rcon 5 = 0x10"
  "aes_rcon 6 = 0x20" "aes_rcon 7 = 0x40" "aes_rcon 8 = 0x80" "aes_rcon 9 = 0x1b" "aes_rcon 10 = 0x36"
proof -
  show 1: "aes_rcon 1 = 0x01" by (simp add: aes_rcon_def)
  then show 2: "aes_rcon 2 = 0x02" using aes_rcon_Suc [of 0] by (simp add: xtime_def numeral_2_eq_2)
  then show 3: "aes_rcon 3 = 0x04" using aes_rcon_Suc [of 1] by (simp add: xtime_def numeral_2_eq_2 numeral_3_eq_3)
  then show 4: "aes_rcon 4 = 0x08" using aes_rcon_Suc [of 2] by (simp add: xtime_def)
  then show 5: "aes_rcon 5 = 0x10" using aes_rcon_Suc [of 3] by (simp add: xtime_def)
  then show 6: "aes_rcon 6 = 0x20" using aes_rcon_Suc [of 4] by (simp add: xtime_def)
  then show 7: "aes_rcon 7 = 0x40" using aes_rcon_Suc [of 5] by (simp add: xtime_def)
  then show 8: "aes_rcon 8 = 0x80" using aes_rcon_Suc [of 6] by (simp add: xtime_def)
  then show 9: "aes_rcon 9 = 0x1b" using aes_rcon_Suc [of 7] by (simp add: xtime_def)
  then show "aes_rcon 10 = 0x36" using aes_rcon_Suc [of 8] by (simp add: xtime_def)
qed

lemma rk_holds_key:
  assumes "length key = 16 \<or> length key = 32" "length rk = 15" "r < length key div 16"
    "rk ! r = mm_of_bytes (drop (16 * r) key)" "rk_holds (fips_key (length key div 4) (key_words key)) rk r"
  shows "rk_holds (fips_key (length key div 4) (key_words key)) rk (Suc r)"
proof -
  have len: "16 * Suc r \<le> length key"
    using assms(3) by (simp add: less_eq_div_iff_mult_less_eq [symmetric] Suc_le_eq algebra_simps)
  have "lane32 (rk ! r) c = fips_key (length key div 4) (key_words key) (4 * r + c)" if c: "c < 4" for c
  proof -
    have i: "4 * r + c < length key div 4"
      using len c assms(1) by auto
    have "lane32 (rk ! r) c = word_of_bytes (take 4 (drop (4 * c) (take 16 (drop (16 * r) key))))"
      using len c lane32_mm_of_bytes [of "take 16 (drop (16 * r) key)" c]
      by (simp add: assms(4) mm_of_bytes_def word_of_bytes_def)
    also have "take 4 (drop (4 * c) (take 16 (drop (16 * r) key))) = take 4 (drop (4 * (4 * r + c)) key)"
      using c by (simp add: drop_take algebra_simps)
    finally show ?thesis
      using i by (subst fips_key.simps) (simp add: key_words_def word_of_bytes_def)
  qed
  then show ?thesis
    using assms(5) by (auto simp: rk_holds_def less_Suc_eq)
qed

lemma K128_step_to:
  "rk_holds (fips_key 4 k) rk i \<Longrightarrow> 0 < i \<Longrightarrow> i < 15 \<Longrightarrow> rcon = aes_rcon i \<Longrightarrow> n = Suc i \<Longrightarrow>
   rk_holds (fips_key 4 k) (VILTRUM_K128 i rcon rk) n"
  using K128_step by simp

lemma K256_step_to:
  assumes "rk_holds (fips_key 8 k) rk i" "even i" "0 < i" "i < 15" "rcon = aes_rcon (i div 2)" "n = min 15 (i + 2)"
  shows "rk_holds (fips_key 8 k) (VILTRUM_K256 i rcon rk) n"
proof -
  obtain q where "i = 2 * Suc q"
    using assms(2,3) by (metis dvd_def mult_0_right neq0_conv not0_implies_Suc)
  then show ?thesis
    using K256_step [of k rk q rcon] assms by simp
qed

lemma aes_expand_128:
  assumes "length key = 16" "length (g_rk g) = 15"
  shows "rk_holds (fips_key 4 (key_words key)) (g_rk (viltrum_aes_expand g key 16)) 11"
proof -
  have "rk_holds (fips_key 4 (key_words key)) ((g_rk g)[0 := mm_of_bytes key]) 1"
    using rk_holds_key [of key "(g_rk g)[0 := mm_of_bytes key]" 0] assms by (simp add: rk_holds_def)
  moreover have e: "g_rk (viltrum_aes_expand g key 16) =
    VILTRUM_K128 10 0x36 (VILTRUM_K128 9 0x1b (VILTRUM_K128 8 0x80 (VILTRUM_K128 7 0x40 (VILTRUM_K128 6 0x20
      (VILTRUM_K128 5 0x10 (VILTRUM_K128 4 0x08 (VILTRUM_K128 3 0x04 (VILTRUM_K128 2 0x02 (VILTRUM_K128 1 0x01
        ((g_rk g)[0 := mm_of_bytes key]))))))))))"
    by (simp add: viltrum_aes_expand_def Let_def)
  ultimately show ?thesis
    unfolding e by (intro K128_step_to; simp add: aes_rcon_table del: One_nat_def)
qed

lemma aes_expand_256:
  assumes "length key = 32" "length (g_rk g) = 15"
  shows "rk_holds (fips_key 8 (key_words key)) (g_rk (viltrum_aes_expand g key 32)) 15"
proof -
  let ?rk = "((g_rk g)[0 := mm_of_bytes key])[1 := mm_of_bytes (drop 16 key)]"
  have "rk_holds (fips_key 8 (key_words key)) ?rk 1"
    using rk_holds_key [of key ?rk 0] assms by (simp add: rk_holds_def)
  then have "rk_holds (fips_key 8 (key_words key)) ?rk 2"
    using rk_holds_key [of key ?rk 1] assms by (simp add: numeral_2_eq_2)
  moreover have e: "g_rk (viltrum_aes_expand g key 32) =
    VILTRUM_K256 14 0x40 (VILTRUM_K256 12 0x20 (VILTRUM_K256 10 0x10 (VILTRUM_K256 8 0x08 (VILTRUM_K256 6 0x04
      (VILTRUM_K256 4 0x02 (VILTRUM_K256 2 0x01 ?rk))))))"
    by (simp add: viltrum_aes_expand_def Let_def)
  ultimately show ?thesis
    unfolding e by (intro K256_step_to; simp add: aes_rcon_table del: One_nat_def)
qed

section \<open>The block cipher\<close>

lemma length_steps [simp]:
  "length (shift_rows s) = 16" "length (mix_columns s) = 16" "length (sub_bytes s) = length s"
  "length (xor_bytes s k) = min (length s) (length k)"
  by (simp_all add: shift_rows_def mix_columns_def sub_bytes_def xor_bytes_def)

lemma shift_sub: "length s = 16 \<Longrightarrow> sub_bytes (shift_rows s) = shift_rows (sub_bytes s)"
  by (simp add: sub_bytes_def shift_rows_def)

lemma mm_bytes_xor_bytes: "mm_bytes (x XOR k) = xor_bytes (mm_bytes x) (mm_bytes k)"
  by (simp add: mm_bytes_xor xor_bytes_def)

lemma rk_holds_bytes: "rk_holds w rk n \<Longrightarrow> r < n \<Longrightarrow> mm_bytes (rk ! r) = round_key w r"
  by (auto simp: rk_holds_def mm_bytes_lanes round_key_def intro!: arg_cong [where f = concat])

lemma aes_block_bytes:
  assumes rk: "rk_holds w (g_rk g) (Suc (g_nr g))"
  shows "mm_bytes (viltrum_aes_block g x) = fips_cipher (g_nr g) w (mm_bytes x)"
proof -
  have enc: "mm_bytes (mm_aesenc_si128 y (g_rk g ! r)) = fips_round w r (mm_bytes y)" if "r \<le> g_nr g" for y r
    using rk_holds_bytes [OF rk, of r] that
    by (simp add: mm_aesenc_si128_def mm_bytes_xor_bytes fips_round_def shift_sub)
  have rounds: "set rs \<subseteq> {..g_nr g} \<Longrightarrow>
      mm_bytes (fold (\<lambda>r x. mm_aesenc_si128 x (g_rk g ! r)) rs y) = fold (fips_round w) rs (mm_bytes y)" for rs y
    by (induction rs arbitrary: y) (simp_all add: enc)
  have "set [1..<g_nr g] \<subseteq> {..g_nr g}" by auto
  from rounds [OF this] show ?thesis
    using rk_holds_bytes [OF rk, of 0] rk_holds_bytes [OF rk, of "g_nr g"]
    by (simp add: viltrum_aes_block_def fips_cipher_def Let_def mm_aesenclast_si128_def mm_bytes_xor_bytes shift_sub)
qed

lemma aes_expand_holds:
  assumes "length key = 16 \<or> length key = 32" "length (g_rk g) = 15"
  shows "rk_holds (fips_key (length key div 4) (key_words key)) (g_rk (viltrum_aes_expand g key (int (length key))))
      (Suc (aes_rounds key))"
    and "g_nr (viltrum_aes_expand g key (int (length key))) = aes_rounds key"
  using assms aes_expand_128 [of key g] aes_expand_256 [of key g]
  by (auto simp: aes_rounds_def viltrum_aes_expand_def Let_def)

text \<open>
  C31. With a 16-byte or a 32-byte key the key expansion and the block function are AES-128 and AES-256 of
  FIPS 197: the round keys the instructions build are its key schedule, and a block encrypts to its cipher.
\<close>

theorem aes_block_is_fips197:
  assumes "length key = 16 \<or> length key = 32" "length (g_rk g) = 15" "length blk = 16"
  shows "mm_bytes (viltrum_aes_block (viltrum_aes_expand g key (int (length key))) (mm_of_bytes blk)) = aes_encrypt key blk"
  using assms aes_block_bytes [of _ "viltrum_aes_expand g key (int (length key))"] aes_expand_holds [OF assms(1,2)]
  by (simp add: aes_encrypt_def)

lemma aes_block_is_fips197_witness:
  "mm_bytes (viltrum_aes_block (viltrum_aes_expand gcm_zero (replicate 32 7) 32) (mm_of_bytes (replicate 16 1)))
    = aes_encrypt (replicate 32 7) (replicate 16 1)"
  using aes_block_is_fips197 [of "replicate 32 7" gcm_zero "replicate 16 1"] by (simp add: gcm_zero_def)

end
