(* ===== verification/Gcm.thy ===== *)
theory Gcm
  imports Gf128 Aes
begin

unbundle bit_operations_syntax

text \<open>
  AES-GCM of \<^verbatim>\<open>src/engine/aesgcm.h\<close> on its block cipher and its field multiplication, against NIST SP 800-38D.
  A pointer with a length is the list of the bytes from it on. A routine that writes an output buffer returns
  what it writes there: it reads each block of its input before it writes the block at the same offset of its
  output and never reads it again, so the result is the same when the two buffers are one.
\<close>

section \<open>The code\<close>

abbreviation loadu :: "u8 list \<Rightarrow> m128i" where
  "loadu p \<equiv> mm_of_bytes p"

text \<open>\<^verbatim>\<open>posix_memalign\<close> gives memory or not; the wipe zeroes every byte of the structure.\<close>

definition viltrum_gcm_new :: "bool \<Rightarrow> viltrum_gcm option" where
  "viltrum_gcm_new allocated = (if allocated then Some gcm_zero else None)"

definition viltrum_gcm_wipe :: "viltrum_gcm \<Rightarrow> viltrum_gcm" where
  "viltrum_gcm_wipe g = gcm_zero"

definition gcm_init_powers :: "viltrum_gcm \<Rightarrow> m128i \<Rightarrow> viltrum_gcm" where
  "gcm_init_powers g h =
     (let g = g\<lparr>g_hp := (g_hp g)[0 := h]\<rparr>;
          g = fold (\<lambda>i g. g\<lparr>g_hp := (g_hp g)[i := viltrum_gf_mul (g_hp g ! (i - 1)) h]\<rparr>) [1..<8] g
      in fold (\<lambda>i g. g\<lparr>g_hk := (g_hk g)[i := g_hp g ! i XOR mm_shuffle_epi32 (g_hp g ! i) 0x4e]\<rparr>) [0..<8] g)"

definition viltrum_gcm_init :: "viltrum_gcm \<Rightarrow> u8 list \<Rightarrow> int \<Rightarrow> int \<times> viltrum_gcm" where
  "viltrum_gcm_init g key key_len =
     (if key_len \<noteq> 16 \<and> key_len \<noteq> 32 then (- 1, g)
      else
        (let g = viltrum_aes_expand g key key_len;
             h = viltrum_bswap128 (viltrum_aes_block g 0)
         in (0, gcm_init_powers g h)))"

text \<open>The batches of eight blocks, then the blocks that are left.\<close>

definition ghash_batch :: "viltrum_gcm \<Rightarrow> m128i \<Rightarrow> u8 list \<Rightarrow> m128i" where
  "ghash_batch g y p =
     (let x0 = y XOR viltrum_bswap128 (loadu p);
          acc = viltrum_clmul_kar x0 (g_hp g ! 7) (g_hk g ! 7) (0, 0, 0);
          acc = fold (\<lambda>k. let x = viltrum_bswap128 (loadu (drop (16 * k) p))
             in viltrum_clmul_kar x (g_hp g ! (7 - k)) (g_hk g ! (7 - k))) [1..<8] acc
      in viltrum_gf_reduce (viltrum_kar_fold acc))"

fun ghash_batches :: "viltrum_gcm \<Rightarrow> m128i \<Rightarrow> u8 list \<Rightarrow> nat \<Rightarrow> m128i \<times> u8 list \<times> nat" where
  "ghash_batches g y p n =
     (if 8 \<le> n then ghash_batches g (ghash_batch g y p) (drop 128 p) (n - 8) else (y, p, n))"

declare ghash_batches.simps [simp del]

fun ghash_singles :: "viltrum_gcm \<Rightarrow> m128i \<Rightarrow> u8 list \<Rightarrow> nat \<Rightarrow> m128i" where
  "ghash_singles g y p n =
     (if 0 < n then
        ghash_singles g (viltrum_gf_mul (y XOR viltrum_bswap128 (loadu p)) (g_hp g ! 0)) (drop 16 p) (n - 1)
      else y)"

declare ghash_singles.simps [simp del]

definition viltrum_ghash_blocks :: "viltrum_gcm \<Rightarrow> m128i \<Rightarrow> u8 list \<Rightarrow> nat \<Rightarrow> m128i" where
  "viltrum_ghash_blocks g y p n = (case ghash_batches g y p n of (y, p, n) \<Rightarrow> ghash_singles g y p n)"

definition viltrum_ghash :: "viltrum_gcm \<Rightarrow> m128i \<Rightarrow> u8 list \<Rightarrow> nat \<Rightarrow> m128i" where
  "viltrum_ghash g y p len =
     (let y = viltrum_ghash_blocks g y p (len div 16);
          rest = len mod 16
      in if 0 < rest
         then viltrum_ghash_blocks g y (take rest (drop (len - rest) p) @ replicate (16 - rest) 0) 1
         else y)"

definition bswap32 :: "u32 \<Rightarrow> u32" where
  "bswap32 x = word_of_bytes (rev (word_bytes x))"

definition ctr_base :: "u8 list \<Rightarrow> m128i" where
  "ctr_base iv = loadu (take 12 iv @ [0, 0, 0, 0])"

definition ctr_block :: "u8 list \<Rightarrow> u32 \<Rightarrow> m128i" where
  "ctr_block iv ctr = mm_insert_epi32 (ctr_base iv) (bswap32 ctr) 3"

text \<open>Eight counter blocks through the rounds side by side.\<close>

definition ctr_start8 :: "viltrum_gcm \<Rightarrow> u8 list \<Rightarrow> u32 \<Rightarrow> m128i list" where
  "ctr_start8 g iv ctr = map (\<lambda>k. ctr_block iv (ctr + of_nat k) XOR g_rk g ! 0) [0..<8]"

definition ctr_finish8 :: "viltrum_gcm \<Rightarrow> m128i list \<Rightarrow> u8 list \<Rightarrow> u8 list" where
  "ctr_finish8 g b inp =
     concat (map (\<lambda>k. mm_bytes (loadu (drop (16 * k) inp) XOR mm_aesenclast_si128 (b ! k) (g_rk g ! g_nr g))) [0..<8])"

definition ctr_chunk8 :: "viltrum_gcm \<Rightarrow> u8 list \<Rightarrow> u32 \<Rightarrow> u8 list \<Rightarrow> u8 list" where
  "ctr_chunk8 g iv ctr inp =
     ctr_finish8 g (fold (\<lambda>r. map (\<lambda>x. mm_aesenc_si128 x (g_rk g ! r))) [1..<g_nr g] (ctr_start8 g iv ctr)) inp"

fun ctr_tail :: "viltrum_gcm \<Rightarrow> u8 list \<Rightarrow> u32 \<Rightarrow> u8 list \<Rightarrow> nat \<Rightarrow> u8 list" where
  "ctr_tail g iv ctr inp n =
     (if 0 < n then
        (let ks = viltrum_aes_block g (ctr_block iv ctr)
         in if 16 \<le> n then mm_bytes (loadu inp XOR ks) @ ctr_tail g iv (ctr + 1) (drop 16 inp) (n - 16)
            else xor_bytes (take n inp) (mm_bytes ks))
      else [])"

declare ctr_tail.simps [simp del]

fun ctr_chunks :: "viltrum_gcm \<Rightarrow> u8 list \<Rightarrow> u32 \<Rightarrow> u8 list \<Rightarrow> nat \<Rightarrow> u8 list" where
  "ctr_chunks g iv ctr inp n =
     (if 128 \<le> n then ctr_chunk8 g iv ctr inp @ ctr_chunks g iv (ctr + 8) (drop 128 inp) (n - 128)
      else ctr_tail g iv ctr inp n)"

declare ctr_chunks.simps [simp del]

definition viltrum_gcm_ctr_from :: "viltrum_gcm \<Rightarrow> u8 list \<Rightarrow> u32 \<Rightarrow> u8 list \<Rightarrow> nat \<Rightarrow> u8 list" where
  "viltrum_gcm_ctr_from g iv ctr inp n = ctr_chunks g iv ctr inp n"

text \<open>
  The one-pass form: round \<open>r\<close> of the chunk's eight blocks, then, while \<open>r \<le> 8\<close>, one block's multiplication of
  the chunk before.
\<close>

definition enc_round ::
  "viltrum_gcm \<Rightarrow> m128i list \<Rightarrow> nat \<Rightarrow> m128i list \<times> m128i \<times> m128i \<times> m128i \<Rightarrow> m128i list \<times> m128i \<times> m128i \<times> m128i" where
  "enc_round g x r = (\<lambda>(b, acc).
     (map (\<lambda>v. mm_aesenc_si128 v (g_rk g ! r)) b,
      if r \<le> 8 then viltrum_clmul_kar (x ! (r - 1)) (g_hp g ! (8 - r)) (g_hk g ! (8 - r)) acc else acc))"

definition enc_chunk ::
  "viltrum_gcm \<Rightarrow> u8 list \<Rightarrow> u32 \<Rightarrow> u8 list \<Rightarrow> nat \<Rightarrow> u8 list \<times> m128i \<Rightarrow> u8 list \<times> m128i" where
  "enc_chunk g iv ctr inp j = (\<lambda>(out, acc).
     let prev = drop (128 * (j - 1)) out;
         src = drop (128 * j) inp;
         c = ctr + 8 * of_nat j;
         x = (acc XOR viltrum_bswap128 (loadu prev))
           # map (\<lambda>k. viltrum_bswap128 (loadu (drop (16 * k) prev))) [1..<8]
     in case fold (enc_round g x) [1..<g_nr g] (ctr_start8 g iv c, 0, 0, 0) of (b, sums) \<Rightarrow>
          (out @ ctr_finish8 g b src, viltrum_gf_reduce (viltrum_kar_fold sums)))"

definition viltrum_gcm_enc_ghash ::
  "viltrum_gcm \<Rightarrow> u8 list \<Rightarrow> u32 \<Rightarrow> u8 list \<Rightarrow> nat \<Rightarrow> m128i \<Rightarrow> nat \<times> u8 list \<times> m128i" where
  "viltrum_gcm_enc_ghash g iv ctr inp n y =
     (let chunks = n div 128
      in if chunks = 0 then (0, [], y)
         else
           (case fold (enc_chunk g iv ctr inp) [1..<chunks] (viltrum_gcm_ctr_from g iv ctr inp 128, y) of
              (out, acc) \<Rightarrow>
                (chunks * 128, out, viltrum_ghash_blocks g acc (drop (128 * (chunks - 1)) out) 8)))"

definition viltrum_gcm_ctr :: "viltrum_gcm \<Rightarrow> u8 list \<Rightarrow> u8 list \<Rightarrow> nat \<Rightarrow> u8 list" where
  "viltrum_gcm_ctr g iv inp n = viltrum_gcm_ctr_from g iv 2 inp n"

definition viltrum_gcm_tag :: "viltrum_gcm \<Rightarrow> u8 list \<Rightarrow> m128i \<Rightarrow> nat \<Rightarrow> nat \<Rightarrow> u8 list" where
  "viltrum_gcm_tag g iv y aad_len n =
     (let lens = mm_set_epi64x (of_nat aad_len * 8) (of_nat n * 8);
          y = viltrum_gf_mul (y XOR lens) (g_hp g ! 0);
          s = viltrum_bswap128 y XOR viltrum_aes_block g (loadu (take 12 iv @ [0, 0, 0, 1]))
      in mm_bytes s)"

definition viltrum_gcm_seal :: "viltrum_gcm \<Rightarrow> u8 list \<Rightarrow> u8 list \<Rightarrow> u8 list \<Rightarrow> u8 list \<times> u8 list" where
  "viltrum_gcm_seal g iv aad inp =
     (let n = length inp;
          y = viltrum_ghash g 0 aad (length aad)
      in case viltrum_gcm_enc_ghash g iv 2 inp n y of (fin, out, y) \<Rightarrow>
           let rest = viltrum_gcm_ctr_from g iv (2 + of_nat (fin div 16)) (drop fin inp) (n - fin);
               y = viltrum_ghash g y rest (n - fin)
           in (out @ rest, viltrum_gcm_tag g iv y (length aad) n))"

text \<open>\<^verbatim>\<open>full = n & ~15\<close> is \<open>n\<close> rounded down to whole blocks.\<close>

definition viltrum_gcm_seal_record :: "viltrum_gcm \<Rightarrow> u8 list \<Rightarrow> u8 list \<Rightarrow> u8 list \<Rightarrow> u8 \<Rightarrow> u8 list \<times> u8 list" where
  "viltrum_gcm_seal_record g iv aad inp typ =
     (let n = length inp;
          full = n - n mod 16;
          y = viltrum_ghash g 0 aad (length aad)
      in case viltrum_gcm_enc_ghash g iv 2 inp full y of (fin, out, y) \<Rightarrow>
           let mid = viltrum_gcm_ctr_from g iv (2 + of_nat (fin div 16)) (drop fin inp) (full - fin);
               rest = n - full;
               last = take rest (drop full inp) @ [typ];
               tail = viltrum_gcm_ctr_from g iv (2 + of_nat (full div 16)) last (rest + 1);
               y = viltrum_ghash g y (mid @ tail) (n + 1 - fin)
           in (out @ mid @ tail, viltrum_gcm_tag g iv y (length aad) (n + 1)))"

text \<open>\<^verbatim>\<open>diff |= want[i] ^ tag[i]\<close> over the sixteen bytes.\<close>

definition tag_diff :: "u8 list \<Rightarrow> u8 list \<Rightarrow> u32" where
  "tag_diff want tag = fold (\<lambda>i diff. diff OR ucast (want ! i XOR tag ! i)) [0..<16] 0"

text \<open>The output is \<open>None\<close> when nothing was written.\<close>

definition viltrum_gcm_open ::
  "viltrum_gcm \<Rightarrow> u8 list \<Rightarrow> u8 list \<Rightarrow> u8 list \<Rightarrow> u8 list \<Rightarrow> int \<times> u8 list option" where
  "viltrum_gcm_open g iv aad inp tag =
     (let n = length inp;
          y = viltrum_ghash g 0 aad (length aad);
          y = viltrum_ghash g y inp n;
          want = viltrum_gcm_tag g iv y (length aad) n
      in if tag_diff want tag \<noteq> 0 then (- 1, None)
         else (0, Some (viltrum_gcm_ctr g iv inp n)))"

section \<open>SP 800-38D\<close>

text \<open>Blocks of sixteen bytes, the last padded with zeros; a block is a number with its first byte on top.\<close>

fun blocks16 :: "u8 list \<Rightarrow> u8 list list" where
  "blocks16 bs = (if bs = [] then [] else take 16 (bs @ replicate 15 0) # blocks16 (drop 16 bs))"

declare blocks16.simps [simp del]

definition be_block :: "u8 list \<Rightarrow> m128i" where
  "be_block b = mm_of_bytes (rev b)"

definition ghash_step :: "m128i \<Rightarrow> m128i \<Rightarrow> u8 list \<Rightarrow> m128i" where
  "ghash_step h y b = gf_mult (y XOR be_block b) h"

definition ghash :: "m128i \<Rightarrow> m128i \<Rightarrow> u8 list list \<Rightarrow> m128i" where
  "ghash h y bs = foldl (ghash_step h) y bs"

definition be32 :: "u32 \<Rightarrow> u8 list" where
  "be32 x = rev (word_bytes x)"

definition be64 :: "u64 \<Rightarrow> u8 list" where
  "be64 x = rev (map (\<lambda>i. ucast (drop_bit (8 * i) x)) [0..<8])"

fun gctr :: "(u8 list \<Rightarrow> u8 list) \<Rightarrow> u8 list \<Rightarrow> u32 \<Rightarrow> u8 list \<Rightarrow> u8 list" where
  "gctr ciph iv ctr p =
     (if p = [] then []
      else xor_bytes (take 16 p) (ciph (iv @ be32 ctr)) @ gctr ciph iv (ctr + 1) (drop 16 p))"

declare gctr.simps [simp del]

definition gcm_hash :: "(u8 list \<Rightarrow> u8 list) \<Rightarrow> u8 list \<Rightarrow> u8 list \<Rightarrow> u8 list" where
  "gcm_hash ciph aad c =
     rev (mm_bytes (ghash (be_block (ciph (replicate 16 0))) 0
       (blocks16 aad @ blocks16 c @ [be64 (of_nat (length aad) * 8) @ be64 (of_nat (length c) * 8)])))"

definition gcm_encrypt :: "(u8 list \<Rightarrow> u8 list) \<Rightarrow> u8 list \<Rightarrow> u8 list \<Rightarrow> u8 list" where
  "gcm_encrypt ciph iv p = gctr ciph iv 2 p"

definition gcm_tag :: "(u8 list \<Rightarrow> u8 list) \<Rightarrow> u8 list \<Rightarrow> u8 list \<Rightarrow> u8 list \<Rightarrow> u8 list" where
  "gcm_tag ciph iv aad c = gctr ciph iv 1 (gcm_hash ciph aad c)"

section \<open>GHASH\<close>

primrec gf_pow :: "m128i \<Rightarrow> nat \<Rightarrow> m128i" where
  "gf_pow h 0 = h"
| "gf_pow h (Suc n) = gf_mult (gf_pow h n) h"

lemma gf_pow_commute: "gf_mult h (gf_pow h n) = gf_pow h (Suc n)"
  by (induction n) (simp_all add: gf_mult_assoc [symmetric])

text \<open>What the context holds once the key is set.\<close>

definition powers_ok :: "m128i \<Rightarrow> viltrum_gcm \<Rightarrow> bool" where
  "powers_ok h g \<longleftrightarrow> (\<forall>i < 8. g_hp g ! i = gf_pow h i \<and> g_hk g ! i = kar_halves (gf_pow h i))"

primrec ghash_sum :: "m128i \<Rightarrow> m128i list \<Rightarrow> m128i" where
  "ghash_sum h [] = 0"
| "ghash_sum h (x # xs) = ghash_sum h xs XOR gf_mult x (gf_pow h (length xs))"

text \<open>Horner's rule against the sum with powers.\<close>

lemma horner_sum:
  "foldl (\<lambda>y x. gf_mult (y XOR x) h) y (x # xs) = ghash_sum h ((y XOR x) # xs)"
proof (induction xs arbitrary: x y)
  case (Cons z zs)
  note lin = xor_linearD [OF gf_mult_linear(1)]
  have "foldl (\<lambda>y x. gf_mult (y XOR x) h) y (x # z # zs) = ghash_sum h ((gf_mult (y XOR x) h XOR z) # zs)"
    using Cons.IH [of "gf_mult (y XOR x) h" z] by simp
  also have "\<dots> = ghash_sum h ((y XOR x) # z # zs)"
    unfolding ghash_sum.simps lin gf_mult_assoc gf_pow_commute by (simp add: ac_simps)
  finally show ?case .
qed simp

lemma ghash_foldl: "ghash h y bs = foldl (\<lambda>y x. gf_mult (y XOR x) h) y (map be_block bs)"
  by (simp add: ghash_def ghash_step_def [abs_def] foldl_map)

lemma bswap_eq: "viltrum_bswap128 x = mm_of_bytes (rev (mm_bytes x))"
  by (simp add: viltrum_bswap128_def mm_shuffle_epi8_def mm_bytes_def upt_rec)

lemma mm_of_bytes_take: "mm_of_bytes (take 16 p) = mm_of_bytes p"
  by (simp add: mm_of_bytes_def)

lemma bswap_load: "16 \<le> length p \<Longrightarrow> viltrum_bswap128 (loadu p) = be_block (take 16 p)"
  using mm_bytes_of_bytes [of "take 16 p"] by (simp add: bswap_eq be_block_def mm_of_bytes_take)

text \<open>The batch of eight blocks, with the additions in the order of its multiplications.\<close>

definition batch_inputs :: "m128i \<Rightarrow> u8 list \<Rightarrow> m128i list" where
  "batch_inputs y p = (y XOR viltrum_bswap128 (loadu p)) # map (\<lambda>k. viltrum_bswap128 (loadu (drop (16 * k) p))) [1..<8]"

definition kar_batch :: "viltrum_gcm \<Rightarrow> m128i list \<Rightarrow> m128i \<times> m128i \<times> m128i \<Rightarrow> m128i \<times> m128i \<times> m128i" where
  "kar_batch g x = fold (\<lambda>k. viltrum_clmul_kar (x ! k) (g_hp g ! (7 - k)) (g_hk g ! (7 - k))) [0..<8]"

lemma upt_0_8: "[0..<8] = [0, 1, 2, 3, 4, 5, 6, 7]" "[1..<8] = [1, 2, 3, 4, 5, 6, 7]"
  by (simp_all add: upt_rec)

lemma ghash_batch_kar: "ghash_batch g y p = viltrum_gf_reduce (viltrum_kar_fold (kar_batch g (batch_inputs y p) (0, 0, 0)))"
  by (simp add: ghash_batch_def kar_batch_def batch_inputs_def upt_0_8 upt_0_8(2) [unfolded One_nat_def] Let_def)

lemma kar_batch_sum:
  assumes "powers_ok h g" "length x = 8"
  shows "viltrum_gf_reduce (viltrum_kar_fold (kar_batch g x acc)) = viltrum_gf_reduce (viltrum_kar_fold acc) XOR ghash_sum h x"
proof -
  obtain a b c d e f i j where x: "x = [a, b, c, d, e, f, i, j]"
    using assms(2) by (auto simp: numeral_eq_Suc length_Suc_conv)
  have hp: "g_hp g ! i = gf_pow h i" "g_hk g ! i = kar_halves (gf_pow h i)" if "i < 8" for i
    using assms(1) that by (auto simp: powers_ok_def)
  have "ghash_sum h x = ((((((gf_mult j (gf_pow h 0) XOR gf_mult i (gf_pow h 1)) XOR gf_mult f (gf_pow h 2))
    XOR gf_mult e (gf_pow h 3)) XOR gf_mult d (gf_pow h 4)) XOR gf_mult c (gf_pow h 5)) XOR gf_mult b (gf_pow h 6))
    XOR gf_mult a (gf_pow h 7)"
    by (simp add: x numeral_eq_Suc del: gf_pow.simps)
  then show ?thesis
    by (simp add: kar_batch_def upt_0_8 x hp gf_reduce_clmul_kar gf_mul_is_gf_mult ac_simps
        del: gf_pow.simps ghash_sum.simps)
qed

lemma blocks16_append:
  assumes "16 dvd length a"
  shows "blocks16 (a @ b) = blocks16 a @ blocks16 b"
  using assms
proof (induction a rule: blocks16.induct)
  case (1 a)
  show ?case
  proof (cases "a = []")
    case True
    then show ?thesis
      by (simp add: blocks16.simps [of "[]"])
  next
    case False
    then have "16 \<le> length a"
      using "1.prems" by (intro dvd_imp_le) auto
    moreover from this have "blocks16 (drop 16 a @ b) = blocks16 (drop 16 a) @ blocks16 b"
      using "1.IH" False "1.prems" by (simp add: dvd_diff_nat)
    ultimately show ?thesis
      using False by (subst (1 2) blocks16.simps) simp
  qed
qed

lemma blocks16_block: "length b = 16 \<Longrightarrow> blocks16 b = [b]"
  by (cases b) (auto simp: blocks16.simps)

lemma blocks16_whole:
  "16 * n \<le> length p \<Longrightarrow> blocks16 (take (16 * n) p) = map (\<lambda>k. take 16 (drop (16 * k) p)) [0..<n]"
proof (induction n)
  case (Suc n)
  have "take (16 * Suc n) p = take (16 * n) p @ take 16 (drop (16 * n) p)"
    by (simp add: take_add [symmetric] add.commute)
  moreover have "16 dvd length (take (16 * n) p)" "length (take 16 (drop (16 * n) p)) = 16"
    using Suc.prems by simp_all
  ultimately show ?case
    using Suc by (simp add: blocks16_append blocks16_block)
qed (simp add: blocks16.simps)

lemma ghash_append: "ghash h y (as @ bs) = ghash h (ghash h y as) bs"
  by (simp add: ghash_def)

lemma ghash_batch_eq:
  assumes "powers_ok h g" "128 \<le> length p"
  shows "ghash_batch g y p = ghash h y (blocks16 (take 128 p))"
proof -
  have len: "length (batch_inputs y p) = 8"
    by (simp add: batch_inputs_def)
  have load: "viltrum_bswap128 (loadu (drop (16 * k) p)) = be_block (take 16 (drop (16 * k) p))" if "k < 8" for k
    using assms(2) that by (intro bswap_load) simp
  have blocks: "blocks16 (take 128 p) = map (\<lambda>k. take 16 (drop (16 * k) p)) [0..<8]"
    using blocks16_whole [of 8 p] assms(2) by simp
  have "map be_block (blocks16 (take 128 p)) = be_block (take 16 p) # map (\<lambda>k. viltrum_bswap128 (loadu (drop (16 * k) p))) [1..<8]"
    unfolding blocks using assms(2) by (simp add: upt_0_8 bswap_load upt_0_8(2) [unfolded One_nat_def])
  then have "ghash h y (blocks16 (take 128 p)) = ghash_sum h (batch_inputs y p)"
    unfolding ghash_foldl batch_inputs_def using load [of 0] horner_sum by simp
  then show ?thesis
    using kar_batch_sum [OF assms(1) len, of "(0, 0, 0)"] by (simp add: ghash_batch_kar gf_reduce_kar_zero)
qed

lemma take_split16: "take (16 * n) p = take (16 * m) p @ take (16 * (n - m)) (drop (16 * m) p)" if "m \<le> n"
  using that take_add [of "16 * m" "16 * (n - m)" p] by (simp add: add_mult_distrib2 [symmetric])

lemma ghash_split16:
  assumes "m \<le> n" "16 * n \<le> length p"
  shows "ghash h y (blocks16 (take (16 * n) p))
    = ghash h (ghash h y (blocks16 (take (16 * m) p))) (blocks16 (take (16 * (n - m)) (drop (16 * m) p)))"
proof -
  have "16 dvd length (take (16 * m) p)"
    using assms by simp
  then show ?thesis
    unfolding take_split16 [OF assms(1), of p] by (simp add: blocks16_append ghash_append)
qed

lemma ghash_singles_eq:
  assumes "powers_ok h g"
  shows "16 * n \<le> length p \<Longrightarrow> ghash_singles g y p n = ghash h y (blocks16 (take (16 * n) p))"
proof (induction n arbitrary: y p)
  case 0
  then show ?case
    by (simp add: ghash_singles.simps blocks16.simps ghash_def)
next
  case (Suc n)
  have "ghash h y (blocks16 (take 16 p)) = viltrum_gf_mul (y XOR viltrum_bswap128 (loadu p)) (g_hp g ! 0)"
    using Suc.prems assms
    by (simp add: blocks16_block ghash_def ghash_step_def gf_mul_is_gf_mult bswap_load powers_ok_def)
  then show ?case
    using Suc ghash_split16 [of 1 "Suc n" p h y] by (subst ghash_singles.simps) simp
qed

lemma ghash_batches_eq:
  assumes "powers_ok h g" "16 * n \<le> length p"
  shows "\<exists>y' p' n'. ghash_batches g y p n = (y', p', n') \<and> 16 * n' \<le> length p'
    \<and> ghash h y (blocks16 (take (16 * n) p)) = ghash h y' (blocks16 (take (16 * n') p'))"
  using assms(2)
proof (induction n arbitrary: y p rule: less_induct)
  case (less n)
  show ?case
  proof (cases "8 \<le> n")
    case True
    have "ghash h y (blocks16 (take (16 * n) p))
      = ghash h (ghash_batch g y p) (blocks16 (take (16 * (n - 8)) (drop 128 p)))"
      using ghash_split16 [OF True less.prems, of h y] ghash_batch_eq [OF assms(1), of p y] True less.prems by simp
    moreover have "\<exists>y' p' n'. ghash_batches g (ghash_batch g y p) (drop 128 p) (n - 8) = (y', p', n') \<and> 16 * n' \<le> length p'
      \<and> ghash h (ghash_batch g y p) (blocks16 (take (16 * (n - 8)) (drop 128 p))) = ghash h y' (blocks16 (take (16 * n') p'))"
      using True less.prems by (intro less.IH) auto
    ultimately show ?thesis
      using True by (simp add: ghash_batches.simps [of g y p n])
  next
    case False
    then show ?thesis
      using less.prems by (simp add: ghash_batches.simps [of g y p n])
  qed
qed

lemma ghash_blocks_eq:
  assumes "powers_ok h g" "16 * n \<le> length p"
  shows "viltrum_ghash_blocks g y p n = ghash h y (blocks16 (take (16 * n) p))"
  using ghash_batches_eq [OF assms, of y] ghash_singles_eq [OF assms(1)]
  by (auto simp: viltrum_ghash_blocks_def)

text \<open>
  The eight-block form of GHASH is GHASH: whatever the length, with a partial last block or without one.
\<close>

lemma ghash_eq:
  assumes "powers_ok h g" "len \<le> length p"
  shows "viltrum_ghash g y p len = ghash h y (blocks16 (take len p))"
proof -
  let ?n = "len div 16" and ?r = "len mod 16"
  have n: "16 * ?n \<le> length p" "len - ?r = 16 * ?n" "len = 16 * ?n + ?r"
    using assms(2) by (auto simp: minus_mod_eq_mult_div [symmetric] intro: order_trans)
  have whole: "viltrum_ghash_blocks g y p ?n = ghash h y (blocks16 (take (16 * ?n) p))"
    by (rule ghash_blocks_eq [OF assms(1) n(1)])
  show ?thesis
  proof (cases "?r = 0")
    case True
    then show ?thesis
      using whole n by (simp add: viltrum_ghash_def)
  next
    case False
    let ?last = "take ?r (drop (16 * ?n) p)"
    have "?r \<le> length p - 16 * ?n"
      using assms(2) n(3) by linarith
    then have last: "length ?last = ?r" "?r < 16"
      by simp_all
    have "blocks16 ?last = [?last @ replicate (16 - ?r) 0]"
      using False last by (subst blocks16.simps) (auto simp: blocks16.simps)
    moreover have "blocks16 (?last @ replicate (16 - ?r) 0) = [?last @ replicate (16 - ?r) 0]"
      using last by (intro blocks16_block) simp
    ultimately have "viltrum_ghash_blocks g (ghash h y (blocks16 (take (16 * ?n) p))) (?last @ replicate (16 - ?r) 0) 1
      = ghash h (ghash h y (blocks16 (take (16 * ?n) p))) (blocks16 ?last)"
      using ghash_blocks_eq [OF assms(1), of 1 "?last @ replicate (16 - ?r) 0"] last by simp
    moreover have "take len p = take (16 * ?n) p @ ?last"
      using n(3) take_add by metis
    moreover have "16 dvd length (take (16 * ?n) p)"
      using n(1) by simp
    ultimately show ?thesis
      using False whole n(2) by (simp add: viltrum_ghash_def blocks16_append ghash_append)
  qed
qed

section \<open>Counter mode\<close>

definition block_fn :: "viltrum_gcm \<Rightarrow> u8 list \<Rightarrow> u8 list" where
  "block_fn g b = mm_bytes (viltrum_aes_block g (mm_of_bytes b))"

lemma length_be32 [simp]: "length (be32 c) = 4"
  by (simp add: be32_def)

lemma length_block_fn [simp]: "length (block_fn g b) = 16"
  by (simp add: block_fn_def)

lemma lane32_insert3: "q < 4 \<Longrightarrow> lane32 (mm_insert_epi32 x v 3) q = (if q = 3 then v else lane32 x q)"
  by (rule bit_word_eqI) (auto simp: bit_lane32 mm_insert_epi32_def bit_simps bit_u32_ge)

lemma ctr_block_bytes:
  assumes "length iv = 12"
  shows "mm_bytes (ctr_block iv c) = iv @ be32 c"
proof -
  let ?low = "\<lambda>x. concat (map (\<lambda>c. word_bytes (lane32 x c)) [0..<3])"
  have split: "mm_bytes x = ?low x @ word_bytes (lane32 x 3)" for x
    unfolding mm_bytes_lanes by (simp add: upt_rec numeral_3_eq_3)
  have "?low (ctr_block iv c) = ?low (ctr_base iv)"
    by (intro arg_cong [where f = concat] map_cong refl) (simp add: ctr_block_def lane32_insert3)
  moreover have "?low (ctr_base iv) @ word_bytes (lane32 (ctr_base iv) 3) = iv @ [0, 0, 0, 0]"
    unfolding split [symmetric] using assms by (simp add: ctr_base_def)
  then have "?low (ctr_base iv) = iv"
    by (rule append_eq_append_conv [THEN iffD1, THEN conjunct1, rotated]) simp
  moreover have "word_bytes (lane32 (ctr_block iv c) 3) = be32 c"
    by (simp add: ctr_block_def lane32_insert3 bswap32_def be32_def)
  ultimately show ?thesis
    unfolding split by simp
qed

lemma xor_load: "16 \<le> length p \<Longrightarrow> mm_bytes (loadu p XOR k) = xor_bytes (take 16 p) (mm_bytes k)"
  using mm_bytes_of_bytes [of "take 16 p"] by (simp add: mm_bytes_xor_bytes mm_of_bytes_take)

lemma keystream: "length iv = 12 \<Longrightarrow> mm_bytes (viltrum_aes_block g (ctr_block iv c)) = block_fn g (iv @ be32 c)"
  by (simp add: block_fn_def ctr_block_bytes [symmetric])

lemma length_gctr [simp]: "length iv = 12 \<Longrightarrow> length (gctr (block_fn g) iv ctr p) = length p"
proof (induction "length p" arbitrary: ctr p rule: less_induct)
  case less
  then show ?case
    by (subst gctr.simps) (auto simp: min_def)
qed

lemma gctr_append:
  assumes "length iv = 12"
  shows "length a = 16 * k \<Longrightarrow> gctr f iv ctr (a @ b) = gctr f iv ctr a @ gctr f iv (ctr + of_nat k) b"
proof (induction k arbitrary: a ctr)
  case 0
  then show ?case
    by (simp add: gctr.simps [of _ _ _ "[]"])
next
  case (Suc k)
  then have "a \<noteq> []" "length (drop 16 a) = 16 * k" "16 \<le> length a"
    by auto
  then show ?case
    using Suc.IH [of "drop 16 a" "ctr + 1"] by (subst (1 2) gctr.simps) (simp add: ac_simps)
qed

lemma gctr_block: "length b = 16 \<Longrightarrow> gctr f iv ctr b = xor_bytes b (f (iv @ be32 ctr))"
  by (subst gctr.simps) (auto simp: gctr.simps [of _ _ _ "[]"])

lemma gctr_blocks:
  assumes "length iv = 12"
  shows "16 * n \<le> length p \<Longrightarrow> gctr f iv ctr (take (16 * n) p)
    = concat (map (\<lambda>k. xor_bytes (take 16 (drop (16 * k) p)) (f (iv @ be32 (ctr + of_nat k)))) [0..<n])"
proof (induction n)
  case 0
  then show ?case
    by (simp add: gctr.simps [of _ _ _ "[]"])
next
  case (Suc n)
  have "take (16 * Suc n) p = take (16 * n) p @ take 16 (drop (16 * n) p)"
    by (simp add: take_add [symmetric] add.commute)
  moreover have "length (take (16 * n) p) = 16 * n" "length (take 16 (drop (16 * n) p)) = 16"
    using Suc.prems by simp_all
  ultimately show ?case
    using Suc by (simp add: gctr_append [OF assms] gctr_block)
qed

text \<open>Eight blocks side by side.\<close>

definition aes_last :: "viltrum_gcm \<Rightarrow> m128i \<Rightarrow> m128i" where
  "aes_last g x = mm_aesenclast_si128 x (g_rk g ! g_nr g)"

lemma rounds8_nth:
  "k < length b \<Longrightarrow> fold (\<lambda>r. map (\<lambda>x. mm_aesenc_si128 x (g_rk g ! r))) rs b ! k
    = fold (\<lambda>r x. mm_aesenc_si128 x (g_rk g ! r)) rs (b ! k)"
  by (induction rs arbitrary: b) simp_all

lemma ctr_chunk8_eq:
  assumes "length iv = 12" "128 \<le> length inp"
  shows "ctr_chunk8 g iv ctr inp = gctr (block_fn g) iv ctr (take 128 inp)"
proof -
  have blk: "mm_aesenclast_si128 (fold (\<lambda>r. map (\<lambda>x. mm_aesenc_si128 x (g_rk g ! r))) [1..<g_nr g] (ctr_start8 g iv ctr) ! k)
      (g_rk g ! g_nr g) = viltrum_aes_block g (ctr_block iv (ctr + of_nat k))" if "k < 8" for k
    using that by (simp add: rounds8_nth ctr_start8_def viltrum_aes_block_def Let_def)
  have "ctr_chunk8 g iv ctr inp
    = concat (map (\<lambda>k. xor_bytes (take 16 (drop (16 * k) inp)) (block_fn g (iv @ be32 (ctr + of_nat k)))) [0..<8])"
    unfolding ctr_chunk8_def ctr_finish8_def
    by (intro arg_cong [where f = concat] map_cong refl)
      (use assms in \<open>simp add: blk xor_load keystream del: One_nat_def\<close>)
  then show ?thesis
    using gctr_blocks [OF assms(1), of 8 inp] assms(2) by simp
qed

lemma ctr_tail_eq:
  assumes "length iv = 12"
  shows "n \<le> length inp \<Longrightarrow> ctr_tail g iv ctr inp n = gctr (block_fn g) iv ctr (take n inp)"
proof (induction n arbitrary: ctr inp rule: less_induct)
  case (less n)
  consider "n = 0" | "0 < n" "n < 16" | "16 \<le> n" by linarith
  then show ?case
  proof cases
    case 1
    then show ?thesis
      by (simp add: ctr_tail.simps gctr.simps)
  next
    case 2
    then have "take n inp \<noteq> []" "drop 16 (take n inp) = []" "take 16 (take n inp) = take n inp"
      using less.prems by auto
    then show ?thesis
      using 2 assms by (subst gctr.simps, subst ctr_tail.simps) (simp add: keystream gctr.simps [of _ _ _ "[]"])
  next
    case 3
    have "take n inp = take 16 inp @ take (n - 16) (drop 16 inp)"
      using 3 take_add [of 16 "n - 16" inp] by simp
    then have "gctr (block_fn g) iv ctr (take n inp)
      = gctr (block_fn g) iv ctr (take 16 inp) @ gctr (block_fn g) iv (ctr + 1) (take (n - 16) (drop 16 inp))"
      using gctr_append [OF assms, of "take 16 inp" 1] 3 less.prems by simp
    then show ?thesis
      using 3 less assms by (subst ctr_tail.simps) (simp add: gctr_block xor_load keystream)
  qed
qed

lemma ctr_from_eq:
  assumes "length iv = 12"
  shows "n \<le> length inp \<Longrightarrow> viltrum_gcm_ctr_from g iv ctr inp n = gctr (block_fn g) iv ctr (take n inp)"
  unfolding viltrum_gcm_ctr_from_def
proof (induction n arbitrary: ctr inp rule: less_induct)
  case (less n)
  show ?case
  proof (cases "128 \<le> n")
    case True
    have "take n inp = take 128 inp @ take (n - 128) (drop 128 inp)"
      using True take_add [of 128 "n - 128" inp] by simp
    then have "gctr (block_fn g) iv ctr (take n inp)
      = gctr (block_fn g) iv ctr (take 128 inp) @ gctr (block_fn g) iv (ctr + 8) (take (n - 128) (drop 128 inp))"
      using gctr_append [OF assms, of "take 128 inp" 8] True less.prems by simp
    then show ?thesis
      using True less assms by (subst ctr_chunks.simps) (simp add: ctr_chunk8_eq)
  next
    case False
    then show ?thesis
      using less.prems assms by (subst ctr_chunks.simps) (simp add: ctr_tail_eq)
  qed
qed

section \<open>The one pass\<close>

lemma fold_enc_round:
  "fold (enc_round g x) rs (b, acc) =
     (fold (\<lambda>r. map (\<lambda>v. mm_aesenc_si128 v (g_rk g ! r))) rs b,
      fold (\<lambda>r acc. if r \<le> 8 then viltrum_clmul_kar (x ! (r - 1)) (g_hp g ! (8 - r)) (g_hk g ! (8 - r)) acc else acc) rs acc)"
  by (induction rs arbitrary: b acc) (simp_all add: enc_round_def)

lemma fold_skip: "(\<And>r. r \<in> set rs \<Longrightarrow> \<not> P r) \<Longrightarrow> fold (\<lambda>r acc. if P r then f r acc else acc) rs acc = acc"
  by (induction rs) simp_all

text \<open>There are rounds enough for the eight multiplications.\<close>

lemma enc_sums:
  assumes "9 \<le> nr"
  shows "fold (\<lambda>r acc. if r \<le> 8 then viltrum_clmul_kar (x ! (r - 1)) (g_hp g ! (8 - r)) (g_hk g ! (8 - r)) acc else acc)
      [1..<nr] acc = kar_batch g x acc"
proof -
  have "[1..<nr] = [1..<9] @ [9..<nr]"
    using assms upt_add_eq_append [of 1 9 "nr - 9"] by simp
  moreover have "[1..<9] = [1, 2, 3, 4, 5, 6, 7, 8]"
    by (simp add: upt_rec)
  moreover have "fold (\<lambda>r acc. if r \<le> 8 then viltrum_clmul_kar (x ! (r - 1)) (g_hp g ! (8 - r)) (g_hk g ! (8 - r)) acc else acc)
      [9..<nr] a = a" for a
    by (rule fold_skip) auto
  ultimately show ?thesis
    by (simp add: kar_batch_def upt_0_8)
qed

lemma enc_chunk_eq:
  assumes "9 \<le> g_nr g"
  shows "enc_chunk g iv ctr inp j (out, acc) =
    (out @ ctr_chunk8 g iv (ctr + 8 * of_nat j) (drop (128 * j) inp), ghash_batch g acc (drop (128 * (j - 1)) out))"
  unfolding enc_chunk_def prod.case Let_def fold_enc_round enc_sums [OF assms] ghash_batch_kar batch_inputs_def ctr_chunk8_def ..

lemma gctr_take:
  assumes "length iv = 12" "16 * (m + n) \<le> length p"
  shows "gctr f iv ctr (take (16 * m) p) @ gctr f iv (ctr + of_nat m) (take (16 * n) (drop (16 * m) p))
    = gctr f iv ctr (take (16 * (m + n)) p)"
proof -
  have "take (16 * (m + n)) p = take (16 * m) p @ take (16 * n) (drop (16 * m) p)"
    by (simp add: take_add add_mult_distrib2)
  then show ?thesis
    using gctr_append [OF assms(1), of "take (16 * m) p" m] assms(2) by simp
qed

lemma enc_chunks_inv:
  assumes "length iv = 12" "powers_ok h g" "9 \<le> g_nr g" "0 < n" "128 * n \<le> length inp"
  shows "fold (enc_chunk g iv ctr inp) [1..<n] (viltrum_gcm_ctr_from g iv ctr inp 128, y)
    = (gctr (block_fn g) iv ctr (take (128 * n) inp),
       ghash h y (blocks16 (take (128 * (n - 1)) (gctr (block_fn g) iv ctr (take (128 * n) inp)))))"
  using assms(4,5)
proof (induction n)
  case (Suc n)
  show ?case
  proof (cases "n = 0")
    case True
    then show ?thesis
      using Suc.prems assms(1) by (simp add: ctr_from_eq blocks16.simps ghash_def)
  next
    case False
    let ?c = "\<lambda>n. gctr (block_fn g) iv ctr (take (128 * n) inp)"
    have ih: "fold (enc_chunk g iv ctr inp) [1..<n] (viltrum_gcm_ctr_from g iv ctr inp 128, y)
      = (?c n, ghash h y (blocks16 (take (128 * (n - 1)) (?c n))))"
      using Suc False by simp
    have len: "length (?c n) = 128 * n"
      using Suc.prems assms(1) by simp
    have grow: "?c n @ ctr_chunk8 g iv (ctr + 8 * of_nat n) (drop (128 * n) inp) = ?c (Suc n)"
      using gctr_take [OF assms(1), of "8 * n" 8 inp "block_fn g" ctr] Suc.prems assms(1)
      by (simp add: ctr_chunk8_eq algebra_simps)
    have "ghash_batch g (ghash h y (blocks16 (take (128 * (n - 1)) (?c n)))) (drop (128 * (n - 1)) (?c n))
      = ghash h y (blocks16 (?c n))"
      using ghash_split16 [of "8 * (n - 1)" "8 * n" "?c n" h y]
        ghash_batch_eq [OF assms(2), of "drop (128 * (n - 1)) (?c n)"] len False
      by (simp add: diff_mult_distrib2 [symmetric])
    moreover have "?c n = take (128 * n) (?c (Suc n))"
      using grow len by (metis append_eq_conv_conj)
    moreover have "fold (enc_chunk g iv ctr inp) [1..<Suc n] (viltrum_gcm_ctr_from g iv ctr inp 128, y)
      = (?c (Suc n), ghash_batch g (ghash h y (blocks16 (take (128 * (n - 1)) (?c n)))) (drop (128 * (n - 1)) (?c n)))"
      using False ih by (simp add: enc_chunk_eq [OF assms(3)] grow del: One_nat_def mult_Suc_right)
    ultimately show ?thesis
      by (simp only: diff_Suc_1)
  qed
qed simp

lemma enc_ghash_eq:
  assumes "length iv = 12" "powers_ok h g" "9 \<le> g_nr g" "n \<le> length inp"
  shows "viltrum_gcm_enc_ghash g iv ctr inp n y =
    (let c = gctr (block_fn g) iv ctr (take (128 * (n div 128)) inp)
     in (128 * (n div 128), c, ghash h y (blocks16 c)))"
proof (cases "n div 128 = 0")
  case True
  then show ?thesis
    by (simp add: viltrum_gcm_enc_ghash_def gctr.simps blocks16.simps ghash_def)
next
  case False
  let ?n = "n div 128"
  let ?c = "gctr (block_fn g) iv ctr (take (128 * ?n) inp)"
  have n: "128 * ?n \<le> length inp"
    using assms(4) by (metis div_times_less_eq_dividend mult.commute order_trans)
  have len: "length ?c = 128 * ?n"
    using assms(1) n by simp
  have "viltrum_ghash_blocks g (ghash h y (blocks16 (take (128 * (?n - 1)) ?c))) (drop (128 * (?n - 1)) ?c) 8 = ghash h y (blocks16 ?c)"
    using ghash_split16 [of "8 * (?n - 1)" "8 * ?n" ?c h y]
      ghash_blocks_eq [OF assms(2), of 8 "drop (128 * (?n - 1)) ?c"] len False
    by (simp add: diff_mult_distrib2 [symmetric])
  then show ?thesis
    using enc_chunks_inv [OF assms(1-3), of ?n inp ctr y] False n
    by (simp add: viltrum_gcm_enc_ghash_def Let_def mult.commute del: One_nat_def)
qed

section \<open>The tag\<close>

lemma be64_lengths: "mm_set_epi64x a b = be_block (be64 a @ be64 b)"
proof -
  have "mm_bytes (mm_set_epi64x a b) = rev (be64 a @ be64 b)"
  proof -
    have "(ucast (drop_bit (8 * i) (mm_set_epi64x a b)) :: u8) = ucast (drop_bit (8 * i) b)" if "i < 8" for i
      using that by (intro bit_word_eqI) (auto simp: mm_set_epi64x_def bit_simps)
    moreover have "(ucast (drop_bit (8 * (8 + i)) (mm_set_epi64x a b)) :: u8) = ucast (drop_bit (8 * i) a)" if "i < 8" for i
      using that by (intro bit_word_eqI) (auto simp: mm_set_epi64x_def bit_simps algebra_simps dest: bit_imp_le_length)
    moreover have "[0..<16] = [0..<8] @ map (\<lambda>i. 8 + i) [0..<8]"
      by (simp add: upt_rec)
    ultimately show ?thesis
      by (simp add: mm_bytes_def be64_def)
  qed
  then show ?thesis
    unfolding be_block_def by (metis mm_of_bytes_bytes)
qed

lemma gcm_tag_eq:
  assumes "length iv = 12" "powers_ok h g"
  shows "viltrum_gcm_tag g iv y alen n
    = gctr (block_fn g) iv 1 (rev (mm_bytes (ghash h y [be64 (of_nat alen * 8) @ be64 (of_nat n * 8)])))"
proof -
  have be1: "be32 1 = [0, 0, 0, 1]"
    by (simp add: be32_def word_bytes_def upt_rec)
  have "block_fn g (iv @ be32 1) = mm_bytes (viltrum_aes_block g (loadu (take 12 iv @ [0, 0, 0, 1])))"
    using assms(1) by (simp add: block_fn_def be1)
  then show ?thesis
    using assms
    by (simp add: viltrum_gcm_tag_def Let_def gctr_block mm_bytes_xor_bytes bswap_eq ghash_def ghash_step_def
        be64_lengths gf_mul_is_gf_mult powers_ok_def)
qed

section \<open>Sealing and opening\<close>

definition hash_key :: "viltrum_gcm \<Rightarrow> m128i" where
  "hash_key g = be_block (block_fn g (replicate 16 0))"

definition gcm_ready :: "viltrum_gcm \<Rightarrow> bool" where
  "gcm_ready g \<longleftrightarrow> powers_ok (hash_key g) g \<and> 9 \<le> g_nr g"

lemma gctr_parts:
  assumes "length iv = 12" "16 * k \<le> length p"
  shows "gctr f iv ctr (take (16 * k) p) @ gctr f iv (ctr + of_nat k) (drop (16 * k) p) = gctr f iv ctr p"
  using gctr_append [OF assms(1), of "take (16 * k) p" k f ctr "drop (16 * k) p"] assms(2) by simp

text \<open>The tag from what the one pass has hashed and what is left.\<close>

lemma tag_of_parts:
  assumes iv: "length iv = 12" and h: "powers_ok (hash_key g) g" and c: "c = out @ rest" and out: "16 dvd length out"
  shows "viltrum_gcm_tag g iv (viltrum_ghash g (ghash (hash_key g) (viltrum_ghash g 0 aad (length aad)) (blocks16 out))
      rest (length rest)) (length aad) (length c) = gcm_tag (block_fn g) iv aad c"
  using ghash_eq [OF h, of "length aad" aad 0] ghash_eq [OF h, of "length rest" rest] blocks16_append [OF out, of rest]
  by (simp add: gcm_tag_eq [OF iv h] gcm_tag_def gcm_hash_def hash_key_def [symmetric] ghash_append c)

lemma seal_eq:
  assumes "length iv = 12" "gcm_ready g"
  shows "viltrum_gcm_seal g iv aad inp =
    (gcm_encrypt (block_fn g) iv inp, gcm_tag (block_fn g) iv aad (gcm_encrypt (block_fn g) iv inp))"
proof -
  let ?k = "8 * (length inp div 128)"
  let ?m = "128 * (length inp div 128)"
  have h: "powers_ok (hash_key g) g" "9 \<le> g_nr g"
    using assms(2) by (simp_all add: gcm_ready_def)
  have m: "?m div 16 = ?k"
    by simp
  let ?out = "gctr (block_fn g) iv 2 (take ?m inp)"
  let ?rest = "gctr (block_fn g) iv (2 + of_nat ?k) (drop ?m inp)"
  have c: "gctr (block_fn g) iv 2 inp = ?out @ ?rest"
    using gctr_parts [OF assms(1), of ?k inp "block_fn g" 2] by simp
  have rest: "viltrum_gcm_ctr_from g iv (2 + of_nat ?k) (drop ?m inp) (length inp - ?m) = ?rest"
    using ctr_from_eq [OF assms(1), of "length inp - ?m" "drop ?m inp"] by simp
  have len: "length ?rest = length inp - ?m" "16 dvd length ?out" "length (gctr (block_fn g) iv 2 inp) = length inp"
    using assms(1) by simp_all
  show ?thesis
    unfolding viltrum_gcm_seal_def Let_def enc_ghash_eq [OF assms(1) h order_refl] prod.case m rest gcm_encrypt_def
    using tag_of_parts [OF assms(1) h(1) c len(2), of aad] c unfolding len by simp
qed

lemma seal_record_eq:
  assumes "length iv = 12" "gcm_ready g"
  shows "viltrum_gcm_seal_record g iv aad inp typ = viltrum_gcm_seal g iv aad (inp @ [typ])"
proof -
  let ?p = "inp @ [typ]" and ?n = "length inp"
  define f where "f = ?n div 16"
  define k where "k = 8 * (16 * f div 128)"
  have h: "powers_ok (hash_key g) g" "9 \<le> g_nr g"
    using assms(2) by (simp_all add: gcm_ready_def)
  have full: "?n - ?n mod 16 = 16 * f" "16 * f \<le> ?n"
    by (simp_all add: f_def minus_mod_eq_mult_div)
  have fin: "128 * (16 * f div 128) = 16 * k" "16 * k \<le> 16 * f" "16 * k div 16 = k" "16 * f div 16 = f"
    using div_times_less_eq_dividend [of "16 * f" 128] by (simp_all add: k_def)
  let ?out = "gctr (block_fn g) iv 2 (take (16 * k) inp)"
  let ?mid = "gctr (block_fn g) iv (2 + of_nat k) (take (16 * f - 16 * k) (drop (16 * k) inp))"
  let ?last = "take (?n - 16 * f) (drop (16 * f) inp) @ [typ]"
  let ?tail = "gctr (block_fn g) iv (2 + of_nat f) (drop (16 * f) ?p)"
  have last: "?last = drop (16 * f) ?p"
    using full(2) by simp
  have mid: "viltrum_gcm_ctr_from g iv (2 + of_nat k) (drop (16 * k) inp) (16 * f - 16 * k) = ?mid"
    using full fin by (intro ctr_from_eq [OF assms(1)]) simp
  have tail: "viltrum_gcm_ctr_from g iv (2 + of_nat f) (drop (16 * f) ?p) (?n - 16 * f + 1) = ?tail"
    using full(2) ctr_from_eq [OF assms(1), of "?n - 16 * f + 1" "drop (16 * f) ?p"] by simp
  have "?mid @ ?tail = gctr (block_fn g) iv (2 + of_nat k) (drop (16 * k) ?p)"
    using gctr_parts [OF assms(1), of "f - k" "drop (16 * k) ?p" "block_fn g" "2 + of_nat k"] full fin
    by (simp add: diff_mult_distrib2 of_nat_diff)
  then have c: "gctr (block_fn g) iv 2 ?p = ?out @ (?mid @ ?tail)"
    using gctr_parts [OF assms(1), of k ?p "block_fn g" 2] full fin by simp
  have len: "length (?mid @ ?tail) = ?n + 1 - 16 * k" "16 dvd length ?out" "length (gctr (block_fn g) iv 2 ?p) = ?n + 1"
    using assms(1) full fin by simp_all
  have fle: "16 * f \<le> length inp" by (rule full(2))
  show ?thesis
    unfolding seal_eq [OF assms] viltrum_gcm_seal_record_def Let_def full(1) enc_ghash_eq [OF assms(1) h fle] prod.case fin
      last mid tail gcm_encrypt_def
    using tag_of_parts [OF assms(1) h(1) c len(2), of aad] c unfolding len by simp
qed

lemma fold_or_zero: "fold (\<lambda>i d. d OR f i) is d = (0 :: 'a::len word) \<longleftrightarrow> d = 0 \<and> (\<forall>i \<in> set is. f i = 0)"
proof (induction "is" arbitrary: d)
  case (Cons i "is")
  then show ?case
    by (auto simp: bit_eq_iff bit_simps)
qed simp

lemma ucast_eq_0_u8: "(ucast (x :: u8) :: u32) = 0 \<longleftrightarrow> x = 0"
proof
  assume "(ucast x :: u32) = 0"
  then have "unat (ucast x :: u32) = 0" by simp
  then show "x = 0"
    by (simp add: unsigned_ucast_eq take_bit_nat_eq_self unsigned_less [THEN order_less_trans] unat_eq_zero)
qed simp

lemma tag_diff_iff:
  assumes "length want = 16" "length tag = 16"
  shows "tag_diff want tag = 0 \<longleftrightarrow> want = tag"
proof -
  have "tag_diff want tag = 0 \<longleftrightarrow> (\<forall>i < 16. want ! i XOR tag ! i = 0)"
    by (auto simp: tag_diff_def fold_or_zero ucast_eq_0_u8)
  also have "\<dots> \<longleftrightarrow> (\<forall>i < 16. want ! i = tag ! i)"
    by (auto simp: bit_eq_iff bit_simps)
  also have "\<dots> \<longleftrightarrow> want = tag"
    using assms by (auto intro: nth_equalityI)
  finally show ?thesis .
qed

lemma length_gcm_tag [simp]: "length iv = 12 \<Longrightarrow> length (gcm_tag (block_fn g) iv aad c) = 16"
  by (simp add: gcm_tag_def gcm_hash_def)

lemma open_eq:
  assumes "length iv = 12" "gcm_ready g" "length tag = 16"
  shows "viltrum_gcm_open g iv aad c tag =
    (if tag = gcm_tag (block_fn g) iv aad c then (0, Some (gcm_encrypt (block_fn g) iv c)) else (- 1, None))"
proof -
  have h: "powers_ok (hash_key g) g"
    using assms(2) by (simp add: gcm_ready_def)
  have "viltrum_gcm_tag g iv (viltrum_ghash g (viltrum_ghash g 0 aad (length aad)) c (length c)) (length aad) (length c)
    = gcm_tag (block_fn g) iv aad c"
    using tag_of_parts [OF assms(1) h, of c "[]" c aad] by (simp add: ghash_def blocks16.simps)
  then show ?thesis
    using assms tag_diff_iff [of "gcm_tag (block_fn g) iv aad c" tag]
    by (auto simp: viltrum_gcm_open_def Let_def viltrum_gcm_ctr_def ctr_from_eq gcm_encrypt_def)
qed

lemma xor_bytes_twice: "length a \<le> length k \<Longrightarrow> xor_bytes (xor_bytes a k) k = a"
proof (induction a arbitrary: k)
  case (Cons x a)
  then show ?case
    by (cases k) (auto simp: xor_bytes_def xor.assoc)
qed (simp add: xor_bytes_def)

lemma gctr_twice:
  assumes "length iv = 12" "\<And>b. length (f b) = 16"
  shows "gctr f iv ctr (gctr f iv ctr p) = p"
proof (induction "length p" arbitrary: ctr p rule: less_induct)
  case less
  show ?case
  proof (cases "p = []")
    case False
    let ?x = "xor_bytes (take 16 p) (f (iv @ be32 ctr))"
    have "length ?x = min 16 (length p)"
      using assms(2) by (simp add: xor_bytes_def)
    then have x: "length ?x = min 16 (length p)" "?x \<noteq> []"
      using False by (metis length_0_conv min_0R min_def zero_neq_numeral)+
    have rec: "gctr f iv (ctr + 1) (gctr f iv (ctr + 1) (drop 16 p)) = drop 16 p"
      using False by (intro less) simp
    have again: "xor_bytes ?x (f (iv @ be32 ctr)) = take 16 p"
      using assms(2) by (simp add: xor_bytes_twice)
    have e: "gctr f iv ctr p = ?x @ gctr f iv (ctr + 1) (drop 16 p)"
      using False by (subst gctr.simps) simp
    show ?thesis
    proof (cases "16 \<le> length p")
      case True
      then show ?thesis
        unfolding e using x rec again by (subst gctr.simps) simp
    next
      case short: False
      then have "gctr f iv (ctr + 1) (drop 16 p) = []"
        by (simp add: gctr.simps)
      then show ?thesis
        unfolding e using x again short by (subst gctr.simps) (simp add: gctr.simps)
    qed
  qed (simp add: gctr.simps)
qed

section \<open>Setting the key\<close>

definition gcm_shape :: "viltrum_gcm \<Rightarrow> bool" where
  "gcm_shape g \<longleftrightarrow> length (g_rk g) = 15 \<and> length (g_hp g) = 8 \<and> length (g_hk g) = 8"

lemma init_hp:
  assumes "length (g_hp g) = 8" "0 < n" "n \<le> 8"
  shows "\<exists>hp. fold (\<lambda>i g. g\<lparr>g_hp := (g_hp g)[i := viltrum_gf_mul (g_hp g ! (i - 1)) h]\<rparr>) [1..<n] (g\<lparr>g_hp := (g_hp g)[0 := h]\<rparr>)
      = g\<lparr>g_hp := hp\<rparr> \<and> length hp = 8 \<and> (\<forall>i < n. hp ! i = gf_pow h i)"
  using assms(2,3)
proof (induction n)
  case (Suc n)
  show ?case
  proof (cases "n = 0")
    case False
    let ?step = "\<lambda>i g. g\<lparr>g_hp := (g_hp g)[i := viltrum_gf_mul (g_hp g ! (i - 1)) h]\<rparr>"
    obtain hp where hp: "fold ?step [1..<n] (g\<lparr>g_hp := (g_hp g)[0 := h]\<rparr>) = g\<lparr>g_hp := hp\<rparr>"
      "length hp = 8" "\<forall>i < n. hp ! i = gf_pow h i"
      using Suc False by auto
    obtain m where m: "n = Suc m" using False by (cases n) auto
    have "fold ?step [1..<Suc n] (g\<lparr>g_hp := (g_hp g)[0 := h]\<rparr>) = g\<lparr>g_hp := hp[n := gf_pow h n]\<rparr>"
      using False hp(1,3) m by (simp add: gf_mul_is_gf_mult del: One_nat_def)
    then show ?thesis
      using hp(2,3) Suc.prems by (intro exI [of _ "hp[n := gf_pow h n]"]) (auto simp: less_Suc_eq nth_list_update)
  qed (use assms(1) in \<open>auto intro!: exI [of _ "(g_hp g)[0 := h]"]\<close>)
qed simp

lemma init_hk:
  assumes "length (g_hk g) = 8" "n \<le> 8"
  shows "\<exists>hk. fold (\<lambda>i g. g\<lparr>g_hk := (g_hk g)[i := g_hp g ! i XOR mm_shuffle_epi32 (g_hp g ! i) 0x4e]\<rparr>) [0..<n] g
      = g\<lparr>g_hk := hk\<rparr> \<and> length hk = 8 \<and> (\<forall>i < n. hk ! i = kar_halves (g_hp g ! i))"
  using assms(2)
proof (induction n)
  case 0
  then show ?case
    using assms(1) by (intro exI [of _ "g_hk g"]) simp
next
  case (Suc n)
  then obtain hk where hk: "fold (\<lambda>i g. g\<lparr>g_hk := (g_hk g)[i := g_hp g ! i XOR mm_shuffle_epi32 (g_hp g ! i) 0x4e]\<rparr>) [0..<n] g
      = g\<lparr>g_hk := hk\<rparr>" "length hk = 8" "\<forall>i < n. hk ! i = kar_halves (g_hp g ! i)"
    by auto
  then show ?case
    using Suc.prems by (intro exI [of _ "hk[n := kar_halves (g_hp g ! n)]"])
      (auto simp: less_Suc_eq nth_list_update kar_halves_def)
qed

lemma init_powers_ok:
  assumes "length (g_hp g) = 8" "length (g_hk g) = 8"
  shows "\<exists>hp hk. gcm_init_powers g h = g\<lparr>g_hp := hp, g_hk := hk\<rparr> \<and> length hp = 8 \<and> length hk = 8
    \<and> powers_ok h (gcm_init_powers g h)"
proof -
  obtain hp where hp: "fold (\<lambda>i g. g\<lparr>g_hp := (g_hp g)[i := viltrum_gf_mul (g_hp g ! (i - 1)) h]\<rparr>) [1..<8] (g\<lparr>g_hp := (g_hp g)[0 := h]\<rparr>)
      = g\<lparr>g_hp := hp\<rparr>" "length hp = 8" "\<forall>i < 8. hp ! i = gf_pow h i"
    using init_hp [OF assms(1), of 8 h] by auto
  obtain hk where hk: "fold (\<lambda>i g. g\<lparr>g_hk := (g_hk g)[i := g_hp g ! i XOR mm_shuffle_epi32 (g_hp g ! i) 0x4e]\<rparr>) [0..<8] (g\<lparr>g_hp := hp\<rparr>)
      = g\<lparr>g_hp := hp, g_hk := hk\<rparr>" "length hk = 8" "\<forall>i < 8. hk ! i = kar_halves (hp ! i)"
    using init_hk [of "g\<lparr>g_hp := hp\<rparr>" 8] assms(2) by auto
  have "gcm_init_powers g h = g\<lparr>g_hp := hp, g_hk := hk\<rparr>"
    unfolding gcm_init_powers_def Let_def hp(1) hk(1) ..
  then show ?thesis
    using hp(2,3) hk(2,3) by (intro exI [of _ hp] exI [of _ hk]) (simp add: powers_ok_def)
qed

lemma expand_keeps: "g_hp (viltrum_aes_expand g key n) = g_hp g" "g_hk (viltrum_aes_expand g key n) = g_hk g"
  by (simp_all add: viltrum_aes_expand_def Let_def)

lemma aes_block_cong: "g_rk g = g_rk g' \<Longrightarrow> g_nr g = g_nr g' \<Longrightarrow> viltrum_aes_block g = viltrum_aes_block g'"
  by (simp add: viltrum_aes_block_def fun_eq_iff)

lemma gcm_init_ok:
  assumes "length key = 16 \<or> length key = 32" "gcm_shape g"
  obtains g' where "viltrum_gcm_init g key (int (length key)) = (0, g')" "gcm_ready g'" "gcm_shape g'"
    "\<And>b. length b = 16 \<Longrightarrow> block_fn g' b = aes_encrypt key b"
proof -
  let ?e = "viltrum_aes_expand g key (int (length key))"
  let ?h = "viltrum_bswap128 (viltrum_aes_block ?e 0)"
  obtain hp hk where g': "gcm_init_powers ?e ?h = ?e\<lparr>g_hp := hp, g_hk := hk\<rparr>" "length hp = 8" "length hk = 8"
    "powers_ok ?h (gcm_init_powers ?e ?h)"
    using init_powers_ok [of ?e ?h] assms(2) by (auto simp: gcm_shape_def expand_keeps)
  let ?g = "gcm_init_powers ?e ?h"
  have rk: "length (g_rk ?e) = 15" "g_nr ?e = aes_rounds key"
    using aes_expand_holds [OF assms(1), of g] assms(2) by (simp_all add: gcm_shape_def rk_holds_def)
  have blk: "viltrum_aes_block ?g = viltrum_aes_block ?e"
    by (rule aes_block_cong) (simp_all add: g'(1))
  have enc: "block_fn ?g b = aes_encrypt key b" if "length b = 16" for b
    using aes_block_is_fips197 [OF assms(1) _ that, of g] assms(2) by (simp add: block_fn_def blk gcm_shape_def)
  have zero: "mm_of_bytes (replicate 16 0) = 0"
    by (simp add: mm_of_bytes_def)
  have "hash_key ?g = ?h"
    unfolding hash_key_def block_fn_def blk zero by (simp add: bswap_eq be_block_def)
  then have "gcm_ready ?g"
    using g'(4) rk(2) assms(1) by (auto simp: gcm_ready_def g'(1) aes_rounds_def)
  moreover have "viltrum_gcm_init g key (int (length key)) = (0, ?g)"
    using assms(1) by (auto simp: viltrum_gcm_init_def Let_def)
  moreover have "gcm_shape ?g"
    using rk(1) g'(2,3) by (simp add: gcm_shape_def g'(1))
  ultimately show thesis
    using enc that by blast
qed

section \<open>Authenticated encryption as an interface\<close>

text \<open>
  What a record layer relies on, for a context with its key set: the lengths, that opening gives back what was
  sealed, and that any other tag is refused.
\<close>

locale aead =
  fixes aead_ready :: "'g \<Rightarrow> bool"
    and aead_seal :: "'g \<Rightarrow> u8 list \<Rightarrow> u8 list \<Rightarrow> u8 list \<Rightarrow> u8 list \<times> u8 list"
    and aead_open :: "'g \<Rightarrow> u8 list \<Rightarrow> u8 list \<Rightarrow> u8 list \<Rightarrow> u8 list \<Rightarrow> u8 list option"
  assumes seal_lengths: "aead_ready g \<Longrightarrow> length iv = 12 \<Longrightarrow>
      length (fst (aead_seal g iv aad p)) = length p \<and> length (snd (aead_seal g iv aad p)) = 16"
    and open_sealed: "aead_ready g \<Longrightarrow> length iv = 12 \<Longrightarrow> length tag = 16 \<Longrightarrow>
      aead_open g iv aad (fst (aead_seal g iv aad p)) tag = (if tag = snd (aead_seal g iv aad p) then Some p else None)"

lemma open_of_seal:
  assumes "gcm_ready g" "length iv = 12" "length tag = 16"
  shows "viltrum_gcm_open g iv aad (fst (viltrum_gcm_seal g iv aad p)) tag
    = (if tag = snd (viltrum_gcm_seal g iv aad p) then (0, Some p) else (- 1, None))"
  using assms by (simp add: seal_eq open_eq gcm_encrypt_def gctr_twice)

interpretation gcm: aead gcm_ready viltrum_gcm_seal "\<lambda>g iv aad c tag. snd (viltrum_gcm_open g iv aad c tag)"
  by unfold_locales (simp_all add: open_of_seal, simp_all add: seal_eq gcm_encrypt_def)

section \<open>Properties\<close>

lemma gctr_cong:
  assumes "length iv = 12" "\<And>b. length b = 16 \<Longrightarrow> f b = f' b"
  shows "gctr f iv ctr p = gctr f' iv ctr p"
proof (induction "length p" arbitrary: ctr p rule: less_induct)
  case less
  have "f (iv @ be32 ctr) = f' (iv @ be32 ctr)"
    using assms by simp
  then show ?case
    using less [of "drop 16 p"] by (subst (1 2) gctr.simps) auto
qed

lemma gcm_cong:
  assumes "length iv = 12" "\<And>b. length b = 16 \<Longrightarrow> f b = f' b"
  shows "gcm_encrypt f iv p = gcm_encrypt f' iv p" "gcm_tag f iv aad c = gcm_tag f' iv aad c"
  using gctr_cong [OF assms] assms(2) by (simp_all add: gcm_encrypt_def gcm_tag_def gcm_hash_def)

text \<open>
  C6. A context set up with a 16-byte or a 32-byte key seals as AES-GCM of SP 800-38D: whatever the lengths of
  the additional data and the plaintext, the ciphertext is the counter mode of FIPS 197's cipher and the tag is
  that of GHASH with the hash key. This covers the pass that encrypts one chunk while it hashes the one before.
\<close>

theorem gcm_seal_is_sp800_38d:
  assumes "length key = 16 \<or> length key = 32" "gcm_shape g" "length iv = 12"
  shows "viltrum_gcm_seal (snd (viltrum_gcm_init g key (int (length key)))) iv aad p =
    (let c = gcm_encrypt (aes_encrypt key) iv p in (c, gcm_tag (aes_encrypt key) iv aad c))"
proof -
  obtain g' where g': "viltrum_gcm_init g key (int (length key)) = (0, g')" "gcm_ready g'"
    "\<And>b. length b = 16 \<Longrightarrow> block_fn g' b = aes_encrypt key b"
    using gcm_init_ok [OF assms(1,2)] by metis
  show ?thesis
    using gcm_cong [OF assms(3) g'(3)] by (simp add: g'(1) seal_eq [OF assms(3) g'(2)] Let_def)
qed

text \<open>
  C9. Opening what was sealed, with the same key, nonce and additional data, returns 0 and the plaintext when
  the tag is the one sealed; with any other tag it returns -1 and writes nothing.
\<close>

theorem gcm_open_seal:
  assumes "length key = 16 \<or> length key = 32" "gcm_shape g0" "viltrum_gcm_init g0 key (int (length key)) = (0, g)"
    and "length iv = 12" "length tag = 16" "viltrum_gcm_seal g iv aad p = (c, t)"
  shows "viltrum_gcm_open g iv aad c tag = (if tag = t then (0, Some p) else (- 1, None))"
proof -
  have "gcm_ready g"
    using gcm_init_ok [OF assms(1,2)] assms(3) by (metis prod.inject)
  from open_of_seal [OF this assms(4,5), of aad p] show ?thesis
    by (simp add: assms(6))
qed

text \<open>
  C32. Sealing a record without copying it, the content followed by its type byte, gives what sealing the copy
  gives.
\<close>

theorem gcm_seal_record_equals_seal:
  assumes "length key = 16 \<or> length key = 32" "gcm_shape g0" "viltrum_gcm_init g0 key (int (length key)) = (0, g)"
    and "length iv = 12"
  shows "viltrum_gcm_seal_record g iv aad inp typ = viltrum_gcm_seal g iv aad (inp @ [typ])"
proof -
  have "gcm_ready g"
    using gcm_init_ok [OF assms(1,2)] assms(3) by (metis prod.inject)
  then show ?thesis
    by (rule seal_record_eq [OF assms(4)])
qed

text \<open>
  C33. Setting a key in a context that is new, wiped or keyed before returns 0 exactly for keys of 16 and 32
  bytes, and then the context holds the key schedule and the powers of the hash key every later call relies on;
  another length returns -1 and changes nothing.
\<close>

theorem gcm_init_result:
  assumes "viltrum_gcm_new True = Some g \<or> g = viltrum_gcm_wipe g1 \<or> gcm_shape g"
  shows "case viltrum_gcm_init g key (int (length key)) of (ret, g') \<Rightarrow>
    if length key = 16 \<or> length key = 32 then ret = 0 \<and> gcm_ready g' \<and> gcm_shape g' else ret = - 1 \<and> g' = g"
proof (cases "length key = 16 \<or> length key = 32")
  case True
  have "gcm_shape g"
    using assms by (auto simp: viltrum_gcm_new_def viltrum_gcm_wipe_def gcm_shape_def gcm_zero_def)
  then obtain g' where "viltrum_gcm_init g key (int (length key)) = (0, g')" "gcm_ready g'" "gcm_shape g'"
    using gcm_init_ok [OF True] by metis
  then show ?thesis
    using True by simp
qed (auto simp: viltrum_gcm_init_def)

subsection \<open>Witnesses\<close>

lemma gcm_zero_shape: "gcm_shape gcm_zero"
  by (simp add: gcm_shape_def gcm_zero_def)

definition demo_gcm :: viltrum_gcm where
  "demo_gcm = snd (viltrum_gcm_init gcm_zero (replicate 16 7) 16)"

lemma demo_gcm_init: "viltrum_gcm_init gcm_zero (replicate 16 7) 16 = (0, demo_gcm)"
  by (simp add: demo_gcm_def viltrum_gcm_init_def Let_def)

lemma gcm_seal_is_sp800_38d_witness:
  "viltrum_gcm_seal (snd (viltrum_gcm_init gcm_zero (replicate 16 7) 16)) (replicate 12 1) [2, 3] [4, 5, 6] =
    (let c = gcm_encrypt (aes_encrypt (replicate 16 7)) (replicate 12 1) [4, 5, 6]
     in (c, gcm_tag (aes_encrypt (replicate 16 7)) (replicate 12 1) [2, 3] c))"
  using gcm_seal_is_sp800_38d [of "replicate 16 7" gcm_zero "replicate 12 1" "[2, 3]" "[4, 5, 6]"] gcm_zero_shape by simp

lemma gcm_open_seal_witness:
  "\<exists>c t. viltrum_gcm_seal demo_gcm (replicate 12 1) [2] [4, 5] = (c, t)
    \<and> viltrum_gcm_open demo_gcm (replicate 12 1) [2] c (replicate 16 0) =
      (if replicate 16 0 = t then (0, Some [4, 5]) else (- 1, None))"
  using gcm_open_seal [of "replicate 16 7" gcm_zero demo_gcm "replicate 12 1" "replicate 16 0" "[2]" "[4, 5]"]
    gcm_zero_shape demo_gcm_init by (cases "viltrum_gcm_seal demo_gcm (replicate 12 1) [2] [4, 5]") simp

lemma gcm_seal_record_equals_seal_witness:
  "viltrum_gcm_seal_record demo_gcm (replicate 12 1) [2] [4, 5] 23 = viltrum_gcm_seal demo_gcm (replicate 12 1) [2] [4, 5, 23]"
  using gcm_seal_record_equals_seal [of "replicate 16 7" gcm_zero demo_gcm "replicate 12 1" "[2]" "[4, 5]" 23]
    gcm_zero_shape demo_gcm_init by simp

lemma gcm_init_result_witness:
  "fst (viltrum_gcm_init gcm_zero (replicate 16 7) 16) = 0 \<and> gcm_ready demo_gcm"
  using gcm_init_result [of gcm_zero gcm_zero "replicate 16 7"] gcm_zero_shape demo_gcm_init by simp

end
