(* ===== verification/Hs13Msg.thy ===== *)
theory Hs13Msg
  imports Hs13Hello Gcm
begin

unbundle bit_operations_syntax

text \<open>
  The messages and records of \<^verbatim>\<open>src/engine/hs13.h\<close>: the ServerHello, the Certificate message, the records
  under the handshake key, the check of the client's Finished, and the HkdfLabel of HKDF-Expand-Label. As in the
  parser, a store goes through \<open>put\<close>, whose \<open>None\<close> is a store outside the buffer. Sizes are natural numbers:
  each is bounded by the size of an object in memory. The key derivation functions of mbedtls are fields of a
  record that the definitions take as an argument.
\<close>

section \<open>Memory\<close>

definition put :: "u8 list \<Rightarrow> nat \<Rightarrow> u8 list \<Rightarrow> u8 list option" where
  "put out n bs =
     (if n + length bs \<le> length out then Some (take n out @ bs @ drop (n + length bs) out) else None)"

text \<open>\<^verbatim>\<open>(uint8_t)(n >> 8), (uint8_t)n\<close> and its three-byte form\<close>

definition bytes16 :: "nat \<Rightarrow> u8 list" where
  "bytes16 n = [of_nat (n div 2 ^ 8), of_nat n]"

definition bytes24 :: "nat \<Rightarrow> u8 list" where
  "bytes24 n = [of_nat (n div 2 ^ 16), of_nat (n div 2 ^ 8), of_nat n]"

text \<open>A string literal as bytes.\<close>

definition chars :: "string \<Rightarrow> u8 list" where
  "chars s = map of_char s"

section \<open>State\<close>

record viltrum_hs13_keys =
  k_c_key :: "u8 list"
  k_c_iv :: "u8 list"
  k_c_fin :: "u8 list"
  k_c_ap :: "u8 list"
  k_s_ap :: "u8 list"
  k_s_iv :: "u8 list"
  k_s_seq :: u64

text \<open>What \<^verbatim>\<open>viltrum_hs13_wipe(keys, sizeof(*keys))\<close> leaves, and the general form.\<close>

definition viltrum_hs13_wipe :: "u8 list \<Rightarrow> u8 list" where
  "viltrum_hs13_wipe p = fold (\<lambda>i b. b[i := 0]) [0..<length p] p"

definition keys_wipe :: "viltrum_hs13_keys \<Rightarrow> viltrum_hs13_keys" where
  "keys_wipe k =
     \<lparr>k_c_key = viltrum_hs13_wipe (k_c_key k), k_c_iv = viltrum_hs13_wipe (k_c_iv k),
      k_c_fin = viltrum_hs13_wipe (k_c_fin k), k_c_ap = viltrum_hs13_wipe (k_c_ap k),
      k_s_ap = viltrum_hs13_wipe (k_s_ap k), k_s_iv = viltrum_hs13_wipe (k_s_iv k), k_s_seq = 0\<rparr>"

text \<open>
  mbedtls' SHA-256, HKDF and HMAC: \<open>None\<close> is a nonzero result. The running hash is a context of any type.
\<close>

record 'c mbed =
  sha256_init :: 'c
  sha256_starts :: "'c \<Rightarrow> 'c option"
  sha256_update :: "'c \<Rightarrow> u8 list \<Rightarrow> 'c option"
  sha256_clone :: "'c \<Rightarrow> 'c"
  sha256_finish :: "'c \<Rightarrow> u8 list option"
  md_sha256 :: "u8 list \<Rightarrow> u8 list option"
  hkdf_extract :: "u8 list \<Rightarrow> u8 list \<Rightarrow> u8 list option"
  hkdf_expand :: "u8 list \<Rightarrow> u8 list \<Rightarrow> nat \<Rightarrow> u8 list option"
  md_hmac :: "u8 list \<Rightarrow> u8 list \<Rightarrow> u8 list option"

section \<open>Operations\<close>

text \<open>The buffer \<^verbatim>\<open>info\<close> of \<^verbatim>\<open>viltrum_hs13_expand\<close> up to \<^verbatim>\<open>n\<close>; it has room for 106 bytes.\<close>

definition expand_info :: "string \<Rightarrow> u8 list \<Rightarrow> nat \<Rightarrow> u8 list" where
  "expand_info label ctx out_len =
     bytes16 out_len @ [of_nat (6 + length label)] @ chars ''tls13 '' @ chars label @
     [of_nat (length ctx)] @ ctx"

definition viltrum_hs13_expand :: "'c mbed \<Rightarrow> u8 list \<Rightarrow> string \<Rightarrow> u8 list \<Rightarrow> nat \<Rightarrow> u8 list option option" where
  "viltrum_hs13_expand L secret label ctx out_len =
     (if 32 < length label \<or> 64 < length ctx then Some None
      else do {
        info \<leftarrow> put (replicate (2 + 1 + 6 + 32 + 1 + 64) 0) 0 (expand_info label ctx out_len);
        Some (hkdf_expand L secret (take (length (expand_info label ctx out_len)) info) out_len) })"

definition viltrum_hs13_hash_now :: "'c mbed \<Rightarrow> 'c \<Rightarrow> u8 list option" where
  "viltrum_hs13_hash_now L running = sha256_finish L (sha256_clone L running)"

text \<open>
  A certificate chain is the list of the certificates' DER bytes; the loops stop at the first one that is empty.
  \<^verbatim>\<open>out\<close> is \<open>None\<close> for a null pointer.
\<close>

definition cert_entries :: "u8 list list \<Rightarrow> u8 list list" where
  "cert_entries crt = takeWhile (\<lambda>raw. 0 < length raw) crt"

definition viltrum_hs13_cert_msg :: "u8 list list \<Rightarrow> ptr \<Rightarrow> nat \<Rightarrow> (nat \<times> ptr) option" where
  "viltrum_hs13_cert_msg crt out cap =
     (let list = fold (\<lambda>raw list. list + (3 + length raw + 2)) (cert_entries crt) 0;
          body = 1 + 3 + list; total = 4 + body
      in case out of
           None \<Rightarrow> Some (total, out)
         | Some buf \<Rightarrow>
             if cap < total then Some (total, out)
             else do {
               buf \<leftarrow> put buf 0 ([11] @ bytes24 body @ [0] @ bytes24 list);
               (buf, n) \<leftarrow> fold (\<lambda>raw s. do {
                  (buf, n) \<leftarrow> s;
                  buf \<leftarrow> put buf n (bytes24 (length raw) @ raw @ [0, 0]);
                  Some (buf, n + 3 + length raw + 2) }) (cert_entries crt) (Some (buf, 8));
               Some (total, Some buf) })"

text \<open>\<^verbatim>\<open>nonce[11 - i] ^= (uint8_t)(*seq >> (8 * i))\<close>\<close>

definition record_nonce :: "u8 list \<Rightarrow> u64 \<Rightarrow> u8 list" where
  "record_nonce iv seq =
     fold (\<lambda>i nonce. nonce[11 - i := nonce ! (11 - i) XOR ucast (drop_bit (8 * i) seq)]) [0..<8] (take 12 iv)"

text \<open>The loop of \<^verbatim>\<open>viltrum_hs13_seal\<close>, with the result, the buffer, \<^verbatim>\<open>*n\<close> and \<^verbatim>\<open>*seq\<close>.\<close>

function viltrum_hs13_seal ::
  "viltrum_gcm \<Rightarrow> u8 list \<Rightarrow> u64 \<Rightarrow> u8 list \<Rightarrow> u8 list \<Rightarrow> nat \<Rightarrow> nat \<Rightarrow> (int \<times> u8 list \<times> nat \<times> u64) option" where
  "viltrum_hs13_seal g iv seq msg out cap n =
     (if 0 < length msg then
        (let chunk = (if 16384 < length msg then 16384 else length msg);
             rlen = chunk + 1 + 16
         in if cap < n + 5 + rlen then Some (- 1, out, n, seq)
            else
              (let hdr = [23, 3, 3] @ bytes16 rlen;
                   (c, tag) = viltrum_gcm_seal g (record_nonce iv seq) hdr (take chunk msg @ [22])
               in do {
                 out \<leftarrow> put out n (hdr @ c @ tag);
                 viltrum_hs13_seal g iv (seq + 1) (drop chunk msg) out cap (n + 5 + rlen) }))
      else Some (0, out, n, seq))"
  by pat_completeness auto
termination
  by (relation "measure (\<lambda>(_, _, _, msg, _). length msg)") auto

declare viltrum_hs13_seal.simps [simp del]

text \<open>The bytes \<^verbatim>\<open>viltrum_hs13_server_hello\<close> writes at \<^verbatim>\<open>p\<close>; their number is its result.\<close>

definition viltrum_hs13_server_hello :: "viltrum_hs13_hello \<Rightarrow> u8 list \<Rightarrow> u8 list \<Rightarrow> u8 list option" where
  "viltrum_hs13_server_hello h random pub =
     (let body = 2 + 32 + 1 + h_session_id_len h + 2 + 1 + 2 + (4 + 36) + (4 + 2)
      in do {
        random \<leftarrow> copy_bytes (Some random) 32;
        sid \<leftarrow> copy_bytes (Some (h_session_id h)) (h_session_id_len h);
        pub \<leftarrow> copy_bytes (Some pub) 32;
        Some ([2, 0] @ bytes16 body @ [3, 3] @ random @ [of_nat (h_session_id_len h)] @ sid @
          [ucast (drop_bit 8 VILTRUM_HS13_SUITE), ucast (VILTRUM_HS13_SUITE AND 0xff)] @ [0] @
          [0, (4 + 36) + (4 + 2)] @ [0, 51, 0, 36, 0, 0x1d, 0, 32] @ pub @ [0, 43, 0, 2, 3, 4]) })"

definition viltrum_hs13_finished_ok :: "u8 list \<Rightarrow> viltrum_hs13_keys \<Rightarrow> bool option" where
  "viltrum_hs13_finished_ok msg keys =
     (if length msg \<noteq> 4 + 32 then Some False
      else do {
        b0 \<leftarrow> deref (Some msg) 0; b1 \<leftarrow> deref (Some msg) 1; b2 \<leftarrow> deref (Some msg) 2; b3 \<leftarrow> deref (Some msg) 3;
        if b0 \<noteq> 20 \<or> b1 \<noteq> 0 \<or> b2 \<noteq> 0 \<or> b3 \<noteq> 32 then Some False
        else do {
          diff \<leftarrow> fold (\<lambda>i s. do {
             diff \<leftarrow> s; a \<leftarrow> deref (Some msg) (4 + i); b \<leftarrow> deref (Some (k_c_fin keys)) i;
             Some (diff OR (a XOR b)) }) [0..<32] (Some 0);
          Some (diff = (0::u8)) } })"

section \<open>Buffers and lengths\<close>

lemma put_fits [simp]: "n + length bs \<le> length out \<Longrightarrow> put out n bs = Some (take n out @ bs @ drop (n + length bs) out)"
  by (simp add: put_def)

lemma length_put: "put out n bs = Some out' \<Longrightarrow> length out' = length out"
  by (auto simp: put_def split: if_splits)

lemma take_put: "n + length bs \<le> length out \<Longrightarrow> take (n + length bs) (take n out @ bs @ drop (n + length bs) out) = take n out @ bs"
  by simp

lemma length_bytes16 [simp]: "length (bytes16 n) = 2"
  by (simp add: bytes16_def)

lemma length_bytes24 [simp]: "length (bytes24 n) = 3"
  by (simp add: bytes24_def)

lemma length_chars [simp]: "length (chars s) = length s"
  by (simp add: chars_def)

lemma of_nat_byte: "(of_nat (n div 2 ^ k) :: u8) = ucast (drop_bit k (of_nat n :: 'a::len word))" if "8 + k \<le> LENGTH('a)"
proof (rule bit_eqI)
  fix i :: nat
  assume "possible_bit TYPE(u8) i"
  then show "bit (of_nat (n div 2 ^ k) :: u8) i = bit (ucast (drop_bit k (of_nat n :: 'a::len word)) :: u8) i"
    using that by (simp add: bit_of_nat_iff bit_unsigned_iff bit_drop_bit_eq drop_bit_eq_div [symmetric] possible_bit_word)
qed

lemma bytes16_enc16: "bytes16 n = enc16 (of_nat n)"
  using of_nat_byte [of 8 n, where ?'a = 16] of_nat_byte [of 0 n, where ?'a = 16] by (simp add: bytes16_def enc16_def)

lemma bytes24_enc24: "bytes24 n = enc24 (of_nat n)"
  using of_nat_byte [of 16 n, where ?'a = 32] of_nat_byte [of 8 n, where ?'a = 32] of_nat_byte [of 0 n, where ?'a = 32]
  by (simp add: bytes24_def enc24_def)

lemma bytes16_val: "n < 2 ^ 16 \<Longrightarrow> bytes16 n = [a, b] \<Longrightarrow> unat a * 256 + unat b = n"
  by (auto simp: bytes16_def unsigned_of_nat take_bit_eq_mod)

lemma wipe_eq [simp]: "viltrum_hs13_wipe p = replicate (length p) 0"
proof -
  have "k \<le> length p \<Longrightarrow> fold (\<lambda>i b. b[i := 0]) [0..<k] p = replicate k 0 @ drop k p" for k
    by (induction k) (auto simp: list_update_append Cons_nth_drop_Suc [symmetric] replicate_append_same)
  from this [of "length p"] show ?thesis
    by (simp add: viltrum_hs13_wipe_def)
qed

section \<open>The record layer\<close>

text \<open>
  RFC 8446, 5.2 and 5.3: the nonce is the IV with the sequence number, in network order, added at its end; the
  additional data is the record's header. \<open>enc_records\<close> is what a server sends for a handshake message and
  \<open>dec_records\<close> is a client's side, which refuses a record that is too short, too long, does not open or is not
  of the handshake type.
\<close>

definition tls_nonce :: "u8 list \<Rightarrow> u64 \<Rightarrow> u8 list" where
  "tls_nonce iv seq = xor_bytes iv (replicate 4 0 @ be64 seq)"

definition tls_header :: "nat \<Rightarrow> u8 list" where
  "tls_header n = [23] @ enc16 0x0303 @ enc16 (of_nat n)"

function enc_records ::
  "('g \<Rightarrow> u8 list \<Rightarrow> u8 list \<Rightarrow> u8 list \<Rightarrow> u8 list \<times> u8 list) \<Rightarrow> 'g \<Rightarrow> u8 list \<Rightarrow> u64 \<Rightarrow> u8 list \<Rightarrow> u8 list" where
  "enc_records sealf g iv seq msg =
     (if msg = [] then []
      else
        (let m = take 16384 msg;
             hdr = tls_header (length m + 17);
             (c, tag) = sealf g (tls_nonce iv seq) hdr (m @ [22])
         in hdr @ c @ tag @ enc_records sealf g iv (seq + 1) (drop 16384 msg)))"
  by pat_completeness auto
termination
  by (relation "measure (\<lambda>(_, _, _, _, msg). length msg)") auto

declare enc_records.simps [simp del]

function dec_records ::
  "('g \<Rightarrow> u8 list \<Rightarrow> u8 list \<Rightarrow> u8 list \<Rightarrow> u8 list \<Rightarrow> u8 list option) \<Rightarrow> 'g \<Rightarrow> u8 list \<Rightarrow> u64 \<Rightarrow> u8 list \<Rightarrow> u8 list option" where
  "dec_records openf g iv seq bs =
     (if bs = [] then Some []
      else
        (let hdr = take 5 bs; n = unat (join16 (bs ! 3) (bs ! 4)); frag = take n (drop 5 bs)
         in if length hdr < 5 \<or> take 3 hdr \<noteq> [23, 3, 3] \<or> n < 17 \<or> 16384 + 256 < n \<or> length frag < n then None
            else do {
              inner \<leftarrow> openf g (tls_nonce iv seq) hdr (take (n - 16) frag) (drop (n - 16) frag);
              if inner = [] \<or> last inner \<noteq> 22 then None
              else do {
                rest \<leftarrow> dec_records openf g iv (seq + 1) (drop (5 + n) bs);
                Some (butlast inner @ rest) } }))"
  by pat_completeness auto
termination
  by (relation "measure (\<lambda>(_, _, _, _, bs). length bs)") auto

declare dec_records.simps [simp del]

definition records :: "nat \<Rightarrow> nat" where
  "records n = (n + 16383) div 16384"

lemma records_0 [simp]: "records 0 = 0"
  by (simp add: records_def)

lemma records_step: "0 < n \<Longrightarrow> records n = Suc (records (n - 16384))"
  by (cases "n \<le> 16384") (auto simp: records_def div_eq_dividend_iff intro: div_le_mono
      dest: le_Suc_ex)

lemma record_nonce_eq: "length iv = 12 \<Longrightarrow> record_nonce iv seq = tls_nonce iv seq"
proof -
  assume iv: "length iv = 12"
  then obtain a b c d e f g h i j k l where "iv = [a, b, c, d, e, f, g, h, i, j, k, l]"
    by (auto simp: length_Suc_conv numeral_eq_Suc)
  then show ?thesis
    by (simp add: record_nonce_def tls_nonce_def be64_def xor_bytes_def upt_rec numeral_eq_Suc)
qed

lemma length_tls_header [simp]: "length (tls_header n) = 5"
  by (simp add: tls_header_def)

lemma tls_header_eq: "[23, 3, 3] @ bytes16 n = tls_header n"
  by (simp add: tls_header_def bytes16_enc16 enc16_def)

lemma length_be64 [simp]: "length (be64 x) = 8"
  by (simp add: be64_def)

lemma length_tls_nonce [simp]: "length (tls_nonce iv seq) = min (length iv) 12"
  by (simp add: tls_nonce_def xor_bytes_def)

lemma tls_header_nth: "n < 2 ^ 16 \<Longrightarrow> unat (join16 (tls_header n ! 3) (tls_header n ! 4)) = n"
proof -
  assume n: "n < 2 ^ 16"
  have "join16 (tls_header n ! 3) (tls_header n ! 4) = of_nat n"
    using join16_enc16 [of "of_nat n"] by (simp add: tls_header_def enc16_def)
  then show ?thesis
    using n by (simp add: unsigned_of_nat take_bit_nat_eq_self)
qed

lemma take_3_tls_header: "take 3 (tls_header n) = [23, 3, 3]"
  by (simp add: tls_header_def enc16_def)

text \<open>With any authenticated encryption, a client reads back what was sent, record by record.\<close>

context aead
begin

lemma dec_one_record:
  assumes "aead_ready g" "length iv = 12" "m \<noteq> []" "length m \<le> 16384"
    and "aead_seal g (tls_nonce iv seq) (tls_header (length m + 17)) (m @ [22]) = (c, tag)"
  shows "dec_records aead_open g iv seq (tls_header (length m + 17) @ c @ tag @ rest)
    = map_option (append m) (dec_records aead_open g iv (seq + 1) rest)"
proof -
  let ?n = "length m + 17"
  let ?h = "tls_header ?n"
  have len: "length c = length m + 1" "length tag = 16"
    using seal_lengths [of g "tls_nonce iv seq" ?h "m @ [22]"] assms by simp_all
  have n: "unat (join16 ((?h @ c @ tag @ rest) ! 3) ((?h @ c @ tag @ rest) ! 4)) = ?n"
    using tls_header_nth [of ?n] assms(4) by (simp add: nth_append)
  have opn: "aead_open g (tls_nonce iv seq) ?h c tag = Some (m @ [22])"
    using open_sealed [of g "tls_nonce iv seq" tag ?h "m @ [22]"] assms len by simp
  have "?h @ c @ tag @ rest \<noteq> []"
    by (metis length_tls_header append_is_Nil_conv list.size(3) zero_neq_numeral)
  then show ?thesis
    by (subst dec_records.simps) (use len assms(3,4) in
      \<open>simp add: n Let_def take_3_tls_header opn map_option_case del: join16_def split: option.split\<close>)
qed

theorem dec_enc_records:
  assumes "aead_ready g" "length iv = 12"
  shows "dec_records aead_open g iv seq (enc_records aead_seal g iv seq msg @ rest)
    = map_option (append msg) (dec_records aead_open g iv (seq + of_nat (records (length msg))) rest)"
proof (induction "length msg" arbitrary: msg seq rule: less_induct)
  case less
  show ?case
  proof (cases "msg = []")
    case True
    then show ?thesis
      by (cases "dec_records aead_open g iv seq rest") (simp_all add: enc_records.simps)
  next
    case False
    let ?m = "take 16384 msg"
    obtain c tag where seal: "aead_seal g (tls_nonce iv seq) (tls_header (length ?m + 17)) (?m @ [22]) = (c, tag)"
      by (meson surj_pair)
    have enc: "enc_records aead_seal g iv seq msg
      = tls_header (length ?m + 17) @ c @ tag @ enc_records aead_seal g iv (seq + 1) (drop 16384 msg)"
      by (subst enc_records.simps) (use False seal in \<open>simp add: Let_def\<close>)
    have "?m \<noteq> []" "length ?m \<le> 16384"
      using False by simp_all
    note step = dec_one_record [OF assms this seal]
    have rec: "records (length msg) = Suc (records (length (drop 16384 msg)))"
      using False records_step [of "length msg"] by simp
    let ?d = "dec_records aead_open g iv (seq + of_nat (records (length msg))) rest"
    have "seq + 1 + of_nat (records (length (drop 16384 msg))) = seq + of_nat (records (length msg))"
      by (simp add: rec)
    then have IH: "dec_records aead_open g iv (seq + 1) (enc_records aead_seal g iv (seq + 1) (drop 16384 msg) @ rest)
      = map_option (append (drop 16384 msg)) ?d"
      using less [of "drop 16384 msg" "seq + 1"] False by (metis length_drop length_greater_0_conv diff_less zero_less_numeral)
    show ?thesis
      unfolding enc append_assoc step IH by (cases ?d) (simp_all flip: append_assoc)
  qed
qed

end

lemma enc_records_step:
  assumes "gcm_ready g" "length iv = 12" "msg \<noteq> []"
  obtains c tag where
    "viltrum_gcm_seal g (tls_nonce iv seq) (tls_header (length (take 16384 msg) + 17)) (take 16384 msg @ [22]) = (c, tag)"
    "length c = length (take 16384 msg) + 1" "length tag = 16"
    "enc_records viltrum_gcm_seal g iv seq msg = tls_header (length (take 16384 msg) + 17) @ c @ tag
      @ enc_records viltrum_gcm_seal g iv (seq + 1) (drop 16384 msg)"
proof -
  obtain c tag where seal:
    "viltrum_gcm_seal g (tls_nonce iv seq) (tls_header (length (take 16384 msg) + 17)) (take 16384 msg @ [22]) = (c, tag)"
    by (meson surj_pair)
  moreover have "length c = length (take 16384 msg) + 1" "length tag = 16"
    using gcm.seal_lengths [OF assms(1), of "tls_nonce iv seq" "tls_header (length (take 16384 msg) + 17)" "take 16384 msg @ [22]"]
      assms(2) seal by simp_all
  moreover have "enc_records viltrum_gcm_seal g iv seq msg = tls_header (length (take 16384 msg) + 17) @ c @ tag
      @ enc_records viltrum_gcm_seal g iv (seq + 1) (drop 16384 msg)"
    by (subst enc_records.simps) (use assms(3) seal in \<open>simp add: Let_def\<close>)
  ultimately show thesis ..
qed

definition records_size :: "nat \<Rightarrow> nat" where
  "records_size n = n + 22 * records n"

lemma records_size_step: "0 < n \<Longrightarrow> records_size n = 22 + min n 16384 + records_size (n - 16384)"
  by (simp add: records_size_def records_step min_def)

lemma records_size_0 [simp]: "records_size 0 = 0"
  by (simp add: records_size_def)

lemma length_enc_records:
  assumes "gcm_ready g" "length iv = 12"
  shows "length (enc_records viltrum_gcm_seal g iv seq msg) = records_size (length msg)"
proof (induction "length msg" arbitrary: msg seq rule: less_induct)
  case less
  show ?case
  proof (cases "msg = []")
    case True
    then show ?thesis by (simp add: enc_records.simps)
  next
    case False
    obtain c tag where e: "length c = length (take 16384 msg) + 1" "length tag = 16"
      "enc_records viltrum_gcm_seal g iv seq msg = tls_header (length (take 16384 msg) + 17) @ c @ tag
        @ enc_records viltrum_gcm_seal g iv (seq + 1) (drop 16384 msg)"
      using enc_records_step [OF assms False, of seq] by metis
    then show ?thesis
      using less [of "drop 16384 msg" "seq + 1"] False by (simp add: records_size_step)
  qed
qed

text \<open>
  The code's loop writes those records when they fit; otherwise it stops before the record that does not, and
  has written nothing outside the room it was given.
\<close>

definition kept_outside :: "nat \<Rightarrow> nat \<Rightarrow> u8 list \<Rightarrow> u8 list \<Rightarrow> bool" where
  "kept_outside n cap out out' \<longleftrightarrow> length out' = length out \<and> take n out' = take n out \<and> drop cap out' = drop cap out"

lemma kept_outside_trans:
  "kept_outside n cap a b \<Longrightarrow> kept_outside m cap b c \<Longrightarrow> n \<le> m \<Longrightarrow> kept_outside n cap a c"
  by (auto simp: kept_outside_def) (metis min.absorb1 take_take)

lemma kept_outside_put:
  "n + length bs \<le> cap \<Longrightarrow> cap \<le> length out \<Longrightarrow> kept_outside n cap out (take n out @ bs @ drop (n + length bs) out)"
  by (simp add: kept_outside_def)

lemma hs13_seal_step:
  assumes "gcm_ready g" "length iv = 12" "cap \<le> length out" "msg \<noteq> []" "n + 22 + length (take 16384 msg) \<le> cap"
  obtains r where "length r = 22 + length (take 16384 msg)"
    "enc_records viltrum_gcm_seal g iv seq msg = r @ enc_records viltrum_gcm_seal g iv (seq + 1) (drop 16384 msg)"
    "viltrum_hs13_seal g iv seq msg out cap n =
      viltrum_hs13_seal g iv (seq + 1) (drop 16384 msg) (take n out @ r @ drop (n + length r) out) cap (n + length r)"
proof -
  let ?m = "take 16384 msg"
  obtain c tag where e: "viltrum_gcm_seal g (tls_nonce iv seq) (tls_header (length ?m + 17)) (?m @ [22]) = (c, tag)"
    "length c = length ?m + 1" "length tag = 16"
    "enc_records viltrum_gcm_seal g iv seq msg = tls_header (length ?m + 17) @ c @ tag
      @ enc_records viltrum_gcm_seal g iv (seq + 1) (drop 16384 msg)"
    using enc_records_step [OF assms(1,2,4), of seq] by metis
  let ?r = "tls_header (length ?m + 17) @ c @ tag"
  have chunk: "(if 16384 < length msg then 16384 else length msg) = length ?m"
    by simp
  have cut: "take (length ?m) msg = ?m" "drop (length ?m) msg = drop 16384 msg"
    by (simp_all add: min_def)
  have r: "length ?r = 22 + length ?m"
    using e(2,3) by simp
  have "viltrum_hs13_seal g iv seq msg out cap n =
      viltrum_hs13_seal g iv (seq + 1) (drop 16384 msg) (take n out @ ?r @ drop (n + length ?r) out) cap (n + length ?r)"
    by (subst viltrum_hs13_seal.simps, unfold chunk cut Let_def, unfold tls_header_eq record_nonce_eq [OF assms(2)])
      (use assms(3-5) e r in \<open>simp add: add.assoc add.commute\<close>)
  then show thesis
    using that [of ?r] r e(4) by simp
qed

lemma hs13_seal_post:
  assumes "gcm_ready g" "length iv = 12" "cap \<le> length out" "n \<le> cap"
  shows "\<exists>out' n' seq'. viltrum_hs13_seal g iv seq msg out cap n =
      Some (if n + records_size (length msg) \<le> cap then 0 else - 1, out', n', seq') \<and> n \<le> n' \<and> n' \<le> cap \<and> kept_outside n cap out out' \<and>
    (n + records_size (length msg) \<le> cap \<longrightarrow> n' = n + records_size (length msg) \<and> seq' = seq + of_nat (records (length msg)) \<and>
      take n' out' = take n out @ enc_records viltrum_gcm_seal g iv seq msg)"
  using assms(3,4)
proof (induction "length msg" arbitrary: msg seq out n rule: less_induct)
  case less
  show ?case
  proof (cases "msg = []")
    case True
    then show ?thesis
      using less.prems by (subst viltrum_hs13_seal.simps) (simp add: enc_records.simps kept_outside_def)
  next
    case False
    then have size: "records_size (length msg) = 22 + length (take 16384 msg) + records_size (length (drop 16384 msg))"
      by (simp add: records_size_step)
    show ?thesis
    proof (cases "n + 22 + length (take 16384 msg) \<le> cap")
      case True
      obtain r where r: "length r = 22 + length (take 16384 msg)"
        "enc_records viltrum_gcm_seal g iv seq msg = r @ enc_records viltrum_gcm_seal g iv (seq + 1) (drop 16384 msg)"
        "viltrum_hs13_seal g iv seq msg out cap n =
          viltrum_hs13_seal g iv (seq + 1) (drop 16384 msg) (take n out @ r @ drop (n + length r) out) cap (n + length r)"
        using hs13_seal_step [OF assms(1,2) less.prems(1) False True, of seq] by metis
      let ?out = "take n out @ r @ drop (n + length r) out"
      have fits: "n + length r \<le> cap" "length ?out = length out"
        using True r(1) less.prems by simp_all
      have rec: "seq + 1 + of_nat (records (length (drop 16384 msg))) = seq + of_nat (records (length msg))"
        using False records_step [of "length msg"] by (simp add: algebra_simps)
      have "length (drop 16384 msg) < length msg" "cap \<le> length ?out"
        using False less.prems fits by simp_all
      from less.hyps [OF this fits(1), of "seq + 1"] obtain out' n' seq' where
        IH: "viltrum_hs13_seal g iv (seq + 1) (drop 16384 msg) ?out cap (n + length r) =
            Some (if n + length r + records_size (length (drop 16384 msg)) \<le> cap then 0 else - 1, out', n', seq')"
          "n + length r \<le> n'" "n' \<le> cap" "kept_outside (n + length r) cap ?out out'"
          "n + length r + records_size (length (drop 16384 msg)) \<le> cap \<Longrightarrow>
            n' = n + length r + records_size (length (drop 16384 msg)) \<and> seq' = seq + of_nat (records (length msg)) \<and>
            take n' out' = take (n + length r) ?out @ enc_records viltrum_gcm_seal g iv (seq + 1) (drop 16384 msg)"
        unfolding rec by blast
      have sum: "n + length r + records_size (length (drop 16384 msg)) = n + records_size (length msg)"
        using size r(1) by simp
      have "kept_outside n cap out out'"
        using kept_outside_trans [OF kept_outside_put IH(4)] fits less.prems by simp
      then show ?thesis
        using IH fits less.prems unfolding sum r(2,3) by (auto simp: take_put)
    next
      case short: False
      then show ?thesis
        using False size less.prems by (subst viltrum_hs13_seal.simps) (auto simp: Let_def kept_outside_def)
    qed
  qed
qed

text \<open>Two records under one key never share a nonce.\<close>

lemma be64_inj:
  assumes "be64 x = be64 y"
  shows "x = y"
proof (rule bit_eqI)
  fix n :: nat
  assume "possible_bit TYPE(u64) n"
  then have "n div 8 \<in> set [0..<8]"
    by (auto simp: possible_bit_word)
  then have "(ucast (drop_bit (8 * (n div 8)) x) :: u8) = ucast (drop_bit (8 * (n div 8)) y)"
    using assms by (auto simp: be64_def map_eq_conv)
  then have "bit (ucast (drop_bit (8 * (n div 8)) x) :: u8) (n mod 8) = bit (ucast (drop_bit (8 * (n div 8)) y) :: u8) (n mod 8)"
    by simp
  then show "bit x n = bit y n"
    by (simp add: bit_simps)
qed

lemma xor_bytes_commute: "xor_bytes a b = xor_bytes b a"
  by (induction a b rule: list_induct2') (simp_all add: xor_bytes_def xor.commute)

lemma tls_nonce_inj:
  assumes "length iv = 12" "tls_nonce iv x = tls_nonce iv y"
  shows "x = y"
proof -
  have "xor_bytes iv (tls_nonce iv z) = replicate 4 0 @ be64 z" for z
    unfolding tls_nonce_def using assms(1) xor_bytes_twice [of "replicate 4 0 @ be64 z" iv]
    by (simp add: xor_bytes_commute)
  then show ?thesis
    using assms(2) be64_inj by (metis append_eq_append_conv)
qed

section \<open>Messages\<close>

text \<open>The ServerHello of RFC 8446, 4.1.3, and the Certificate message of 4.4.2.\<close>

definition enc_server_hello :: "u8 list \<Rightarrow> u8 list \<Rightarrow> u8 list \<Rightarrow> u8 list" where
  "enc_server_hello random sid pub =
     enc_handshake 2 (enc16 0x0303 @ random @ vec8 sid @ enc16 0x1301 @ [0] @
       vec16 (enc16 51 @ vec16 (enc16 29 @ vec16 pub) @ enc16 43 @ vec16 (enc16 0x0304)))"

definition vec24 :: "u8 list \<Rightarrow> u8 list" where
  "vec24 v = enc24 (of_nat (length v)) @ v"

definition enc_certificate :: "u8 list list \<Rightarrow> u8 list" where
  "enc_certificate certs = enc_handshake 11 (vec8 [] @ vec24 (concat (map (\<lambda>c. vec24 c @ vec16 []) certs)))"

lemma server_hello_eq:
  assumes "length random = 32" "length (h_session_id h) = 32" "h_session_id_len h \<le> 32" "length pub = 32"
  shows "viltrum_hs13_server_hello h random pub
    = Some (enc_server_hello random (take (h_session_id_len h) (h_session_id h)) pub)"
proof -
  let ?n = "h_session_id_len h"
  let ?sid = "take ?n (h_session_id h)"
  have len: "enc24 (of_nat (86 + ?n)) = 0 # bytes16 (86 + ?n)"
    using assms(3) by (simp add: bytes24_enc24 [symmetric] bytes24_def bytes16_def del: of_nat_add)
  have exts: "vec16 (enc16 51 @ vec16 (enc16 29 @ vec16 pub) @ enc16 43 @ vec16 (enc16 0x0304))
      = [0, 46, 0, 51, 0, 36, 0, 0x1d, 0, 32] @ pub @ [0, 43, 0, 2, 3, 4]"
    using assms(4) by (simp add: vec16_def enc16_def)
  have size: "length (enc16 0x0303 @ random @ vec8 ?sid @ enc16 0x1301 @ [0] @
      [0, 46, 0, 51, 0, 36, 0, 0x1d, 0, 32] @ pub @ [0, 43, 0, 2, 3, 4]) = 86 + ?n"
    using assms by simp
  have sid: "vec8 ?sid = of_nat ?n # ?sid" "enc16 0x0303 = [3, 3]" "enc16 0x1301 = [0x13, 1]"
    using assms by (simp_all add: vec8_def enc16_def min_def)
  have suite: "ucast (drop_bit 8 VILTRUM_HS13_SUITE) = (0x13 :: u8)" "ucast (VILTRUM_HS13_SUITE AND 0xff) = (1 :: u8)"
    by (simp_all add: VILTRUM_HS13_SUITE_def)
  have "2 + 32 + 1 + ?n + 2 + 1 + 2 + (4 + 36) + (4 + 2) = 86 + ?n"
    by simp
  then show ?thesis
    using assms unfolding viltrum_hs13_server_hello_def enc_server_hello_def enc_handshake_def exts size len Let_def suite
    by (simp add: sid)
qed

lemma length_enc_server_hello:
  "length random = 32 \<Longrightarrow> length pub = 32 \<Longrightarrow> length (enc_server_hello random sid pub) = 90 + length sid"
  by (simp add: enc_server_hello_def enc_handshake_def)

definition certificate_size :: "u8 list list \<Rightarrow> nat" where
  "certificate_size certs = 8 + (\<Sum>c \<leftarrow> certs. length c + 5)"

lemma length_enc_certificate: "length (enc_certificate certs) = certificate_size certs"
  by (simp add: enc_certificate_def certificate_size_def enc_handshake_def vec24_def length_concat comp_def add.commute)

lemma cert_list_sum: "fold (\<lambda>raw list. list + (3 + length raw + 2)) certs n = n + (\<Sum>c \<leftarrow> certs. length c + 5)"
  by (induction certs arbitrary: n) simp_all

lemma cert_entry_eq: "bytes24 (length c) @ c @ [0, 0] = vec24 c @ vec16 []"
  by (simp add: vec24_def vec16_def bytes24_enc24 enc16_def)

lemma cert_loop_eq:
  assumes "n + (\<Sum>c \<leftarrow> certs. length c + 5) \<le> length buf"
  shows "fold (\<lambda>raw s. do {
       (buf, n) \<leftarrow> s;
       buf \<leftarrow> put buf n (bytes24 (length raw) @ raw @ [0, 0]);
       Some (buf, n + 3 + length raw + 2) }) certs (Some (buf, n))
    = Some (take n buf @ concat (map (\<lambda>c. vec24 c @ vec16 []) certs) @ drop (n + (\<Sum>c \<leftarrow> certs. length c + 5)) buf,
        n + (\<Sum>c \<leftarrow> certs. length c + 5))"
  using assms
proof (induction certs arbitrary: buf n)
  case (Cons c certs)
  let ?e = "vec24 c @ vec16 []"
  let ?buf = "take n buf @ ?e @ drop (n + length ?e) buf"
  have e: "length ?e = 3 + length c + 2" "n + length ?e \<le> length buf"
    using Cons.prems by (simp_all add: vec24_def)
  then have "length ?buf = length buf"
    by simp
  then show ?case
    using Cons.IH [of "n + length ?e" ?buf] Cons.prems e by (simp add: cert_entry_eq ac_simps)
qed simp

lemma cert_msg_eq:
  fixes crt
  defines "certs \<equiv> cert_entries crt"
  shows "viltrum_hs13_cert_msg crt None cap = Some (certificate_size certs, None)"
    and "cap < certificate_size certs \<Longrightarrow> viltrum_hs13_cert_msg crt (Some buf) cap = Some (certificate_size certs, Some buf)"
    and "certificate_size certs \<le> cap \<Longrightarrow> cap \<le> length buf \<Longrightarrow> viltrum_hs13_cert_msg crt (Some buf) cap =
      Some (certificate_size certs, Some (enc_certificate certs @ drop (certificate_size certs) buf))"
proof -
  let ?list = "\<Sum>c \<leftarrow> certs. length c + 5"
  have total: "4 + (1 + 3 + ?list) = certificate_size certs"
    by (simp add: certificate_size_def)
  note unf = viltrum_hs13_cert_msg_def certs_def [symmetric] cert_list_sum Let_def add_0 total
  show "viltrum_hs13_cert_msg crt None cap = Some (certificate_size certs, None)"
    unfolding unf by simp
  show "cap < certificate_size certs \<Longrightarrow> viltrum_hs13_cert_msg crt (Some buf) cap = Some (certificate_size certs, Some buf)"
    unfolding unf by simp
  assume fits: "certificate_size certs \<le> cap" "cap \<le> length buf"
  let ?hdr = "[11] @ bytes24 (1 + 3 + ?list) @ [0] @ bytes24 ?list"
  let ?buf = "?hdr @ drop 8 buf"
  have put: "put buf 0 ?hdr = Some ?buf"
    using fits by (simp add: certificate_size_def)
  have entries: "length (concat (map (\<lambda>c. vec24 c @ vec16 []) certs)) = ?list"
    by (simp add: length_concat comp_def vec24_def add.commute)
  have msg: "enc_certificate certs = ?hdr @ concat (map (\<lambda>c. vec24 c @ vec16 []) certs)"
    unfolding enc_certificate_def enc_handshake_def vec24_def [of "concat _"] bytes24_enc24 entries length_append length_enc24
    by (simp add: vec8_def entries)
  have len: "length ?hdr = 8" "8 + ?list = certificate_size certs" "8 + ?list \<le> length ?buf"
    using fits by (simp_all add: certificate_size_def)
  have cut: "take 8 (h @ d) = h" "drop (8 + n) (h @ drop 8 d) = drop (8 + n) d" if "length h = 8" for h d :: "u8 list" and n
    using that by (simp_all add: add.commute)
  have "take 8 ?buf = ?hdr" "drop (8 + ?list) ?buf = drop (certificate_size certs) buf"
    unfolding len(2) [symmetric] by (rule cut [OF len(1)])+
  then show "viltrum_hs13_cert_msg crt (Some buf) cap =
      Some (certificate_size certs, Some (enc_certificate certs @ drop (certificate_size certs) buf))"
    using fits cert_loop_eq [OF len(3)] unfolding unf option.case put msg by simp
qed

function dec_cert_list :: "u8 list \<Rightarrow> u8 list list option" where
  "dec_cert_list bs =
     (if bs = [] then Some []
      else
        (let n = unat (join24 (bs ! 0) (bs ! 1) (bs ! 2)); rest = drop 3 bs
         in if length bs < 3 \<or> length rest < n + 2 \<or> take 2 (drop n rest) \<noteq> [0, 0] then None
            else map_option (Cons (take n rest)) (dec_cert_list (drop (n + 2) rest))))"
  by pat_completeness auto
termination
  by (relation "measure length") auto

declare dec_cert_list.simps [simp del]

text \<open>The chain in a Certificate message, as a client reads it: empty context, no certificate extensions.\<close>

definition dec_certificate :: "u8 list \<Rightarrow> u8 list list option" where
  "dec_certificate bs =
     (if length bs < 8 \<or> bs ! 0 \<noteq> 11 \<or> unat (join24 (bs ! 1) (bs ! 2) (bs ! 3)) + 4 \<noteq> length bs \<or> bs ! 4 \<noteq> 0 \<or>
        unat (join24 (bs ! 5) (bs ! 6) (bs ! 7)) + 8 \<noteq> length bs then None
      else dec_cert_list (drop 8 bs))"

lemma enc24_bytes:
  assumes "n < 2 ^ 24"
  obtains a b c where "enc24 (of_nat n) = [a, b, c]" "unat (join24 a b c) = n"
proof -
  have "(of_nat n :: u32) < 2 ^ 24"
    using assms by (simp add: word_less_nat_alt unsigned_of_nat take_bit_nat_eq_self)
  then have "unat (join24 (ucast (drop_bit 16 (of_nat n :: u32))) (ucast (drop_bit 8 (of_nat n :: u32))) (ucast (of_nat n :: u32))) = n"
    using assms by (simp only: join24_enc24) (simp add: unsigned_of_nat take_bit_nat_eq_self)
  then show thesis
    using that unfolding enc24_def by blast
qed

lemma dec_cert_list_enc:
  assumes "\<forall>c \<in> set certs. length c < 2 ^ 24"
  shows "dec_cert_list (concat (map (\<lambda>c. vec24 c @ vec16 []) certs)) = Some certs"
  using assms
proof (induction certs)
  case (Cons c certs)
  obtain x y z where l: "enc24 (of_nat (length c)) = [x, y, z]" "unat (join24 x y z) = length c"
    using Cons.prems enc24_bytes [of "length c"] by auto
  show ?case
    by (subst dec_cert_list.simps) (use Cons l in \<open>simp add: vec24_def vec16_def enc16_def\<close>)
qed (simp add: dec_cert_list.simps)

lemma dec_enc_certificate:
  assumes "certificate_size certs < 2 ^ 24"
  shows "dec_certificate (enc_certificate certs) = Some certs"
proof -
  let ?es = "concat (map (\<lambda>c. vec24 c @ vec16 []) certs)"
  have size: "length ?es + 8 = certificate_size certs"
    using length_enc_certificate [of certs] by (simp add: enc_certificate_def enc_handshake_def vec24_def)
  have l4: "length (vec8 [] @ vec24 ?es) = length ?es + 4"
    by (simp add: vec24_def [of ?es])
  have "length ?es + 4 < 2 ^ 24"
    using size assms by simp
  then obtain x y z where a: "enc24 (of_nat (length ?es + 4)) = [x, y, z]" "unat (join24 x y z) = length ?es + 4"
    by (rule enc24_bytes)
  obtain u v w where b: "enc24 (of_nat (length ?es)) = [u, v, w]" "unat (join24 u v w) = length ?es"
    using enc24_bytes [of "length ?es"] size assms by auto
  have "enc_certificate certs = [11, x, y, z, 0, u, v, w] @ ?es"
    unfolding enc_certificate_def enc_handshake_def l4 a(1) by (simp add: vec8_def vec24_def [of ?es] b(1))
  moreover have "\<forall>c \<in> set certs. length c < 2 ^ 24"
  proof
    fix c
    assume "c \<in> set certs"
    then have "length c + 5 \<le> (\<Sum>c \<leftarrow> certs. length c + 5)"
      by (intro member_le_sum_list) auto
    then show "length c < 2 ^ 24"
      using assms by (simp add: certificate_size_def)
  qed
  ultimately show ?thesis
    using a(2) b(2) by (simp add: dec_certificate_def dec_cert_list_enc)
qed

lemma finished_ok_eq:
  assumes "length (k_c_fin keys) = 32"
  shows "viltrum_hs13_finished_ok msg keys = Some (msg = enc_handshake 20 (k_c_fin keys))"
proof (cases "length msg = 36")
  case True
  have body: "msg = enc_handshake 20 (k_c_fin keys) \<longleftrightarrow>
      msg ! 0 = 20 \<and> msg ! 1 = 0 \<and> msg ! 2 = 0 \<and> msg ! 3 = 32 \<and> (\<forall>i < 32. msg ! (4 + i) = k_c_fin keys ! i)"
  proof -
    have "take 4 msg = [msg ! 0, msg ! 1, msg ! 2, msg ! 3]"
      using True by (intro nth_equalityI) (auto simp: nth_Cons' less_Suc_eq numeral_eq_Suc)
    moreover have "(\<forall>i < 32. msg ! (4 + i) = k_c_fin keys ! i) \<longleftrightarrow> drop 4 msg = k_c_fin keys"
      using True assms by (auto simp: list_eq_iff_nth_eq)
    moreover have "enc_handshake 20 (k_c_fin keys) = [20, 0, 0, 32] @ k_c_fin keys"
      using assms by (simp add: enc_handshake_def enc24_def)
    moreover have "msg = [20, 0, 0, 32] @ k_c_fin keys \<longleftrightarrow> take 4 msg = [20, 0, 0, 32] \<and> drop 4 msg = k_c_fin keys"
      using append_eq_conv_conj [of "[20, 0, 0, 32]" "k_c_fin keys" msg] by (auto simp: eval_nat_numeral)
    ultimately show ?thesis
      by auto
  qed
  have loop: "k \<le> 32 \<Longrightarrow> fold (\<lambda>i s. do {
       diff \<leftarrow> s; a \<leftarrow> deref (Some msg) (4 + i); b \<leftarrow> deref (Some (k_c_fin keys)) i;
       Some (diff OR (a XOR b)) }) [0..<k] (Some 0)
     = Some (fold (\<lambda>i diff. diff OR (msg ! (4 + i) XOR k_c_fin keys ! i)) [0..<k] 0)" for k
    using True assms by (induction k) simp_all
  have "fold (\<lambda>i diff. diff OR (msg ! (4 + i) XOR k_c_fin keys ! i)) [0..<32] 0 = 0
      \<longleftrightarrow> (\<forall>i < 32. msg ! (4 + i) = k_c_fin keys ! i)"
    by (simp add: fold_or_zero) (auto simp: bit_eq_iff bit_simps)
  then show ?thesis
    using True unfolding body viltrum_hs13_finished_ok_def loop [OF order_refl] by auto
next
  case False
  then have "msg \<noteq> enc_handshake 20 (k_c_fin keys)"
    using assms by (auto simp: enc_handshake_def)
  then show ?thesis
    using False by (simp add: viltrum_hs13_finished_ok_def)
qed

lemma expand_eq:
  assumes "length label \<le> 32" "length ctx \<le> 64"
  shows "viltrum_hs13_expand L secret label ctx n = Some (hkdf_expand L secret (expand_info label ctx n) n)"
proof -
  have "length (expand_info label ctx n) \<le> 106"
    using assms by (simp add: expand_info_def)
  then show ?thesis
    using assms by (simp add: viltrum_hs13_expand_def)
qed

section \<open>HkdfLabel\<close>

text \<open>RFC 8446, 7.1: the length, the label with its prefix and the context, each with its size.\<close>

definition hkdf_label :: "string \<Rightarrow> u8 list \<Rightarrow> nat \<Rightarrow> u8 list" where
  "hkdf_label label ctx n = enc16 (of_nat n) @ vec8 (chars (''tls13 '' @ label)) @ vec8 ctx"

lemma expand_info_eq: "expand_info label ctx n = hkdf_label label ctx n"
  by (simp add: expand_info_def hkdf_label_def bytes16_enc16 vec8_def chars_def)

lemma word_of_nat_inj:
  assumes "(of_nat n :: 'a::len word) = of_nat m" "n < 2 ^ LENGTH('a)" "m < 2 ^ LENGTH('a)"
  shows "n = m"
  using arg_cong [OF assms(1), of unat] assms(2,3) by (simp add: unsigned_of_nat take_bit_nat_eq_self)

lemma chars_inj: "chars s = chars t \<Longrightarrow> s = t"
proof -
  have "inj (of_char :: char \<Rightarrow> u8)"
  proof (rule injI)
    fix x y :: char
    assume "(of_char x :: u8) = of_char y"
    then have "(of_nat (of_char x) :: u8) = of_nat (of_char y)"
      by (simp add: of_nat_of_char)
    then show "x = y"
      using word_of_nat_inj [of "of_char x" "of_char y", where ?'a = 8] by simp
  qed
  then show "chars s = chars t \<Longrightarrow> s = t"
    by (simp add: chars_def inj_map_eq_map)
qed

lemma vec8_append_inj:
  assumes "vec8 a @ x = vec8 b @ y" "length a < 256" "length b < 256"
  shows "a = b \<and> x = y"
proof -
  have "unat (of_nat (length a) :: u8) = unat (of_nat (length b) :: u8)"
    using assms(1) by (simp add: vec8_def)
  then have "length a = length b"
    using assms(2,3) by (simp add: unsigned_of_nat take_bit_nat_eq_self)
  then show ?thesis
    using assms(1) by (simp add: vec8_def)
qed

lemma hkdf_label_inj:
  assumes "hkdf_label l c n = hkdf_label l' c' n'" "length l \<le> 32" "length l' \<le> 32" "length c \<le> 64" "length c' \<le> 64"
    and "n < 65536" "n' < 65536"
  shows "l = l' \<and> c = c' \<and> n = n'"
proof -
  have "enc16 (of_nat n) = enc16 (of_nat n')"
    "vec8 (chars (''tls13 '' @ l)) @ vec8 c = vec8 (chars (''tls13 '' @ l')) @ vec8 c'"
    using assms(1) by (auto simp: hkdf_label_def append_eq_append_conv)
  moreover from this(2) have "chars (''tls13 '' @ l) = chars (''tls13 '' @ l') \<and> vec8 c = vec8 c'"
    by (rule vec8_append_inj) (use assms in simp_all)
  ultimately have "(of_nat n :: u16) = of_nat n'" "''tls13 '' @ l = ''tls13 '' @ l'" "c = c'"
    using chars_inj [of "''tls13 '' @ l" "''tls13 '' @ l'"] by (auto simp: vec8_def)
  then show ?thesis
    using assms(6,7) word_of_nat_inj [of n n', where ?'a = 16] by simp
qed

section \<open>Properties\<close>

text \<open>
  C11. \<^verbatim>\<open>viltrum_hs13_seal\<close> makes no store outside \<^verbatim>\<open>out\<close> up to \<^verbatim>\<open>cap\<close> and keeps what stands before \<^verbatim>\<open>*n\<close>. If
  the records do not fit it returns -1; otherwise it returns 0 and a client that opens the records written, from the
  same sequence number on, reads the message.
\<close>

theorem hs13_seal_opens:
  assumes "length key = 16" "gcm_shape g0" "viltrum_gcm_init g0 key 16 = (0, g)" "length iv = 12"
    and "cap \<le> length out" "n \<le> cap"
  shows "\<exists>ret out' n' seq'. viltrum_hs13_seal g iv seq msg out cap n = Some (ret, out', n', seq') \<and> kept_outside n cap out out' \<and>
    (if cap < n + length msg + 22 * ((length msg + 16383) div 16384) then ret = - 1
     else ret = 0 \<and> n' = n + length msg + 22 * ((length msg + 16383) div 16384) \<and>
       dec_records (\<lambda>g iv aad c tag. snd (viltrum_gcm_open g iv aad c tag)) g iv seq (drop n (take n' out')) = Some msg)"
proof -
  have ready: "gcm_ready g"
    using gcm_init_ok [of key g0] assms(1-3) by (metis of_nat_numeral prod.inject)
  let ?fits = "n + records_size (length msg) \<le> cap"
  obtain out' n' seq' where r: "viltrum_hs13_seal g iv seq msg out cap n = Some (if ?fits then 0 else - 1, out', n', seq')"
    "kept_outside n cap out out'"
    "?fits \<longrightarrow> n' = n + records_size (length msg) \<and> take n' out' = take n out @ enc_records viltrum_gcm_seal g iv seq msg"
    using hs13_seal_post [OF ready assms(4-6), of seq msg] by blast
  have "dec_records (\<lambda>g iv aad c tag. snd (viltrum_gcm_open g iv aad c tag)) g iv seq
      (enc_records viltrum_gcm_seal g iv seq msg) = Some msg"
    using gcm.dec_enc_records [OF ready assms(4), of seq msg "[]"] by (simp add: dec_records.simps)
  moreover have "drop n (take n' out') = enc_records viltrum_gcm_seal g iv seq msg" if ?fits
  proof -
    have "take n' out' = take n out @ enc_records viltrum_gcm_seal g iv seq msg"
      using r(3) that by blast
    then show ?thesis
      using assms(5,6) by simp
  qed
  ultimately have "?fits \<Longrightarrow> dec_records (\<lambda>g iv aad c tag. snd (viltrum_gcm_open g iv aad c tag)) g iv seq (drop n (take n' out')) = Some msg"
    by simp
  then show ?thesis
    using r by (auto simp: records_size_def records_def)
qed

theorem hs13_seal_opens_witness:
  "\<exists>out' n' seq'. viltrum_hs13_seal demo_gcm (replicate 12 1) 0 [1, 2, 3] (replicate 100 0) 100 0 = Some (0, out', n', seq') \<and>
    n' = 25 \<and> dec_records (\<lambda>g iv aad c tag. snd (viltrum_gcm_open g iv aad c tag)) demo_gcm (replicate 12 1) 0 (take n' out') = Some [1, 2, 3]"
  using hs13_seal_opens [of "replicate 16 7" gcm_zero demo_gcm "replicate 12 1" 100 "replicate 100 0" 0 0 "[1, 2, 3]"]
    gcm_zero_shape demo_gcm_init by auto

text \<open>
  C34. \<^verbatim>\<open>viltrum_hs13_cert_msg\<close>: a first call without a buffer gives the size; a buffer with room for that receives the
  Certificate message, from which a client reads the chain back, and nothing beyond it changes; a buffer that is too
  small is left as it was, with the size returned.
\<close>

theorem hs13_cert_msg_roundtrip:
  assumes "viltrum_hs13_cert_msg crt None 0 = Some (need, q)" "need < 2 ^ 24" "cap \<le> length buf"
  shows "if need \<le> cap
    then \<exists>msg. viltrum_hs13_cert_msg crt (Some buf) cap = Some (need, Some (msg @ drop need buf)) \<and> length msg = need \<and>
      dec_certificate msg = Some (takeWhile (\<lambda>raw. raw \<noteq> []) crt)
    else viltrum_hs13_cert_msg crt (Some buf) cap = Some (need, Some buf)"
proof (cases "need \<le> cap")
  case True
  let ?certs = "cert_entries crt"
  have need: "need = certificate_size ?certs"
    using assms(1) by (simp add: cert_msg_eq(1))
  have "viltrum_hs13_cert_msg crt (Some buf) cap = Some (need, Some (enc_certificate ?certs @ drop need buf))"
    using True assms(3) cert_msg_eq(3) [of crt cap buf] by (simp add: need)
  moreover have "dec_certificate (enc_certificate ?certs) = Some (takeWhile (\<lambda>raw. raw \<noteq> []) crt)"
    using assms(2) dec_enc_certificate [of ?certs] by (simp add: need cert_entries_def)
  ultimately show ?thesis
    using True length_enc_certificate [of ?certs] need by auto
next
  case False
  then show ?thesis
    using assms(1) cert_msg_eq(2) [of cap crt buf] by (simp add: cert_msg_eq(1))
qed

theorem hs13_cert_msg_roundtrip_witness:
  "(\<exists>msg. viltrum_hs13_cert_msg [[48, 1], [48]] (Some (replicate 30 9)) 30 = Some (21, Some (msg @ drop 21 (replicate 30 9))) \<and>
    length msg = 21 \<and> dec_certificate msg = Some [[48, 1], [48]]) \<and>
   viltrum_hs13_cert_msg [[48, 1], [48]] (Some (replicate 30 9)) 20 = Some (21, Some (replicate 30 9))"
  using hs13_cert_msg_roundtrip [of "[[48, 1], [48]]" 21 None 30 "replicate 30 9"]
    hs13_cert_msg_roundtrip [of "[[48, 1], [48]]" 21 None 20 "replicate 30 9"]
  by (simp add: cert_msg_eq(1) cert_entries_def certificate_size_def)

text \<open>
  C19. \<^verbatim>\<open>viltrum_hs13_finished_ok\<close> accepts exactly the Finished message that carries the expected verify_data: the
  accumulated difference is a comparison of the whole message, whatever its length.
\<close>

theorem hs13_finished_ok_iff:
  assumes "length (k_c_fin keys) = 32"
  shows "viltrum_hs13_finished_ok msg keys = Some (msg = [20, 0, 0, 32] @ k_c_fin keys)"
  using finished_ok_eq [OF assms, of msg] assms by (simp add: enc_handshake_def enc24_def)

theorem hs13_finished_ok_iff_witness:
  "viltrum_hs13_finished_ok ([20, 0, 0, 32] @ replicate 32 7)
     \<lparr>k_c_key = [], k_c_iv = [], k_c_fin = replicate 32 7, k_c_ap = [], k_s_ap = [], k_s_iv = [], k_s_seq = 0\<rparr> = Some True"
  using hs13_finished_ok_iff [of "\<lparr>k_c_key = [], k_c_iv = [], k_c_fin = replicate 32 7, k_c_ap = [], k_s_ap = [],
      k_s_iv = [], k_s_seq = 0\<rparr>" "[20, 0, 0, 32] @ replicate 32 7"] by simp

text \<open>
  C35. HKDF-Expand-Label within the sizes the code accepts: no byte is written outside its buffer, the input that is
  expanded is the HkdfLabel of RFC 8446, and two calls that differ in label, context or length expand different inputs.
\<close>

theorem hs13_expand_separates:
  assumes "length l \<le> 32" "length c \<le> 64" "length l' \<le> 32" "length c' \<le> 64" "n < 65536" "n' < 65536"
  shows "viltrum_hs13_expand L s l c n = Some (hkdf_expand L s (hkdf_label l c n) n) \<and>
    (hkdf_label l c n = hkdf_label l' c' n' \<longleftrightarrow> (l, c, n) = (l', c', n'))"
  using assms hkdf_label_inj [of l c n l' c' n'] by (auto simp: expand_eq expand_info_eq)

definition demo_kdf :: "u8 list mbed" where
  "demo_kdf = \<lparr>sha256_init = [], sha256_starts = (\<lambda>c. Some []), sha256_update = (\<lambda>c m. Some (c @ m)), sha256_clone = (\<lambda>c. c),
     sha256_finish = (\<lambda>c. Some (replicate 32 (fold (+) c 0))), md_sha256 = (\<lambda>m. Some (replicate 32 (fold (+) m 0))),
     hkdf_extract = (\<lambda>s k. Some (replicate 32 (fold (+) (s @ k) 0))),
     hkdf_expand = (\<lambda>s i n. Some (replicate n (fold (+) (s @ i) 0))), md_hmac = (\<lambda>k m. Some (replicate 32 (fold (+) (k @ m) 0)))\<rparr>"

theorem hs13_expand_separates_witness:
  "viltrum_hs13_expand demo_kdf [1] ''key'' [] 16 = Some (hkdf_expand demo_kdf [1] (hkdf_label ''key'' [] 16) 16) \<and>
    hkdf_label ''key'' [] 16 \<noteq> hkdf_label ''iv'' [] 12"
  using hs13_expand_separates [of "''key''" "[]" "''iv''" "[]" 16 12 demo_kdf "[1]"] by simp

end
