(* ===== verification/Limbs.thy ===== *)
theory Limbs
  imports Prelude
begin

unbundle bit_operations_syntax

text \<open>
  Multi-limb building blocks of \<^verbatim>\<open>src/engine/rsa.h\<close>: the three-word column accumulator
  \<^verbatim>\<open>VILTRUM_MULACC\<close> in its portable and its x86-64 form, and the borrow and carry loops that the
  Montgomery code and the CRT recombination repeat. A number is a list of 64-bit limbs, low limb
  first, and \<open>le_val\<close> is its value.
\<close>

section \<open>The column accumulator\<close>

type_synonym acc3 = "u64 \<times> u64 \<times> u64"

fun acc_val :: "acc3 \<Rightarrow> int" where
  "acc_val (c0, c1, c2) = uint c0 + 2 ^ 64 * uint c1 + 2 ^ 128 * uint c2"

text \<open>\<^verbatim>\<open>(c0, c1, c2) += a * b\<close>, the portable macro over 128-bit sums.\<close>

fun VILTRUM_MULACC :: "u64 \<Rightarrow> u64 \<Rightarrow> acc3 \<Rightarrow> acc3" where
  "VILTRUM_MULACC a b (c0, c1, c2) =
     (let p = wide a * wide b;
          s = wide c0 + wide (narrow p);
          c0 = narrow s;
          s = wide c1 + wide (narrow (drop_bit 64 p)) + wide (narrow (drop_bit 64 s));
          c1 = narrow s;
          c2 = c2 + narrow (drop_bit 64 s)
      in (c0, c1, c2))"

definition VILTRUM_MULACC2 :: "u64 \<Rightarrow> u64 \<Rightarrow> acc3 \<Rightarrow> acc3" where
  "VILTRUM_MULACC2 a b c = VILTRUM_MULACC a b (VILTRUM_MULACC a b c)"

text \<open>
  The x86-64 macro: \<^verbatim>\<open>mulq\<close> leaves the product in two words, then one \<^verbatim>\<open>addq\<close> and two \<^verbatim>\<open>adcq\<close>. An
  add returns the wrapped sum and the carry flag.
\<close>

definition addq :: "u64 \<Rightarrow> u64 \<Rightarrow> u64 \<times> bool" where
  "addq x y = (x + y, 2 ^ 64 \<le> uint x + uint y)"

definition adcq :: "u64 \<Rightarrow> u64 \<Rightarrow> bool \<Rightarrow> u64 \<times> bool" where
  "adcq x y cf = (x + y + of_bool cf, 2 ^ 64 \<le> uint x + uint y + of_bool cf)"

definition mulq :: "u64 \<Rightarrow> u64 \<Rightarrow> u64 \<times> u64" where
  "mulq x y = (narrow (wide x * wide y), narrow (drop_bit 64 (wide x * wide y)))"

fun mulacc_x86 :: "u64 \<Rightarrow> u64 \<Rightarrow> acc3 \<Rightarrow> acc3" where
  "mulacc_x86 a b (c0, c1, c2) =
     (let (lo, hi) = mulq a b;
          (c0, cf) = addq c0 lo;
          (c1, cf) = adcq c1 hi cf;
          (c2, cf) = adcq c2 0 cf
      in (c0, c1, c2))"

fun mulacc2_x86 :: "u64 \<Rightarrow> u64 \<Rightarrow> acc3 \<Rightarrow> acc3" where
  "mulacc2_x86 a b (c0, c1, c2) =
     (let (lo, hi) = mulq a b;
          (c0, cf) = addq c0 lo;
          (c1, cf) = adcq c1 hi cf;
          (c2, cf) = adcq c2 0 cf;
          (c0, cf) = addq c0 lo;
          (c1, cf) = adcq c1 hi cf;
          (c2, cf) = adcq c2 0 cf
      in (c0, c1, c2))"

section \<open>Borrow and carry loops\<close>

text \<open>
  \<^verbatim>\<open>s = (u128)t[j] - m[j] - borrow; d[j] = (uint64_t)s; borrow = (uint64_t)(s >> 64) & 1\<close> over
  the limbs of \<open>t\<close> and \<open>m\<close>.
\<close>

fun sub_loop :: "u64 list \<Rightarrow> u64 list \<Rightarrow> u64 \<Rightarrow> u64 list \<times> u64" where
  "sub_loop (t # ts) (m # ms) borrow =
     (let s = wide t - wide m - wide borrow;
          (d, b) = sub_loop ts ms (narrow (drop_bit 64 s) AND 1)
      in (narrow s # d, b))"
| "sub_loop _ _ borrow = ([], borrow)"

text \<open>\<^verbatim>\<open>s = (u128)a[j] + b[j] + c; a[j] = (uint64_t)s; c = (uint64_t)(s >> 64)\<close>.\<close>

fun add_loop :: "u64 list \<Rightarrow> u64 list \<Rightarrow> u64 \<Rightarrow> u64 list \<times> u64" where
  "add_loop (a # as) (b # bs) c =
     (let s = wide a + wide b + wide c;
          (d, c') = add_loop as bs (narrow (drop_bit 64 s))
      in (narrow s # d, c'))"
| "add_loop _ _ c = ([], c)"

text \<open>\<^verbatim>\<open>s = (u128)x * m[j] + t[j] + c; t[j] = (uint64_t)s; c = (uint64_t)(s >> 64)\<close>.\<close>

fun muladd_loop :: "u64 \<Rightarrow> u64 list \<Rightarrow> u64 list \<Rightarrow> u64 \<Rightarrow> u64 list \<times> u64" where
  "muladd_loop x (m # ms) (t # ts) c =
     (let s = wide x * wide m + wide t + wide c;
          (d, c') = muladd_loop x ms ts (narrow (drop_bit 64 s))
      in (narrow s # d, c'))"
| "muladd_loop x _ _ c = ([], c)"

text \<open>\<^verbatim>\<open>r[j] = (d[j] & mask) | (t[j] & ~mask)\<close>.\<close>

definition select_limbs :: "u64 \<Rightarrow> u64 list \<Rightarrow> u64 list \<Rightarrow> u64 list" where
  "select_limbs msk d t = map2 (\<lambda>x y. (x AND msk) OR (y AND NOT msk)) d t"

section \<open>Correctness\<close>

lemma uint_wide_add: "uint (wide a + wide b) = uint a + uint b"
  using uint_64_less [of a] uint_64_less [of b] by (subst uint_add_exact) (simp_all add: uint_wide)

lemma uint_wide_add3: "uint (wide a + wide b + wide c) = uint a + uint b + uint c"
  using uint_64_less [of a] uint_64_less [of b] uint_64_less [of c]
  by (subst uint_add_exact) (simp_all add: uint_wide_add uint_wide)

lemma uint_wide_muladd: "uint (wide a * wide b + wide c + wide d) = uint a * uint b + uint c + uint d"
proof -
  have "uint a * uint b \<le> (2 ^ 64 - 1) * (2 ^ 64 - 1)"
    using uint_64_less [of a] uint_64_less [of b] by (intro mult_mono) simp_all
  then show ?thesis
    using uint_64_less [of c] uint_64_less [of d]
    by (subst uint_add_exact; (subst uint_add_exact)?) (simp_all add: uint_wide_mult uint_wide)
qed

lemma acc_val_bounds: "0 \<le> acc_val c" "acc_val c < 2 ^ 192"
  using uint_64_less [of "fst c"] uint_64_less [of "fst (snd c)"] uint_64_less [of "snd (snd c)"]
  by (cases c; simp)+

lemma acc_val_mulacc:
  assumes "acc_val c + uint a * uint b < 2 ^ 192"
  shows "acc_val (VILTRUM_MULACC a b c) = acc_val c + uint a * uint b"
proof -
  obtain c0 c1 c2 where c: "c = (c0, c1, c2)" by (cases c)
  define p where "p = wide a * wide b"
  define s where "s = wide c0 + wide (narrow p)"
  define s' where "s' = wide c1 + wide (narrow (drop_bit 64 p)) + wide (narrow (drop_bit 64 s))"
  have p: "uint (narrow p) + 2 ^ 64 * uint (narrow (drop_bit 64 p)) = uint a * uint b"
    by (simp only: uint_split_64 p_def uint_wide_mult)
  have s: "uint (narrow s) + 2 ^ 64 * uint (narrow (drop_bit 64 s)) = uint c0 + uint (narrow p)"
    by (simp only: uint_split_64 s_def uint_wide_add)
  have s': "uint (narrow s') + 2 ^ 64 * uint (narrow (drop_bit 64 s')) =
      uint c1 + uint (narrow (drop_bit 64 p)) + uint (narrow (drop_bit 64 s))"
    by (simp only: uint_split_64 s'_def uint_wide_add3)
  have total: "uint (narrow s) + 2 ^ 64 * uint (narrow s') + 2 ^ 128 * (uint c2 + uint (narrow (drop_bit 64 s')))
      = acc_val c + uint a * uint b"
    using p s s' by (simp add: c)
  moreover have "0 \<le> uint (narrow s)" "0 \<le> 2 ^ 64 * uint (narrow s')" by simp_all
  ultimately have "2 ^ 128 * (uint c2 + uint (narrow (drop_bit 64 s'))) < 2 ^ 192"
    using assms by linarith
  then have "uint c2 + uint (narrow (drop_bit 64 s')) < 2 ^ 64" by simp
  then have "uint (c2 + narrow (drop_bit 64 s')) = uint c2 + uint (narrow (drop_bit 64 s'))"
    by (intro uint_add_exact) simp
  moreover have "VILTRUM_MULACC a b c = (narrow s, narrow s', c2 + narrow (drop_bit 64 s'))"
    by (simp add: c Let_def p_def s_def s'_def)
  ultimately show ?thesis using total by simp
qed

text \<open>The assembly form computes the same words on every input.\<close>

lemma narrow_sum_carry:
  "narrow (wide x + wide y + wide (of_bool c)) = x + y + of_bool c"
  "narrow (drop_bit 64 (wide x + wide y + wide (of_bool c))) = of_bool (2 ^ 64 \<le> uint x + uint y + of_bool c)"
proof -
  have c: "uint (of_bool c :: u64) = of_bool c" by simp
  show "narrow (wide x + wide y + wide (of_bool c)) = x + y + of_bool c"
    by (simp only: word_uint_eq_iff uint_narrow uint_wide_add3) (simp add: uint_word_ariths(1) mod_simps)
  have "uint (narrow (drop_bit 64 (wide x + wide y + wide (of_bool c)))) = (uint x + uint y + of_bool c) div 2 ^ 64 mod 2 ^ 64"
    by (simp only: uint_narrow uint_drop_bit uint_wide_add3 c)
  also have "\<dots> = uint (of_bool (2 ^ 64 \<le> uint x + uint y + of_bool c) :: u64)"
  proof (cases "2 ^ 64 \<le> uint x + uint y + (of_bool c :: int)")
    case True
    have "uint x + uint y + of_bool c < 2 * 2 ^ 64"
      using uint_64_less [of x] uint_64_less [of y] by (cases c) simp_all
    with True have "(uint x + uint y + of_bool c) div 2 ^ 64 = 1"
      by (intro int_div_pos_eq [where r = "uint x + uint y + of_bool c - 2 ^ 64"]) simp_all
    with True show ?thesis by simp
  qed simp
  finally show "narrow (drop_bit 64 (wide x + wide y + wide (of_bool c))) = of_bool (2 ^ 64 \<le> uint x + uint y + of_bool c)"
    by (simp add: word_uint_eq_iff)
qed

lemma wide_0 [simp]: "wide 0 = 0"
  by (simp add: wide_def)

lemma narrow_sum_carry2:
  "narrow (wide x + wide y) = x + y"
  "narrow (drop_bit 64 (wide x + wide y)) = of_bool (2 ^ 64 \<le> uint x + uint y)"
  using narrow_sum_carry [of x y False] by simp_all

lemma mulacc_x86_eq: "mulacc_x86 a b c = VILTRUM_MULACC a b c"
  by (cases c) (simp only: mulacc_x86.simps VILTRUM_MULACC.simps mulq_def addq_def adcq_def Let_def
      narrow_sum_carry narrow_sum_carry2 prod.case add_0_right)

lemma mulacc2_x86_eq: "mulacc2_x86 a b c = VILTRUM_MULACC2 a b c"
proof -
  have "mulacc2_x86 a b c = mulacc_x86 a b (mulacc_x86 a b c)"
    by (cases c) (simp add: mulq_def addq_def adcq_def Let_def)
  then show ?thesis by (simp add: VILTRUM_MULACC2_def mulacc_x86_eq)
qed

text \<open>A borrow is 0 or 1 and the loops account for every carry out of the top limb.\<close>

lemma sub_step:
  fixes t m b :: u64
  assumes "uint b \<le> 1"
  defines "s \<equiv> wide t - wide m - wide b"
  shows "uint (narrow s) = uint t - uint m - uint b + 2 ^ 64 * uint (narrow (drop_bit 64 s) AND 1)"
    and "uint (narrow (drop_bit 64 s) AND 1) \<le> 1"
proof -
  define x where "x = uint t - uint m - uint b"
  note nn = uint_nonneg_less(1) [of t] uint_nonneg_less(1) [of m] uint_nonneg_less(1) [of b]
  have "x < 18446744073709551616"
    unfolding x_def using nn uint_64_less [of t] by linarith
  moreover have "- 18446744073709551616 \<le> x"
    unfolding x_def using nn assms(1) uint_64_less [of m] by linarith
  ultimately have x: "x < 2 ^ 64" "- (2 ^ 64) \<le> x" by simp_all
  have "uint s = x mod 2 ^ 128"
    by (simp add: s_def x_def uint_word_ariths(2) uint_wide mod_simps)
  then have s: "uint s = (if 0 \<le> x then x else x + 2 ^ 128)"
    using x int_mod_pos_eq [of x "2 ^ 128" "-1" "x + 2 ^ 128"] by simp
  have b1: "uint (y AND 1) = uint y mod 2" for y :: u64
    using uint_and_mask [of y 1] by simp
  show "uint (narrow (drop_bit 64 s) AND 1) \<le> 1" by (simp add: b1)
  show "uint (narrow s) = uint t - uint m - uint b + 2 ^ 64 * uint (narrow (drop_bit 64 s) AND 1)"
  proof (cases "0 \<le> x")
    case True
    then show ?thesis using x s by (simp add: b1 uint_narrow uint_drop_bit x_def [symmetric])
  next
    case False
    have "(x + 2 ^ 128) mod 2 ^ 64 = x + 2 ^ 64"
      using False x by (intro int_mod_pos_eq [where q = "2 ^ 64 - 1"]) simp_all
    moreover have "(x + 2 ^ 128) div 2 ^ 64 = 2 ^ 64 - 1"
      using False x by (intro int_div_pos_eq [where r = "x + 2 ^ 64"]) simp_all
    ultimately show ?thesis
      using False s by (simp add: b1 uint_narrow uint_drop_bit x_def [symmetric])
  qed
qed

lemma sub_loop_correct:
  assumes "length t = length m" and "uint b \<le> 1" and "sub_loop t m b = (d, b')"
  shows "length d = length t \<and> uint b' \<le> 1 \<and>
    le_val d = le_val t - le_val m - uint b + 2 ^ (64 * length t) * uint b'"
  using assms
proof (induction t m arbitrary: b d rule: list_induct2)
  case Nil
  then show ?case by simp
next
  case (Cons t ts m ms)
  define s where "s = wide t - wide m - wide b"
  obtain d2 where d2: "sub_loop ts ms (narrow (drop_bit 64 s) AND 1) = (d2, b')" and d: "d = narrow s # d2"
    using Cons.prems(2) by (auto simp: Let_def s_def split: prod.splits)
  have "length d2 = length ts \<and> uint b' \<le> 1 \<and> le_val d2 =
      le_val ts - le_val ms - uint (narrow (drop_bit 64 s) AND 1) + 2 ^ (64 * length ts) * uint b'"
    using sub_step(2) [OF Cons.prems(1), of t m, folded s_def] d2 by (rule Cons.IH)
  with sub_step(1) [OF Cons.prems(1), of t m, folded s_def] show ?case
    by (simp add: d algebra_simps power_add)
qed

lemma add_loop_correct:
  assumes "length a = length b" and "add_loop a b c = (d, c')"
  shows "length d = length a \<and> le_val d + 2 ^ (64 * length a) * uint c' = le_val a + le_val b + uint c"
  using assms
proof (induction a b arbitrary: c d rule: list_induct2)
  case Nil
  then show ?case by simp
next
  case (Cons a as b bs)
  define s where "s = wide a + wide b + wide c"
  obtain d2 where d2: "add_loop as bs (narrow (drop_bit 64 s)) = (d2, c')" and d: "d = narrow s # d2"
    using Cons.prems by (auto simp: Let_def s_def split: prod.splits)
  have "uint (narrow s) + 2 ^ 64 * uint (narrow (drop_bit 64 s)) = uint a + uint b + uint c"
    by (simp only: uint_split_64 s_def uint_wide_add3)
  with Cons.IH [OF d2] show ?case
    by (simp add: d algebra_simps power_add)
qed

lemma muladd_loop_correct:
  assumes "length m = length t" and "muladd_loop x m t c = (d, c')"
  shows "length d = length m \<and>
    le_val d + 2 ^ (64 * length m) * uint c' = uint x * le_val m + le_val t + uint c"
  using assms
proof (induction m t arbitrary: c d rule: list_induct2)
  case Nil
  then show ?case by simp
next
  case (Cons m ms t ts)
  define s where "s = wide x * wide m + wide t + wide c"
  obtain d2 where d2: "muladd_loop x ms ts (narrow (drop_bit 64 s)) = (d2, c')" and d: "d = narrow s # d2"
    using Cons.prems by (auto simp: Let_def s_def split: prod.splits)
  have "uint (narrow s) + 2 ^ 64 * uint (narrow (drop_bit 64 s)) = uint x * uint m + uint t + uint c"
    by (simp only: uint_split_64 s_def uint_wide_muladd)
  with Cons.IH [OF d2] show ?case
    by (simp add: d algebra_simps power_add)
qed

lemma select_limbs_ones: "length d = length t \<Longrightarrow> select_limbs (- 1) d t = d"
  by (simp add: select_limbs_def list_eq_iff_nth_eq)

lemma select_limbs_zero: "length d = length t \<Longrightarrow> select_limbs 0 d t = t"
  by (simp add: select_limbs_def list_eq_iff_nth_eq)

section \<open>Properties of the accumulator\<close>

text \<open>
  C25. The x86-64 assembly forms of \<^verbatim>\<open>VILTRUM_MULACC\<close> and \<^verbatim>\<open>VILTRUM_MULACC2\<close> compute the same three
  words as the portable macros, on every input.
\<close>

theorem mulacc_forms_agree:
  "mulacc_x86 a b c = VILTRUM_MULACC a b c \<and> mulacc2_x86 a b c = VILTRUM_MULACC2 a b c"
  by (simp add: mulacc_x86_eq mulacc2_x86_eq)

end
