(* ===== verification/Mont.thy ===== *)
theory Mont
  imports Limbs
begin

unbundle bit_operations_syntax

text \<open>
  Montgomery arithmetic of \<^verbatim>\<open>src/engine/rsa.h\<close>: the product-scanning multiplication
  \<^verbatim>\<open>viltrum_mont_k\<close> with its squaring variant and the size dispatch. A product of any two
  \<open>k\<close>-limb numbers is congruent to \<open>a * b / R\<close> and fully reduced when \<open>a * b < m * R\<close>.
\<close>

section \<open>Operations\<close>

text \<open>
  Column \<open>i\<close> of the product: the cross products \<open>a[j] * b[i - j]\<close>, or for a square each cross
  product once and doubled (\<^verbatim>\<open>j < i - j\<close>) and the middle one.
\<close>

definition col_lo :: "nat \<Rightarrow> nat \<Rightarrow> nat" where
  "col_lo k i = (if i < k then 0 else i - k + 1)"

definition mont_product_column :: "nat \<Rightarrow> bool \<Rightarrow> u64 list \<Rightarrow> u64 list \<Rightarrow> nat \<Rightarrow> acc3 \<Rightarrow> acc3" where
  "mont_product_column k sq a b i c =
     (if sq then
        (let c = fold (\<lambda>j. VILTRUM_MULACC2 (a ! j) (a ! (i - j))) [col_lo k i..<(i + 1) div 2] c
         in if even i then VILTRUM_MULACC (a ! (i div 2)) (a ! (i div 2)) c else c)
      else fold (\<lambda>j. VILTRUM_MULACC (a ! j) (b ! (i - j))) [col_lo k i..<min (i + 1) k] c)"

fun acc_shift :: "acc3 \<Rightarrow> acc3" where
  "acc_shift (c0, c1, c2) = (c1, c2, 0)"

text \<open>
  One iteration of the column loop on \<open>(u, t, c)\<close>: \<open>u\<close> and \<open>t\<close> are the words written so far, in
  index order.
\<close>

fun mont_column ::
  "nat \<Rightarrow> bool \<Rightarrow> u64 list \<Rightarrow> u64 list \<Rightarrow> u64 list \<Rightarrow> u64 \<Rightarrow> nat \<Rightarrow>
   u64 list \<times> u64 list \<times> acc3 \<Rightarrow> u64 list \<times> u64 list \<times> acc3" where
  "mont_column k sq a b m n0 i (u, t, c) =
     (let c = mont_product_column k sq a b i c
      in if i < k then
           (let c = fold (\<lambda>j. VILTRUM_MULACC (u ! j) (m ! (i - j))) [0..<i] c;
                ui = fst c * n0;
                c = VILTRUM_MULACC ui (m ! 0) c
            in (u @ [ui], t, acc_shift c))
         else
           (let c = fold (\<lambda>j. VILTRUM_MULACC (u ! j) (m ! (i - j))) [col_lo k i..<k] c
            in (u, t @ [fst c], acc_shift c)))"

text \<open>
  The final masked subtraction: \<open>t\<close> has \<open>k\<close> low limbs and a top word, and the modulus is
  subtracted unless that would borrow past the top word.
\<close>

definition mont_final :: "u64 list \<Rightarrow> u64 \<Rightarrow> u64 list \<Rightarrow> u64 list" where
  "mont_final t hi m =
     (let (d, borrow) = sub_loop t m 0;
          use_d = 0 - ((hi OR (borrow XOR 1)) AND 1)
      in select_limbs use_d d t)"

definition viltrum_mont_k :: "u64 list \<Rightarrow> u64 list \<Rightarrow> u64 list \<Rightarrow> u64 \<Rightarrow> nat \<Rightarrow> bool \<Rightarrow> u64 list" where
  "viltrum_mont_k a b m n0 k sq =
     (let (u, t, c) = fold (mont_column k sq a b m n0) [0..<2 * k - 1] ([], [], (0, 0, 0))
      in mont_final (t @ [fst c]) (fst (snd c)) m)"

definition viltrum_mont_mul16 :: "u64 list \<Rightarrow> u64 list \<Rightarrow> u64 list \<Rightarrow> u64 \<Rightarrow> u64 list" where
  "viltrum_mont_mul16 a b m n0 = viltrum_mont_k a b m n0 16 False"

definition viltrum_mont_sqr16 :: "u64 list \<Rightarrow> u64 list \<Rightarrow> u64 \<Rightarrow> u64 list" where
  "viltrum_mont_sqr16 a m n0 = viltrum_mont_k a a m n0 16 True"

definition viltrum_mont_mul24 :: "u64 list \<Rightarrow> u64 list \<Rightarrow> u64 list \<Rightarrow> u64 \<Rightarrow> u64 list" where
  "viltrum_mont_mul24 a b m n0 = viltrum_mont_k a b m n0 24 False"

definition viltrum_mont_sqr24 :: "u64 list \<Rightarrow> u64 list \<Rightarrow> u64 \<Rightarrow> u64 list" where
  "viltrum_mont_sqr24 a m n0 = viltrum_mont_k a a m n0 24 True"

definition viltrum_mont_mul32 :: "u64 list \<Rightarrow> u64 list \<Rightarrow> u64 list \<Rightarrow> u64 \<Rightarrow> u64 list" where
  "viltrum_mont_mul32 a b m n0 = viltrum_mont_k a b m n0 32 False"

definition viltrum_mont_sqr32 :: "u64 list \<Rightarrow> u64 list \<Rightarrow> u64 \<Rightarrow> u64 list" where
  "viltrum_mont_sqr32 a m n0 = viltrum_mont_k a a m n0 32 True"

definition viltrum_mont_mul_any :: "u64 list \<Rightarrow> u64 list \<Rightarrow> u64 list \<Rightarrow> u64 \<Rightarrow> nat \<Rightarrow> u64 list" where
  "viltrum_mont_mul_any a b m n0 k = viltrum_mont_k a b m n0 k False"

definition viltrum_mont_sqr_any :: "u64 list \<Rightarrow> u64 list \<Rightarrow> u64 \<Rightarrow> nat \<Rightarrow> u64 list" where
  "viltrum_mont_sqr_any a m n0 k = viltrum_mont_k a a m n0 k True"

definition viltrum_mont_mul :: "u64 list \<Rightarrow> u64 list \<Rightarrow> u64 list \<Rightarrow> u64 \<Rightarrow> nat \<Rightarrow> u64 list" where
  "viltrum_mont_mul a b m n0 k =
     (if k = 16 then viltrum_mont_mul16 a b m n0
      else if k = 24 then viltrum_mont_mul24 a b m n0
      else if k = 32 then viltrum_mont_mul32 a b m n0
      else viltrum_mont_mul_any a b m n0 k)"

definition viltrum_mont_sqr :: "u64 list \<Rightarrow> u64 list \<Rightarrow> u64 \<Rightarrow> nat \<Rightarrow> u64 list" where
  "viltrum_mont_sqr a m n0 k =
     (if k = 16 then viltrum_mont_sqr16 a m n0
      else if k = 24 then viltrum_mont_sqr24 a m n0
      else if k = 32 then viltrum_mont_sqr32 a m n0
      else viltrum_mont_sqr_any a m n0 k)"

section \<open>Column sums\<close>

definition conv :: "nat \<Rightarrow> u64 list \<Rightarrow> u64 list \<Rightarrow> nat \<Rightarrow> int" where
  "conv k x y i = (\<Sum>j\<in>{col_lo k i..<min (i + 1) k}. uint (x ! j) * uint (y ! (i - j)))"

lemma conv_set: "{col_lo k i..<min (i + 1) k} = {j. j < k \<and> j \<le> i \<and> i - j < k}"
  by (auto simp: col_lo_def)

lemma conv_sum:
  assumes "length x = k" and "length y = k" and "0 < k"
  shows "(\<Sum>i<2 * k - 1. conv k x y i * 2 ^ (64 * i)) = le_val x * le_val y"
proof -
  let ?S = "{..<k} \<times> {..<k}"
  let ?f = "\<lambda>(j, l). uint (x ! j) * uint (y ! l) * (2::int) ^ (64 * (j + l))"
  have col: "conv k x y i * 2 ^ (64 * i) = (\<Sum>z\<in>{z \<in> ?S. fst z + snd z = i}. ?f z)" for i
    unfolding conv_def conv_set sum_distrib_right
    by (rule sum.reindex_bij_witness [of _ fst "\<lambda>j. (j, i - j)"]) auto
  have "(\<Sum>i<2 * k - 1. conv k x y i * 2 ^ (64 * i)) = (\<Sum>i<2 * k - 1. \<Sum>z\<in>{z \<in> ?S. fst z + snd z = i}. ?f z)"
    by (simp only: col)
  also have "\<dots> = (\<Sum>z\<in>?S. ?f z)"
    by (rule sum.group) auto
  also have "\<dots> = (\<Sum>j<k. \<Sum>l<k. (uint (x ! j) * 2 ^ (64 * j)) * (uint (y ! l) * 2 ^ (64 * l)))"
    by (simp add: sum.cartesian_product power_add algebra_simps)
  also have "\<dots> = le_val x * le_val y"
    by (simp add: le_val_sum assms sum_product)
  finally show ?thesis .
qed

lemma conv_square:
  assumes "i < 2 * k - 1"
  shows "2 * (\<Sum>j\<in>{col_lo k i..<(i + 1) div 2}. uint (a ! j) * uint (a ! (i - j)))
      + (if even i then uint (a ! (i div 2)) * uint (a ! (i div 2)) else 0) = conv k a a i"
proof -
  let ?f = "\<lambda>j. uint (a ! j) * uint (a ! (i - j))"
  let ?lo = "col_lo k i" and ?c = "(i + 1) div 2"
  have hi: "min (i + 1) k = i + 1 - ?lo" and lo: "?lo \<le> i div 2"
    using assms by (auto simp: col_lo_def)
  have mid: "?lo \<le> ?c" "?c \<le> i + 1 - ?lo" using lo by auto
  have up: "(\<Sum>j\<in>{?c..<i + 1 - ?lo}. ?f j) = (\<Sum>j\<in>{?lo..<i + 1 - ?c}. ?f j)"
    by (rule sum.reindex_bij_witness [of _ "\<lambda>j. i - j" "\<lambda>j. i - j"]) (auto simp: mult.commute)
  have "conv k a a i = (\<Sum>j\<in>{?lo..<?c}. ?f j) + (\<Sum>j\<in>{?c..<i + 1 - ?lo}. ?f j)"
    unfolding conv_def hi by (rule sum.atLeastLessThan_concat [OF mid, symmetric])
  also have "(\<Sum>j\<in>{?c..<i + 1 - ?lo}. ?f j) = (\<Sum>j\<in>{?lo..<?c}. ?f j)
      + (if even i then uint (a ! (i div 2)) * uint (a ! (i div 2)) else 0)"
  proof (cases "even i")
    case True
    then obtain h where i: "i = 2 * h" by (rule evenE)
    then have "{?lo..<i + 1 - ?c} = insert h {?lo..<?c}" using lo by auto
    then show ?thesis using up i by simp
  next
    case False
    then obtain h where i: "i = 2 * h + 1" by (rule oddE)
    then have "i + 1 - ?c = ?c" by simp
    then show ?thesis using up False by simp
  qed
  finally show ?thesis by simp
qed

lemma conv_append:
  "i < length u \<Longrightarrow> conv k (u @ v) m i = conv k u m i"
  by (auto simp: conv_def nth_append intro!: sum.cong)

section \<open>Accumulating a column\<close>

lemma limb_mult_le: "uint (a::u64) * uint (b::u64) \<le> 2 ^ 128 - 1"
proof -
  have "uint a * uint b \<le> (2 ^ 64 - 1) * (2 ^ 64 - 1)"
    using uint_64_less [of a] uint_64_less [of b] by (intro mult_mono) simp_all
  then show ?thesis by simp
qed

lemma fold_mulacc:
  assumes "acc_val c + int (length js) * 2 ^ 128 \<le> 2 ^ 192"
  shows "acc_val (fold (\<lambda>j. VILTRUM_MULACC (f j) (g j)) js c) =
      acc_val c + (\<Sum>j\<leftarrow>js. uint (f j) * uint (g j))"
  using assms
proof (induction js arbitrary: c)
  case Nil
  then show ?case by simp
next
  case (Cons j js)
  have "acc_val (VILTRUM_MULACC (f j) (g j) c) = acc_val c + uint (f j) * uint (g j)"
    using Cons.prems limb_mult_le [of "f j" "g j"] by (intro acc_val_mulacc) (simp add: distrib_right)
  moreover from this have "acc_val (VILTRUM_MULACC (f j) (g j) c) + int (length js) * 2 ^ 128 \<le> 2 ^ 192"
    using Cons.prems limb_mult_le [of "f j" "g j"] by (simp add: distrib_right)
  ultimately show ?case using Cons.IH by simp
qed

lemma acc_val_mulacc2:
  assumes "acc_val c + 2 * 2 ^ 128 \<le> 2 ^ 192"
  shows "acc_val (VILTRUM_MULACC2 a b c) = acc_val c + 2 * (uint a * uint b)"
  using fold_mulacc [of c "[(), ()]" "\<lambda>_. a" "\<lambda>_. b"] assms by (simp add: VILTRUM_MULACC2_def)

lemma fold_mulacc2:
  assumes "acc_val c + 2 * int (length js) * 2 ^ 128 \<le> 2 ^ 192"
  shows "acc_val (fold (\<lambda>j. VILTRUM_MULACC2 (f j) (g j)) js c) =
      acc_val c + 2 * (\<Sum>j\<leftarrow>js. uint (f j) * uint (g j))"
  using assms
proof (induction js arbitrary: c)
  case Nil
  then show ?case by simp
next
  case (Cons j js)
  have "acc_val (VILTRUM_MULACC2 (f j) (g j) c) = acc_val c + 2 * (uint (f j) * uint (g j))"
    using Cons.prems by (intro acc_val_mulacc2) (simp add: distrib_right)
  moreover from this have "acc_val (VILTRUM_MULACC2 (f j) (g j) c) + 2 * int (length js) * 2 ^ 128 \<le> 2 ^ 192"
    using Cons.prems limb_mult_le [of "f j" "g j"] by (simp add: distrib_right)
  ultimately show ?case using Cons.IH by (simp add: distrib_left)
qed

lemma product_column_val:
  assumes "acc_val c < 2 ^ 128" and "k \<le> 64" and "i < 2 * k - 1" and "sq \<Longrightarrow> b = a"
  shows "acc_val (mont_product_column k sq a b i c) = acc_val c + conv k a b i"
proof (cases sq)
  case False
  have "length [col_lo k i..<min (i + 1) k] \<le> 64"
    using assms(2) by (auto simp: col_lo_def)
  then show ?thesis
    using False assms(1)
    by (simp add: mont_product_column_def fold_mulacc conv_def sum_list_upt)
next
  case True
  let ?c = "fold (\<lambda>j. VILTRUM_MULACC2 (a ! j) (a ! (i - j))) [col_lo k i..<(i + 1) div 2] c"
  have len: "length [col_lo k i..<(i + 1) div 2] \<le> 64"
    using assms(2,3) by (auto simp: col_lo_def)
  have c: "acc_val ?c = acc_val c + 2 * (\<Sum>j\<in>{col_lo k i..<(i + 1) div 2}. uint (a ! j) * uint (a ! (i - j)))"
    using len assms(1) by (subst fold_mulacc2) (simp_all add: sum_list_upt)
  have "(\<Sum>j\<in>{col_lo k i..<(i + 1) div 2}. uint (a ! j) * uint (a ! (i - j)))
      \<le> (\<Sum>j\<in>{col_lo k i..<(i + 1) div 2}. 2 ^ 128 - 1)"
    by (intro sum_mono limb_mult_le)
  also have "\<dots> \<le> 64 * (2 ^ 128 - 1)"
    using len by simp
  finally have "acc_val ?c + uint (a ! (i div 2)) * uint (a ! (i div 2)) < 2 ^ 192"
    using c assms(1) limb_mult_le [of "a ! (i div 2)" "a ! (i div 2)"] by simp
  then have "even i \<Longrightarrow> acc_val (VILTRUM_MULACC (a ! (i div 2)) (a ! (i div 2)) ?c)
      = acc_val ?c + uint (a ! (i div 2)) * uint (a ! (i div 2))"
    by (intro acc_val_mulacc)
  then show ?thesis
    using True assms(4) c conv_square [OF assms(3), of a]
    by (auto simp: mont_product_column_def Let_def)
qed

lemma conv_le: "conv k x y i \<le> int k * (2 ^ 128 - 1)"
proof -
  have "conv k x y i \<le> (\<Sum>j\<in>{col_lo k i..<min (i + 1) k}. 2 ^ 128 - 1)"
    unfolding conv_def by (intro sum_mono limb_mult_le)
  also have "\<dots> = int (min (i + 1) k - col_lo k i) * (2 ^ 128 - 1)" by simp
  also have "\<dots> \<le> int k * (2 ^ 128 - 1)" by (intro mult_right_mono) (auto simp: col_lo_def)
  finally show ?thesis .
qed

lemma conv_nonneg: "0 \<le> conv k x y i"
  by (simp add: conv_def sum_nonneg)

lemma acc_val_shift:
  "acc_val c = uint (fst c) + 2 ^ 64 * acc_val (acc_shift c)" "acc_val (acc_shift c) < 2 ^ 128"
  using uint_64_less [of "fst (snd c)"] uint_64_less [of "snd (snd c)"] by (cases c; simp)+

text \<open>
  The invariant of the column loop after \<open>n\<close> columns: the columns summed so far, at their
  weights, are the running sum at weight \<open>n\<close> and the result words already written.
\<close>

definition mont_inv ::
  "nat \<Rightarrow> u64 list \<Rightarrow> u64 list \<Rightarrow> u64 list \<Rightarrow> nat \<Rightarrow> u64 list \<times> u64 list \<times> acc3 \<Rightarrow> bool" where
  "mont_inv k a b m n s = (case s of (u, t, c) \<Rightarrow>
     length u = min n k \<and> length t = n - k \<and> acc_val c < 2 ^ 128 \<and>
     (\<Sum>i<n. (conv k a b i + conv k u m i) * 2 ^ (64 * i)) =
       acc_val c * 2 ^ (64 * n) + le_val t * 2 ^ (64 * k))"

definition mont_modulus :: "u64 list \<Rightarrow> u64 \<Rightarrow> nat \<Rightarrow> bool" where
  "mont_modulus m n0 k \<longleftrightarrow> length m = k \<and> 0 < k \<and> k \<le> 64 \<and> (uint (m ! 0) * uint n0 + 1) mod 2 ^ 64 = 0"

lemma mont_low_word_zero:
  assumes "mont_modulus m n0 k" and "acc_val c' = acc_val c + uint (fst c * n0) * uint (m ! 0)"
  shows "fst c' = 0"
proof -
  have "uint (fst c') = acc_val c' mod 2 ^ 64"
    using uint_64_less [of "fst c'"] by (simp add: acc_val_shift(1) [of c'])
  also have "\<dots> = (acc_val c mod 2 ^ 64 + uint (fst c * n0) * uint (m ! 0)) mod 2 ^ 64"
    by (simp add: assms(2) mod_simps)
  also have "acc_val c mod 2 ^ 64 = uint (fst c)"
    using uint_64_less [of "fst c"] by (simp add: acc_val_shift(1) [of c])
  also have "uint (fst c * n0) = uint (fst c) * uint n0 mod 2 ^ 64"
    by (simp add: uint_word_ariths)
  also have "(uint (fst c) + uint (fst c) * uint n0 mod 2 ^ 64 * uint (m ! 0)) mod 2 ^ 64
      = (uint (fst c) + uint (fst c) * uint n0 * uint (m ! 0)) mod 2 ^ 64"
    by (intro mod_add_eqI mod_mult_eqI refl mod_mod_trivial)
  also have "uint (fst c) + uint (fst c) * uint n0 * uint (m ! 0) = uint (fst c) * (uint (m ! 0) * uint n0 + 1)"
    by (simp add: algebra_simps)
  also have "\<dots> mod 2 ^ 64 = uint (fst c) * 0 mod 2 ^ 64"
    using assms(1) unfolding mont_modulus_def by (intro mod_mult_eqI refl) simp
  finally show ?thesis by (simp add: word_uint_eq_iff)
qed

lemma mont_column_low:
  assumes "mont_modulus m n0 k" and "n < k" and "sq \<Longrightarrow> b = a" and "mont_inv k a b m n (u, t, c)"
  shows "mont_inv k a b m (Suc n) (mont_column k sq a b m n0 n (u, t, c))"
proof -
  define c1 where "c1 = mont_product_column k sq a b n c"
  define c2 where "c2 = fold (\<lambda>j. VILTRUM_MULACC (u ! j) (m ! (n - j))) [0..<n] c1"
  define ui where "ui = fst c2 * n0"
  define c3 where "c3 = VILTRUM_MULACC ui (m ! 0) c2"
  have inv: "length u = n" "t = []" "acc_val c < 2 ^ 128"
    "(\<Sum>i<n. (conv k a b i + conv k u m i) * 2 ^ (64 * i)) = acc_val c * 2 ^ (64 * n)"
    using assms(2,4) by (auto simp: mont_inv_def)
  have k: "k \<le> 64" using assms(1) by (simp add: mont_modulus_def)
  have c1: "acc_val c1 = acc_val c + conv k a b n"
    unfolding c1_def using assms(2,3) inv(3) k by (intro product_column_val) auto
  then have c1_le: "acc_val c1 \<le> 65 * 2 ^ 128"
    using inv(3) conv_le [of k a b n] k by simp
  have c2: "acc_val c2 = acc_val c1 + (\<Sum>j<n. uint (u ! j) * uint (m ! (n - j)))"
    unfolding c2_def using c1_le assms(2) k
    by (subst fold_mulacc) (simp_all add: sum_list_upt atLeast0LessThan)
  have "(\<Sum>j<n. uint (u ! j) * uint (m ! (n - j))) \<le> (\<Sum>j<n. 2 ^ 128 - 1)"
    by (intro sum_mono limb_mult_le)
  then have "acc_val c2 + uint ui * uint (m ! 0) < 2 ^ 192"
    using c1_le c2 assms(2) k limb_mult_le [of ui "m ! 0"] by simp
  then have c3: "acc_val c3 = acc_val c2 + uint ui * uint (m ! 0)"
    unfolding c3_def by (rule acc_val_mulacc)
  have fst0: "fst c3 = 0"
    using mont_low_word_zero [OF assms(1)] c3 by (simp add: ui_def)
  have cu: "conv k (u @ [ui]) m n = (\<Sum>j<n. uint (u ! j) * uint (m ! (n - j))) + uint ui * uint (m ! 0)"
    using assms(2) inv(1) by (simp add: conv_def col_lo_def min_def atLeast0LessThan nth_append)
  have "(\<Sum>i<Suc n. (conv k a b i + conv k (u @ [ui]) m i) * 2 ^ (64 * i))
      = acc_val c * 2 ^ (64 * n) + (conv k a b n + conv k (u @ [ui]) m n) * 2 ^ (64 * n)"
    using inv(1,4) by (simp add: conv_append)
  also have "\<dots> = acc_val c3 * 2 ^ (64 * n)"
    by (simp add: c3 c2 c1 cu algebra_simps)
  also have "\<dots> = acc_val (acc_shift c3) * 2 ^ (64 * Suc n)"
    using acc_val_shift(1) [of c3] fst0 by (simp add: power_add)
  finally have "(\<Sum>i<Suc n. (conv k a b i + conv k (u @ [ui]) m i) * 2 ^ (64 * i))
      = acc_val (acc_shift c3) * 2 ^ (64 * Suc n)" .
  moreover have "mont_column k sq a b m n0 n (u, t, c) = (u @ [ui], t, acc_shift c3)"
    using assms(2) by (simp add: Let_def c1_def c2_def c3_def ui_def)
  ultimately show ?thesis
    using inv assms(2) acc_val_shift(2) [of c3] by (simp add: mont_inv_def)
qed

lemma mont_column_high:
  assumes "k \<le> 64" and "k \<le> n" and "n < 2 * k - 1" and "sq \<Longrightarrow> b = a" and "mont_inv k a b m n (u, t, c)"
  shows "mont_inv k a b m (Suc n) (mont_column k sq a b m n0 n (u, t, c))"
proof -
  define c1 where "c1 = mont_product_column k sq a b n c"
  define c2 where "c2 = fold (\<lambda>j. VILTRUM_MULACC (u ! j) (m ! (n - j))) [col_lo k n..<k] c1"
  have inv: "length u = k" "length t = n - k" "acc_val c < 2 ^ 128"
    "(\<Sum>i<n. (conv k a b i + conv k u m i) * 2 ^ (64 * i)) = acc_val c * 2 ^ (64 * n) + le_val t * 2 ^ (64 * k)"
    using assms(2,5) by (auto simp: mont_inv_def)
  have c1: "acc_val c1 = acc_val c + conv k a b n"
    unfolding c1_def using assms(1,3,4) inv(3) by (intro product_column_val) auto
  then have c1_le: "acc_val c1 \<le> 65 * 2 ^ 128"
    using inv(3) conv_le [of k a b n] assms(1) by simp
  have len: "k - col_lo k n \<le> 64" "min (n + 1) k = k" using assms by simp_all
  have c2: "acc_val c2 = acc_val c1 + conv k u m n"
    unfolding c2_def using c1_le len by (subst fold_mulacc) (simp_all add: sum_list_upt conv_def)
  have "(\<Sum>i<Suc n. (conv k a b i + conv k u m i) * 2 ^ (64 * i))
      = acc_val c2 * 2 ^ (64 * n) + le_val t * 2 ^ (64 * k)"
    using inv(4) by (simp add: c2 c1 algebra_simps)
  also have "acc_val c2 * 2 ^ (64 * n) = acc_val (acc_shift c2) * 2 ^ (64 * Suc n) + uint (fst c2) * 2 ^ (64 * n)"
    using acc_val_shift(1) [of c2] by (simp add: power_add algebra_simps)
  also have "\<dots> + le_val t * 2 ^ (64 * k) = acc_val (acc_shift c2) * 2 ^ (64 * Suc n) + le_val (t @ [fst c2]) * 2 ^ (64 * k)"
  proof -
    define P K where "P = (2::int) ^ (64 * (n - k))" and "K = (2::int) ^ (64 * k)"
    have nk: "(2::int) ^ (64 * n) = P * K"
      unfolding power_add [symmetric] P_def K_def using assms(2) by (intro arg_cong [of _ _ "power 2"]) simp
    have t: "le_val (t @ [fst c2]) = le_val t + P * uint (fst c2)"
      by (simp add: le_val_append inv(2) P_def)
    show ?thesis
      unfolding nk t K_def [symmetric] by (simp add: algebra_simps)
  qed
  finally have "(\<Sum>i<Suc n. (conv k a b i + conv k u m i) * 2 ^ (64 * i))
      = acc_val (acc_shift c2) * 2 ^ (64 * Suc n) + le_val (t @ [fst c2]) * 2 ^ (64 * k)" .
  moreover have "mont_column k sq a b m n0 n (u, t, c) = (u, t @ [fst c2], acc_shift c2)"
    using assms(2) by (simp add: Let_def c1_def c2_def)
  ultimately show ?thesis
    using inv assms(2) acc_val_shift(2) [of c2] by (simp add: mont_inv_def)
qed

lemma mont_loop_inv:
  assumes "mont_modulus m n0 k" and "sq \<Longrightarrow> b = a"
  shows "n \<le> 2 * k - 1 \<Longrightarrow>
    mont_inv k a b m n (fold (mont_column k sq a b m n0) [0..<n] ([], [], (0, 0, 0)))"
proof (induction n)
  case 0
  then show ?case by (simp add: mont_inv_def)
next
  case (Suc n)
  obtain u t c where s: "fold (mont_column k sq a b m n0) [0..<n] ([], [], (0, 0, 0)) = (u, t, c)"
    by (rule prod_cases3)
  have inv: "mont_inv k a b m n (u, t, c)" using Suc s by simp
  have "mont_inv k a b m (Suc n) (mont_column k sq a b m n0 n (u, t, c))"
  proof (cases "n < k")
    case True
    then show ?thesis using mont_column_low [OF assms(1) True] assms(2) inv by blast
  next
    case False
    then show ?thesis
      using mont_column_high [of k n sq b a m u t c n0] assms Suc.prems inv
      by (auto simp: mont_modulus_def)
  qed
  then show ?case by (simp add: s)
qed

section \<open>The final subtraction\<close>

lemma word_bit_cases: "uint (x::u64) \<le> 1 \<Longrightarrow> x = 0 \<or> x = 1"
proof -
  assume "uint x \<le> 1"
  moreover have "0 \<le> uint x" by simp
  ultimately have "uint x = 0 \<or> uint x = 1" by linarith
  then show ?thesis by (auto simp: word_uint_eq_iff)
qed

lemma mont_final_correct:
  assumes "length t = k" and "length m = k" and "le_val t + 2 ^ (64 * k) * uint hi < 2 ^ (64 * k) + le_val m"
  defines "T \<equiv> le_val t + 2 ^ (64 * k) * uint hi"
  shows "length (mont_final t hi m) = k"
    and "le_val (mont_final t hi m) = (if le_val m \<le> T then T - le_val m else T)"
proof -
  obtain d borrow where d: "sub_loop t m 0 = (d, borrow)" by (cases "sub_loop t m 0")
  have sub: "length d = k" "uint borrow \<le> 1" "le_val d = le_val t - le_val m + 2 ^ (64 * k) * uint borrow"
    using sub_loop_correct [of t m 0 d borrow] assms d by simp_all
  have W: "le_val t < 2 ^ (64 * k)" "le_val m < 2 ^ (64 * k)" "le_val d < 2 ^ (64 * k)"
    using le_val_less [of t] le_val_less [of m] le_val_less [of d] assms(1,2) sub(1) by simp_all
  have "2 ^ (64 * k) * uint hi < 2 ^ (64 * k) * 2"
    using assms(3) W le_val_nonneg [of t] by linarith
  then have "uint hi \<le> 1" by simp
  then consider "hi = 0" | "hi = 1" using word_bit_cases by blast
  note hi = this
  consider "borrow = 0" | "borrow = 1" using sub(2) word_bit_cases by blast
  note br = this
  have final: "mont_final t hi m = (if hi = 1 \<or> borrow = 0 then d else t)"
    using hi br assms(1) sub(1)
    by (cases rule: hi [case_product br])
      (simp_all add: mont_final_def d Let_def select_limbs_zero select_limbs_ones)
  show "length (mont_final t hi m) = k"
    by (simp add: final assms(1) sub(1))
  show "le_val (mont_final t hi m) = (if le_val m \<le> T then T - le_val m else T)"
    using hi br W sub(3) assms(3) le_val_nonneg [of t] le_val_nonneg [of m] le_val_nonneg [of d]
    unfolding final T_def by (cases rule: hi [case_product br]) simp_all
qed

section \<open>The Montgomery product\<close>

lemma viltrum_mont_k_sum:
  assumes "mont_modulus m n0 k" and "length a = k" and "length b = k" and "sq \<Longrightarrow> b = a"
  shows "\<exists>U T. 0 \<le> U \<and> U < 2 ^ (64 * k) \<and> 0 \<le> T \<and>
    le_val a * le_val b + U * le_val m = 2 ^ (64 * k) * T \<and>
    length (viltrum_mont_k a b m n0 k sq) = k \<and>
    le_val (viltrum_mont_k a b m n0 k sq) = (if le_val m \<le> T then T - le_val m else T)"
proof -
  have k: "0 < k" "length m = k" using assms(1) by (simp_all add: mont_modulus_def)
  obtain u t c where s: "fold (mont_column k sq a b m n0) [0..<2 * k - 1] ([], [], (0, 0, 0)) = (u, t, c)"
    by (rule prod_cases3)
  have "mont_inv k a b m (2 * k - 1) (u, t, c)"
    using mont_loop_inv [of m n0 k sq b a "2 * k - 1"] assms(1,4) s by simp
  then have inv: "length u = k" "length t = k - 1" "acc_val c < 2 ^ 128"
    "(\<Sum>i<2 * k - 1. (conv k a b i + conv k u m i) * 2 ^ (64 * i))
      = acc_val c * 2 ^ (64 * (2 * k - 1)) + le_val t * 2 ^ (64 * k)"
    using k by (auto simp: mont_inv_def)
  define T where "T = le_val (t @ [fst c]) + 2 ^ (64 * k) * uint (fst (snd c))"
  have cv: "acc_val c = uint (fst c) + 2 ^ 64 * uint (fst (snd c))"
  proof (cases c)
    case (fields c0 c1 c2)
    have nn: "0 \<le> uint c0" "0 \<le> 2 ^ 64 * uint c1" "0 \<le> uint c2" by simp_all
    then have "2 ^ 128 * uint c2 < 2 ^ 128 * 1" using inv(3) unfolding fields acc_val.simps by linarith
    then have "uint c2 < 1" by simp
    with nn have "uint c2 = 0" by linarith
    then show ?thesis by (simp add: fields)
  qed
  have "le_val a * le_val b + le_val u * le_val m
      = (\<Sum>i<2 * k - 1. (conv k a b i + conv k u m i) * 2 ^ (64 * i))"
    using conv_sum [OF assms(2,3) k(1)] conv_sum [OF inv(1) k(2,1)]
    by (simp add: distrib_right sum.distrib)
  also have "\<dots> = acc_val c * 2 ^ (64 * (2 * k - 1)) + le_val t * 2 ^ (64 * k)" by (rule inv(4))
  also have "\<dots> = 2 ^ (64 * k) * T"
  proof -
    define P K where "P = (2::int) ^ (64 * (k - 1))" and "K = (2::int) ^ (64 * k)"
    have hi: "(2::int) ^ (64 * (2 * k - 1)) = K * P" and K: "K = P * 2 ^ 64"
      unfolding power_add [symmetric] P_def K_def
      using k(1) by (intro arg_cong [of _ _ "power 2"]; simp)+
    have t: "le_val (t @ [fst c]) = le_val t + P * uint (fst c)"
      by (simp add: le_val_append inv(2) P_def)
    have T: "T = le_val t + P * acc_val c"
      unfolding T_def cv t K_def [symmetric] by (simp add: K algebra_simps)
    show ?thesis unfolding hi T K_def [symmetric] by (simp add: algebra_simps)
  qed
  finally have eq: "le_val a * le_val b + le_val u * le_val m = 2 ^ (64 * k) * T" .
  have u: "le_val u < 2 ^ (64 * k)" and ab: "le_val a < 2 ^ (64 * k)" "le_val b < 2 ^ (64 * k)"
    and mm: "le_val m < 2 ^ (64 * k)"
    using le_val_less [of u] le_val_less [of a] le_val_less [of b] le_val_less [of m] inv(1) assms k by simp_all
  have "le_val a * le_val b < 2 ^ (64 * k) * 2 ^ (64 * k)"
    using ab by (intro mult_strict_mono) simp_all
  moreover have "le_val u * le_val m \<le> 2 ^ (64 * k) * le_val m"
    using u by (intro mult_right_mono) simp_all
  ultimately have "2 ^ (64 * k) * T < 2 ^ (64 * k) * (2 ^ (64 * k) + le_val m)"
    unfolding eq [symmetric] distrib_left by linarith
  then have bound: "T < 2 ^ (64 * k) + le_val m" by simp
  have "viltrum_mont_k a b m n0 k sq = mont_final (t @ [fst c]) (fst (snd c)) m"
    unfolding viltrum_mont_k_def s by simp
  then show ?thesis
    using eq u mont_final_correct [of "t @ [fst c]" k m "fst (snd c)"] bound inv(2) k
    by (intro exI [of _ "le_val u"] exI [of _ T]) (auto simp: T_def)
qed

text \<open>
  What both reductions establish of their result \<open>r\<close>: a multiple of the modulus was added to
  \<open>X\<close>, the sum divided by \<open>R\<close>, and the modulus subtracted once if possible.
\<close>

lemma mont_reduced:
  fixes X U T M R r :: int
  assumes "X + U * M = R * T" and "0 \<le> U" and "U < R" and "r = (if M \<le> T then T - M else T)" and "0 < M"
  shows "r * R mod M = X mod M" and "X < M * R \<Longrightarrow> r < M"
proof -
  have "r * R = R * T \<or> r * R = R * T - R * M"
    using assms(4) by (auto simp: algebra_simps)
  then have "r * R = X + U * M \<or> r * R = X + (U - R) * M"
    by (simp only: assms(1) [symmetric]) (auto simp: algebra_simps)
  then show "r * R mod M = X mod M" by (metis mod_mult_self1)
  assume "X < M * R"
  moreover have "U * M \<le> R * M" using assms by (intro mult_right_mono) simp_all
  ultimately have "R * T < R * (2 * M)" unfolding assms(1) [symmetric] by (simp add: algebra_simps)
  then have "T < 2 * M" using assms(2,3) by simp
  then show "r < M" using assms(4) by simp
qed

lemma mont_modulus_odd: "mont_modulus m n0 k \<Longrightarrow> odd (le_val m)"
proof -
  assume m: "mont_modulus m n0 k"
  then obtain x ms where ms: "m = x # ms" by (cases m) (auto simp: mont_modulus_def)
  have "2 dvd (2::int) ^ 64" by simp
  moreover have "2 ^ 64 dvd uint x * uint n0 + 1"
    using m ms by (simp add: mont_modulus_def dvd_eq_mod_eq_0)
  ultimately have "even (uint x * uint n0 + 1)" by (rule dvd_trans)
  then show ?thesis by (simp add: ms)
qed

lemma mont_modulus_pos: "mont_modulus m n0 k \<Longrightarrow> 0 < le_val m"
  using mont_modulus_odd [of m n0 k] le_val_nonneg [of m] by (cases "le_val m = 0") (auto simp del: le_val_nonneg)

lemma viltrum_mont_k_correct:
  assumes "mont_modulus m n0 k" and "length a = k" and "length b = k" and "sq \<Longrightarrow> b = a"
  defines "r \<equiv> viltrum_mont_k a b m n0 k sq"
  shows "length r = k"
    and "le_val r * 2 ^ (64 * k) mod le_val m = le_val a * le_val b mod le_val m"
    and "le_val a * le_val b < le_val m * 2 ^ (64 * k) \<Longrightarrow> le_val r < le_val m"
proof -
  from viltrum_mont_k_sum [OF assms(1-3)] assms(4) obtain U T
    where U: "0 \<le> U" "U < 2 ^ (64 * k)" and eq: "le_val a * le_val b + U * le_val m = 2 ^ (64 * k) * T"
      and len: "length r = k" and r: "le_val r = (if le_val m \<le> T then T - le_val m else T)"
    unfolding r_def by blast
  note red = mont_reduced [OF eq U r mont_modulus_pos [OF assms(1)]]
  show "length r = k" by (rule len)
  show "le_val r * 2 ^ (64 * k) mod le_val m = le_val a * le_val b mod le_val m" by (rule red(1))
  show "le_val a * le_val b < le_val m * 2 ^ (64 * k) \<Longrightarrow> le_val r < le_val m" by (rule red(2))
qed

lemma viltrum_mont_mul_eq: "viltrum_mont_mul a b m n0 k = viltrum_mont_k a b m n0 k False"
  by (simp add: viltrum_mont_mul_def viltrum_mont_mul16_def viltrum_mont_mul24_def
      viltrum_mont_mul32_def viltrum_mont_mul_any_def)

lemma viltrum_mont_sqr_eq: "viltrum_mont_sqr a m n0 k = viltrum_mont_k a a m n0 k True"
  by (simp add: viltrum_mont_sqr_def viltrum_mont_sqr16_def viltrum_mont_sqr24_def
      viltrum_mont_sqr32_def viltrum_mont_sqr_any_def)

text \<open>
  The squaring form is the multiplication of a number by itself, word for word: the column sums
  are equal as numbers, and a column sum determines its three words.
\<close>

lemma acc_val_inj: "acc_val c = acc_val c' \<Longrightarrow> c = c'"
proof -
  have v: "acc_val c = le_val [fst c, fst (snd c), snd (snd c)]" for c
    by (cases c) simp
  assume "acc_val c = acc_val c'"
  then show ?thesis
    using le_val_inj [of "[fst c, fst (snd c), snd (snd c)]" "[fst c', fst (snd c'), snd (snd c')]"]
    by (simp add: v prod_eq_iff)
qed

lemma mont_column_sq:
  assumes "mont_modulus m n0 k" and "n < 2 * k - 1" and "mont_inv k a a m n (u, t, c)"
  shows "mont_column k True a a m n0 n (u, t, c) = mont_column k False a a m n0 n (u, t, c)"
proof -
  have "acc_val c < 2 ^ 128" "k \<le> 64" using assms by (simp_all add: mont_inv_def mont_modulus_def)
  then have "mont_product_column k True a a n c = mont_product_column k False a a n c"
    using assms(2) by (intro acc_val_inj) (simp add: product_column_val)
  then show ?thesis by simp
qed

lemma mont_loop_sq:
  assumes "mont_modulus m n0 k"
  shows "n \<le> 2 * k - 1 \<Longrightarrow>
    fold (mont_column k True a a m n0) [0..<n] ([], [], (0, 0, 0)) =
    fold (mont_column k False a a m n0) [0..<n] ([], [], (0, 0, 0))"
proof (induction n)
  case 0
  then show ?case by simp
next
  case (Suc n)
  obtain u t c where s: "fold (mont_column k False a a m n0) [0..<n] ([], [], (0, 0, 0)) = (u, t, c)"
    by (rule prod_cases3)
  have "mont_inv k a a m n (u, t, c)"
    using mont_loop_inv [OF assms, of False a a n] Suc.prems s by simp
  then show ?case using Suc mont_column_sq [OF assms, of n a u t c] s by simp
qed

lemma viltrum_mont_sqr_mul:
  "mont_modulus m n0 k \<Longrightarrow> viltrum_mont_sqr a m n0 k = viltrum_mont_mul a a m n0 k"
  using mont_loop_sq [of m n0 k "2 * k - 1" a]
  by (simp add: viltrum_mont_sqr_eq viltrum_mont_mul_eq viltrum_mont_k_def)

text \<open>The Montgomery radix \<open>R\<close> of \<open>k\<close> limbs, opaque from here on.\<close>

definition mont_R :: "nat \<Rightarrow> int" where
  "mont_R k = 2 ^ (64 * k)"

lemma mont_R_pos [simp]: "0 < mont_R k"
  by (simp add: mont_R_def)

lemma le_val_less_R: "length (x :: u64 list) = k \<Longrightarrow> le_val x < mont_R k"
  using le_val_less [of x] by (simp add: mont_R_def)

lemma viltrum_mont_mul_correct:
  assumes "mont_modulus m n0 k" and "length a = k" and "length b = k"
  defines "r \<equiv> viltrum_mont_mul a b m n0 k"
  shows "length r = k"
    and "le_val r * mont_R k mod le_val m = le_val a * le_val b mod le_val m"
    and "le_val a * le_val b < le_val m * mont_R k \<Longrightarrow> le_val r < le_val m"
  using viltrum_mont_k_correct [OF assms(1-3), of False]
  unfolding r_def viltrum_mont_mul_eq mont_R_def by blast+

section \<open>Properties of the product\<close>

text \<open>
  C23. The Montgomery product. For any two \<open>k\<close>-limb numbers, \<^verbatim>\<open>viltrum_mont_mul\<close> (in each of its size
  variants) returns \<open>k\<close> limbs congruent to \<open>a * b / R\<close>, fully reduced when \<open>a * b < m * R\<close>; in
  particular no carry is lost in the three-word column sums.
\<close>

theorem mont_mul_correct:
  assumes "mont_modulus m n0 k" and "length a = k" and "length b = k"
  shows "length (viltrum_mont_mul a b m n0 k) = k \<and>
    le_val (viltrum_mont_mul a b m n0 k) * 2 ^ (64 * k) mod le_val m = le_val a * le_val b mod le_val m \<and>
    (le_val a * le_val b < le_val m * 2 ^ (64 * k) \<longrightarrow> le_val (viltrum_mont_mul a b m n0 k) < le_val m)"
  using viltrum_mont_mul_correct [OF assms] unfolding mont_R_def by blast

theorem mont_mul_correct_witness:
  "length (viltrum_mont_mul [3, 0] [34, 0] [35, 0] 5797548137451573365 2) = 2 \<and>
   le_val (viltrum_mont_mul [3, 0] [34, 0] [35, 0] 5797548137451573365 2) * 2 ^ 128 mod 35 = 102 mod 35 \<and>
   le_val (viltrum_mont_mul [3, 0] [34, 0] [35, 0] 5797548137451573365 2) < 35"
  using mont_mul_correct [of "[35, 0]" 5797548137451573365 2 "[3, 0]" "[34, 0]"]
  by (simp add: mont_modulus_def)

text \<open>The squaring form, which sums each cross product once and doubles it, gives the same words.\<close>

theorem mont_sqr_equals_mul:
  "mont_modulus m n0 k \<Longrightarrow> viltrum_mont_sqr a m n0 k = viltrum_mont_mul a a m n0 k"
  by (rule viltrum_mont_sqr_mul)

theorem mont_sqr_equals_mul_witness:
  "viltrum_mont_sqr [17, 0] [35, 0] 5797548137451573365 2 = viltrum_mont_mul [17, 0] [17, 0] [35, 0] 5797548137451573365 2"
  by (rule mont_sqr_equals_mul) (simp add: mont_modulus_def)

end
