(* ===== verification/MontExp.thy ===== *)
theory MontExp
  imports Mont
begin

unbundle bit_operations_syntax

text \<open>
  The users of the Montgomery product in \<^verbatim>\<open>src/engine/rsa.h\<close>: the reduction of a double-length
  number, and the fixed-window exponentiation with its constant-time table read. The locale
  \<open>power_domain\<close> states what exponentiation needs of a multiplication and a squaring; it is
  interpreted on \<^verbatim>\<open>viltrum_mont_mul\<close> and \<^verbatim>\<open>viltrum_mont_sqr\<close> with Montgomery representatives.
\<close>

section \<open>Operations\<close>

text \<open>
  \<^verbatim>\<open>viltrum_mont_redc\<close>: one round adds \<open>mq * m\<close> at limb \<open>i\<close>, which clears limb \<open>i\<close>; the carry
  out of limb \<open>i + k\<close> is owed to the next round (\<open>owed\<close>, \<^verbatim>\<open>top\<close> in the source).
\<close>

fun redc_round :: "u64 list \<Rightarrow> u64 \<Rightarrow> nat \<Rightarrow> nat \<Rightarrow> u64 list \<times> u64 \<Rightarrow> u64 list \<times> u64" where
  "redc_round m n0 k i (t, owed) =
     (let mq = t ! i * n0;
          (d, c) = muladd_loop mq m (take k (drop i t)) 0;
          s = wide (t ! (i + k)) + wide c + wide owed
      in (take i t @ d @ [narrow s] @ drop (i + k + 1) t, narrow (drop_bit 64 s)))"

definition viltrum_mont_redc :: "u64 list \<Rightarrow> u64 list \<Rightarrow> u64 \<Rightarrow> nat \<Rightarrow> u64 list" where
  "viltrum_mont_redc x m n0 k =
     (let (t, hi) = fold (redc_round m n0 k) [0..<k] (x, 0)
      in mont_final (drop k t) hi m)"

text \<open>The constant-time table read: every entry is read, a mask keeps the one at \<open>idx\<close>.\<close>

definition eq_mask :: "u64 \<Rightarrow> u64 \<Rightarrow> u64" where
  "eq_mask i idx = (let x = i XOR idx in drop_bit 63 (x OR (0 - x)) - 1)"

definition exp_select :: "u64 list list \<Rightarrow> u64 \<Rightarrow> nat \<Rightarrow> u64 list" where
  "exp_select table idx k =
     fold (\<lambda>i sel. map2 (\<lambda>s x. s OR (x AND eq_mask (of_nat i) idx)) sel (table ! i)) [0..<16]
       (replicate k 0)"

fun exp_table :: "u64 list \<Rightarrow> u64 list \<Rightarrow> u64 \<Rightarrow> nat \<Rightarrow> nat \<Rightarrow> u64 list list \<Rightarrow> u64 list list" where
  "exp_table a m n0 k 0 tab = tab"
| "exp_table a m n0 k (Suc n) tab =
     exp_table a m n0 k n (tab @ [viltrum_mont_mul (last tab) a m n0 k])"

definition exp_window :: "u64 list \<Rightarrow> nat \<Rightarrow> u64" where
  "exp_window e w = drop_bit ((w mod 16) * 4) (e ! (w div 16)) AND 15"

definition exp_step :: "u64 list list \<Rightarrow> u64 list \<Rightarrow> u64 list \<Rightarrow> u64 \<Rightarrow> nat \<Rightarrow> nat \<Rightarrow> u64 list \<Rightarrow> u64 list" where
  "exp_step table e m n0 k w acc =
     (let acc = ((\<lambda>x. viltrum_mont_sqr x m n0 k) ^^ 4) acc;
          sel = exp_select table (exp_window e w) k
      in viltrum_mont_mul acc sel m n0 k)"

fun exp_loop :: "u64 list list \<Rightarrow> u64 list \<Rightarrow> u64 list \<Rightarrow> u64 \<Rightarrow> nat \<Rightarrow> nat \<Rightarrow> u64 list \<Rightarrow> u64 list" where
  "exp_loop table e m n0 k 0 acc = acc"
| "exp_loop table e m n0 k (Suc w) acc =
     exp_loop table e m n0 k w (exp_step table e m n0 k w acc)"

definition viltrum_mont_exp ::
  "u64 list \<Rightarrow> u64 list \<Rightarrow> u64 list \<Rightarrow> u64 \<Rightarrow> u64 list \<Rightarrow> nat \<Rightarrow> u64 list" where
  "viltrum_mont_exp a e m n0 one k =
     exp_loop (exp_table a m n0 k 14 [one, a]) e m n0 k (k * 16) one"

section \<open>Montgomery representatives\<close>

text \<open>\<open>x\<close> is the reduced representative of \<open>v\<close>: \<open>x = v * R mod m\<close>.\<close>

definition mont_rep :: "u64 list \<Rightarrow> u64 \<Rightarrow> nat \<Rightarrow> u64 list \<Rightarrow> int \<Rightarrow> bool" where
  "mont_rep m n0 k x v \<longleftrightarrow> mont_modulus m n0 k \<and> length x = k \<and> le_val x = v * mont_R k mod le_val m"

lemma mont_rep_less: "mont_rep m n0 k x v \<Longrightarrow> le_val x < le_val m"
  using mont_modulus_pos [of m n0 k] by (auto simp: mont_rep_def)

lemma mont_rep_cong: "mont_rep m n0 k x v \<Longrightarrow> v mod le_val m = w mod le_val m \<Longrightarrow> mont_rep m n0 k x w"
  unfolding mont_rep_def by (metis mod_mult_left_eq)

lemma mont_R_cancel:
  assumes "mont_modulus m n0 k" and "a * mont_R k mod le_val m = b * mont_R k mod le_val m"
  shows "a mod le_val m = b mod le_val m"
proof -
  have "coprime (le_val m) (mont_R k)"
    using mont_modulus_odd [OF assms(1)] by (simp add: mont_R_def)
  moreover have "le_val m dvd (a - b) * mont_R k"
    using assms(2) by (simp add: mod_eq_dvd_iff left_diff_distrib)
  ultimately have "le_val m dvd a - b" by (simp add: coprime_dvd_mult_left_iff)
  then show ?thesis by (simp add: mod_eq_dvd_iff)
qed

text \<open>
  The product law in its general form: the factors need only have the right length and a
  product below \<open>m * R\<close>.
\<close>

lemma mont_mul_repI:
  assumes "mont_modulus m n0 k" and "length a = k" and "length b = k"
    and "le_val a * le_val b < le_val m * mont_R k"
    and "le_val a * le_val b mod le_val m = v * mont_R k * mont_R k mod le_val m"
  shows "mont_rep m n0 k (viltrum_mont_mul a b m n0 k) v"
proof -
  let ?r = "viltrum_mont_mul a b m n0 k"
  note mul = viltrum_mont_mul_correct [OF assms(1-3)]
  have "le_val ?r mod le_val m = v * mont_R k mod le_val m"
    by (rule mont_R_cancel [OF assms(1)]) (simp only: mul(2) assms(5))
  then show ?thesis using mul(1,3) assms(1,4) by (simp add: mont_rep_def)
qed

lemma mont_mul_bound:
  fixes a b :: "u64 list"
  assumes "length a = k" and "le_val b < M"
  shows "le_val a * le_val b < M * mont_R k"
proof -
  have "le_val a < mont_R k" using assms(1) by (rule le_val_less_R)
  then have "le_val a * le_val b \<le> mont_R k * le_val b" by (intro mult_right_mono) simp_all
  also have "\<dots> < mont_R k * M" using assms(2) by simp
  finally show ?thesis by (simp add: mult.commute)
qed

lemma mont_mul_rep:
  assumes "mont_rep m n0 k x v" and "mont_rep m n0 k y w"
  shows "mont_rep m n0 k (viltrum_mont_mul x y m n0 k) (v * w)"
proof (rule mont_mul_repI)
  show "mont_modulus m n0 k" "length x = k" "length y = k" using assms by (simp_all add: mont_rep_def)
  then show "le_val x * le_val y < le_val m * mont_R k"
    using mont_mul_bound mont_rep_less [OF assms(2)] by blast
  have "le_val x * le_val y mod le_val m = (v * mont_R k) * (w * mont_R k) mod le_val m"
    using assms by (intro mod_mult_eqI) (simp_all add: mont_rep_def)
  then show "le_val x * le_val y mod le_val m = v * w * mont_R k * mont_R k mod le_val m"
    by (simp add: algebra_simps)
qed

text \<open>Into and out of Montgomery form: a product with \<open>R\<^sup>2\<close> and a product with 1.\<close>

lemma mont_to_rep:
  assumes "mont_modulus m n0 k" and "length a = k" and "mont_rep m n0 k r (mont_R k)"
  shows "mont_rep m n0 k (viltrum_mont_mul a r m n0 k) (le_val a)"
proof (rule mont_mul_repI [OF assms(1,2)])
  show "length r = k" using assms(3) by (simp add: mont_rep_def)
  show "le_val a * le_val r < le_val m * mont_R k"
    using assms(2) mont_rep_less [OF assms(3)] by (rule mont_mul_bound)
  show "le_val a * le_val r mod le_val m = le_val a * mont_R k * mont_R k mod le_val m"
    using assms(3) by (simp add: mont_rep_def mod_simps mult.assoc)
qed

text \<open>A plain number times a representative is the plain product, reduced.\<close>

lemma mont_mul_plain:
  assumes "length a = k" and "mont_rep m n0 k x v"
  shows "length (viltrum_mont_mul a x m n0 k) = k"
    and "le_val (viltrum_mont_mul a x m n0 k) = le_val a * v mod le_val m"
proof -
  let ?r = "viltrum_mont_mul a x m n0 k"
  have m: "mont_modulus m n0 k" "length x = k" using assms(2) by (simp_all add: mont_rep_def)
  note mul = viltrum_mont_mul_correct [OF m(1) assms(1) m(2)]
  show "length ?r = k" by (rule mul(1))
  have x: "le_val x = v * mont_R k mod le_val m" using assms(2) by (simp add: mont_rep_def)
  have "le_val ?r mod le_val m = le_val a * v mod le_val m"
    by (rule mont_R_cancel [OF m(1)]) (simp only: mul(2) x mod_mult_right_eq mult.assoc)
  then show "le_val ?r = le_val a * v mod le_val m"
    using mul(3) [OF mont_mul_bound [OF assms(1) mont_rep_less [OF assms(2)]]] by simp
qed

lemma mont_mul_plain_right:
  assumes "mont_rep m n0 k x v" and "length b = k"
  shows "length (viltrum_mont_mul x b m n0 k) = k"
    and "le_val (viltrum_mont_mul x b m n0 k) = v * le_val b mod le_val m"
proof -
  let ?r = "viltrum_mont_mul x b m n0 k"
  have m: "mont_modulus m n0 k" "length x = k" using assms(1) by (simp_all add: mont_rep_def)
  note mul = viltrum_mont_mul_correct [OF m assms(2)]
  show "length ?r = k" by (rule mul(1))
  have x: "le_val x = v * mont_R k mod le_val m" using assms(1) by (simp add: mont_rep_def)
  have "le_val x * le_val b < le_val m * mont_R k"
    using mont_mul_bound [OF assms(2) mont_rep_less [OF assms(1)]] by (simp add: mult.commute)
  moreover have "le_val ?r mod le_val m = v * le_val b mod le_val m"
    by (rule mont_R_cancel [OF m(1)]) (simp only: mul(2) x mod_mult_left_eq, simp only: mult_ac)
  ultimately show "le_val ?r = v * le_val b mod le_val m" using mul(3) by simp
qed

section \<open>Reduction of a double-length number\<close>

text \<open>
  After \<open>i\<close> rounds the low \<open>i\<close> limbs are zero and a multiple of the modulus has been added; the
  carry still owed sits at limb \<open>i + k\<close>.
\<close>

definition redc_inv :: "u64 list \<Rightarrow> nat \<Rightarrow> int \<Rightarrow> nat \<Rightarrow> u64 list \<times> u64 \<Rightarrow> bool" where
  "redc_inv m k X i s = (case s of (t, owed) \<Rightarrow> length t = 2 * k \<and> take i t = replicate i 0 \<and>
     (\<exists>Q. 0 \<le> Q \<and> Q < mont_R i \<and> le_val t + mont_R (i + k) * uint owed = X + Q * le_val m))"

lemma mont_R_add: "mont_R (i + j) = mont_R i * mont_R j"
  by (simp add: mont_R_def distrib_left power_add)

lemma mont_R_1 [simp]: "mont_R 0 = 1" "mont_R (Suc 0) = 2 ^ 64"
  by (simp_all add: mont_R_def)

lemma le_val_append_R: "length x = n \<Longrightarrow> le_val (x @ y) = le_val x + mont_R n * le_val (y :: u64 list)"
  by (simp add: le_val_append mont_R_def)

lemma sub_loop_R:
  assumes "length t = h" and "length m = h" and "sub_loop t m 0 = (d, b)"
  shows "length d = h" "uint b \<le> 1" "le_val d = le_val t - le_val m + mont_R h * uint b"
  using sub_loop_correct [of t m 0 d b] assms unfolding mont_R_def by auto

lemma add_loop_R:
  assumes "length a = h" and "length b = h" and "add_loop a b 0 = (d, c)"
  shows "length d = h" "le_val d + mont_R h * uint c = le_val a + le_val b"
  using add_loop_correct [of a b 0 d c] assms unfolding mont_R_def by auto

lemma muladd_loop_R:
  assumes "length m = h" and "length t = h" and "muladd_loop x m t 0 = (d, c)"
  shows "length d = h" "le_val d + mont_R h * uint c = uint x * le_val m + le_val t"
  using muladd_loop_correct [of m t x 0 d c] assms unfolding mont_R_def by auto

lemma redc_low_zero:
  fixes d t :: "u64 list"
  assumes "mont_modulus m n0 k" and "length d = k" and "length t = k"
    and "le_val d + mont_R k * c = uint (t ! 0 * n0) * le_val m + le_val t"
  shows "d ! 0 = 0"
proof -
  have k: "0 < k" "length m = k" using assms(1) by (simp_all add: mont_modulus_def)
  obtain d0 ds t0 ts m0 ms where cons: "d = d0 # ds" "t = t0 # ts" "m = m0 # ms"
    using assms(2,3) k by (cases d; cases t; cases m) auto
  have n0: "(uint m0 * uint n0 + 1) mod 2 ^ 64 = 0"
    using assms(1) by (simp add: mont_modulus_def cons)
  obtain j where "k = Suc j" using k(1) by (cases k) auto
  then have R: "mont_R k = 2 ^ 64 * mont_R j" using mont_R_add [of 1 j] by simp
  have "uint d0 = (le_val d + mont_R k * c) mod 2 ^ 64"
    using uint_64_less [of d0] by (simp add: cons R mult.assoc)
  also have "\<dots> = (uint (t0 * n0) * uint m0 + uint t0) mod 2 ^ 64"
  proof -
    have "uint (t ! 0 * n0) * le_val m + le_val t
        = uint (t0 * n0) * uint m0 + uint t0 + 2 ^ 64 * (uint (t0 * n0) * le_val ms + le_val ts)"
      by (simp add: cons algebra_simps)
    then show ?thesis unfolding assms(4) by (simp only: mod_mult_self2)
  qed
  also have "uint (t0 * n0) = uint t0 * uint n0 mod 2 ^ 64" by (simp add: uint_word_ariths)
  also have "(uint t0 * uint n0 mod 2 ^ 64 * uint m0 + uint t0) mod 2 ^ 64
      = (uint t0 * uint n0 * uint m0 + uint t0) mod 2 ^ 64"
    by (intro mod_add_eqI mod_mult_eqI refl mod_mod_trivial)
  also have "uint t0 * uint n0 * uint m0 + uint t0 = uint t0 * (uint m0 * uint n0 + 1)"
    by (simp add: algebra_simps)
  also have "\<dots> mod 2 ^ 64 = uint t0 * 0 mod 2 ^ 64"
    using n0 by (intro mod_mult_eqI refl) simp
  finally show ?thesis by (simp add: cons word_uint_eq_iff)
qed

text \<open>The values of one round: adding \<open>mq * m\<close> at weight \<open>R\<close> and passing the carries on.\<close>

lemma redc_round_value:
  fixes R K W :: int
  assumes "d + K * c = mq * M + mid" and "s0 + W * s1 = ti + c + owed"
    and "R * (mid + K * (ti + W * rest)) + R * K * owed = X + Q * M"
  shows "R * (d + K * (s0 + W * rest)) + R * K * W * s1 = X + (Q + R * mq) * M"
proof -
  have "R * (d + K * (s0 + W * rest)) + R * K * W * s1 = R * (d + K * (s0 + W * s1) + K * W * rest)"
    by (simp add: algebra_simps)
  also have "\<dots> = R * ((d + K * c) + K * (ti + owed + W * rest))"
    unfolding assms(2) by (simp add: algebra_simps)
  also have "\<dots> = R * (mid + K * (ti + W * rest)) + R * K * owed + R * mq * M"
    unfolding assms(1) by (simp add: algebra_simps)
  also have "\<dots> = X + (Q + R * mq) * M"
    unfolding assms(3) by (simp add: algebra_simps)
  finally show ?thesis .
qed

lemma split_at_limb:
  assumes "i + k < length t"
  shows "t = take i t @ take k (drop i t) @ [t ! (i + k)] @ drop (i + k + 1) t"
proof -
  have "t = take i t @ drop i t" by simp
  also have "drop i t = take k (drop i t) @ drop k (drop i t)" by (simp only: append_take_drop_id)
  also have "drop k (drop i t) = t ! (i + k) # drop (i + k + 1) t"
    using assms by (simp add: Cons_nth_drop_Suc add.commute)
  finally show ?thesis by simp
qed

lemma redc_round_inv:
  assumes "mont_modulus m n0 k" and "i < k" and "redc_inv m k X i (t, owed)"
  shows "redc_inv m k X (Suc i) (redc_round m n0 k i (t, owed))"
proof -
  define mq where "mq = t ! i * n0"
  define mid where "mid = take k (drop i t)"
  define rest where "rest = drop (i + k + 1) t"
  obtain d c where d: "muladd_loop mq m mid 0 = (d, c)" by (cases "muladd_loop mq m mid 0")
  define s where "s = wide (t ! (i + k)) + wide c + wide owed"
  let ?t = "replicate i 0 @ d @ [narrow s] @ rest"
  have len: "length t = 2 * k" and low: "take i t = replicate i 0" and k: "length m = k" "0 < k"
    using assms by (auto simp: redc_inv_def mont_modulus_def)
  obtain Q where Q: "0 \<le> Q" "Q < mont_R i" "le_val t + mont_R (i + k) * uint owed = X + Q * le_val m"
    using assms(3) by (auto simp: redc_inv_def)
  have lmid: "length mid = k" using len assms(2) by (simp add: mid_def)
  have mul: "length d = k" "le_val d + mont_R k * uint c = uint mq * le_val m + le_val mid"
    using muladd_loop_R [OF k(1) lmid d] by simp_all
  have "mid ! 0 = t ! i" using len assms(2) by (simp add: mid_def)
  then have d0: "d ! 0 = 0"
    using redc_low_zero [OF assms(1) mul(1) lmid] mul(2) by (simp add: mq_def)
  have sv: "uint (narrow s) + 2 ^ 64 * uint (narrow (drop_bit 64 s)) = uint (t ! (i + k)) + uint c + uint owed"
    by (simp only: uint_split_64 s_def uint_wide_add3)
  have "t = replicate i 0 @ mid @ [t ! (i + k)] @ rest"
    using split_at_limb [of i k t] len assms(2) by (simp add: low mid_def rest_def)
  then have "le_val t = le_val (replicate i 0 @ mid @ [t ! (i + k)] @ rest)" by (rule arg_cong)
  then have "le_val t = mont_R i * (le_val mid + mont_R k * (uint (t ! (i + k)) + 2 ^ 64 * le_val rest))"
    by (simp add: le_val_append_R [OF length_replicate] le_val_append_R [OF lmid])
  moreover have nv: "le_val ?t = mont_R i * (le_val d + mont_R k * (uint (narrow s) + 2 ^ 64 * le_val rest))"
    by (simp add: le_val_append_R [OF length_replicate] le_val_append_R [OF mul(1)])
  moreover have R: "mont_R (Suc i + k) = mont_R i * mont_R k * 2 ^ 64"
    using mont_R_add [of 1 "i + k"] by (simp add: mont_R_add)
  ultimately have sum: "le_val ?t + mont_R (Suc i + k) * uint (narrow (drop_bit 64 s))
      = X + (Q + mont_R i * uint mq) * le_val m"
    using redc_round_value [OF mul(2) sv] Q(3) by (simp only: mont_R_add)
  have "mont_R i * uint mq \<le> mont_R i * (2 ^ 64 - 1)"
    using uint_64_less [of mq] by (intro mult_left_mono) (simp_all add: less_imp_le)
  moreover have "mont_R (Suc i) = mont_R i * (2 ^ 64 - 1) + mont_R i"
    using mont_R_add [of 1 i] by simp
  ultimately have "Q + mont_R i * uint mq < mont_R (Suc i)"
    using Q(2) by linarith
  moreover have "0 \<le> Q + mont_R i * uint mq"
    using Q(1) by (intro add_nonneg_nonneg mult_nonneg_nonneg) (simp_all add: less_imp_le)
  moreover have "take (Suc i) ?t = replicate (Suc i) 0"
    using d0 mul(1) k(2) by (cases d) (simp_all add: replicate_append_same)
  moreover have "length ?t = 2 * k"
    using len assms(2) by (simp add: mul(1) rest_def)
  moreover have "redc_round m n0 k i (t, owed) = (?t, narrow (drop_bit 64 s))"
    using d by (simp add: Let_def mq_def mid_def low s_def rest_def)
  ultimately show ?thesis using sum unfolding redc_inv_def by auto
qed

lemma redc_loop_inv:
  assumes "mont_modulus m n0 k" and "length x = 2 * k"
  shows "n \<le> k \<Longrightarrow> redc_inv m k (le_val x) n (fold (redc_round m n0 k) [0..<n] (x, 0))"
proof (induction n)
  case 0
  then show ?case using assms(2) by (auto simp: redc_inv_def intro: exI [of _ 0])
next
  case (Suc n)
  obtain t c where s: "fold (redc_round m n0 k) [0..<n] (x, 0) = (t, c)" by fastforce
  then show ?case
    using redc_round_inv [OF assms(1), of n "le_val x" t c] Suc by simp
qed

lemma viltrum_mont_redc_correct:
  assumes "mont_modulus m n0 k" and "length x = 2 * k"
  defines "r \<equiv> viltrum_mont_redc x m n0 k"
  shows "length r = k"
    and "le_val r * mont_R k mod le_val m = le_val x mod le_val m"
    and "le_val x < le_val m * mont_R k \<Longrightarrow> le_val r < le_val m"
proof -
  have k: "length m = k" using assms(1) by (simp add: mont_modulus_def)
  obtain t c where s: "fold (redc_round m n0 k) [0..<k] (x, 0) = (t, c)" by fastforce
  obtain Q where len: "length t = 2 * k" and low: "take k t = replicate k 0" and Q: "0 \<le> Q" "Q < mont_R k"
    and eq: "le_val t + mont_R (k + k) * uint c = le_val x + Q * le_val m"
    using redc_loop_inv [OF assms(1,2), of k] by (auto simp: redc_inv_def s)
  define T where "T = le_val (drop k t) + mont_R k * uint c"
  have "le_val t = le_val (replicate k 0 @ drop k t)" by (metis append_take_drop_id low)
  then have eqT: "le_val x + Q * le_val m = mont_R k * T"
    unfolding eq [symmetric] T_def
    by (simp add: le_val_append_R [OF length_replicate] mont_R_add algebra_simps)
  have "le_val x < mont_R k * mont_R k"
    using le_val_less_R [of x "k + k"] assms(2) by (simp add: mont_R_add)
  moreover have "Q * le_val m \<le> mont_R k * le_val m"
    using Q by (intro mult_right_mono) simp_all
  ultimately have "mont_R k * T < mont_R k * (mont_R k + le_val m)"
    unfolding eqT [symmetric] distrib_left by linarith
  then have "T < mont_R k + le_val m" by simp
  then have final: "length r = k" "le_val r = (if le_val m \<le> T then T - le_val m else T)"
    using mont_final_correct [of "drop k t" k m c] len k
    by (simp_all add: r_def viltrum_mont_redc_def s T_def mont_R_def)
  note red = mont_reduced [OF eqT Q final(2) mont_modulus_pos [OF assms(1)]]
  show "length r = k" by (rule final(1))
  show "le_val r * mont_R k mod le_val m = le_val x mod le_val m" by (rule red(1))
  show "le_val x < le_val m * mont_R k \<Longrightarrow> le_val r < le_val m" by (rule red(2))
qed

section \<open>The constant-time table read\<close>

lemma uint_neg: "(x::u64) \<noteq> 0 \<Longrightarrow> uint (0 - x) = 2 ^ 64 - uint x"
proof -
  assume "x \<noteq> 0"
  then have "uint x \<noteq> 0" by (simp add: word_uint_eq_iff)
  moreover have "0 \<le> uint x" by simp
  ultimately have "0 < uint x" by linarith
  then have "(0 - uint x) mod 2 ^ 64 = 2 ^ 64 - uint x"
    using uint_64_less [of x] by (intro int_mod_pos_eq [where q = "- 1"]) simp_all
  then show ?thesis by (simp only: uint_word_ariths(2) uint_0_eq) simp
qed

lemma top_bit_word: "drop_bit 63 (y::u64) = of_bool (2 ^ 63 \<le> uint y)"
proof -
  have "uint (drop_bit 63 y) = uint y div 2 ^ 63" by (rule uint_drop_bit)
  also have "\<dots> = of_bool (2 ^ 63 \<le> uint y)"
  proof (cases "2 ^ 63 \<le> uint y")
    case True
    then show ?thesis
      using uint_64_less [of y] by (intro int_div_pos_eq [where r = "uint y - 2 ^ 63"]) simp_all
  qed simp
  finally show ?thesis by (simp add: word_uint_eq_iff)
qed

lemma eq_mask_eq: "eq_mask i idx = (if i = idx then - 1 else 0)"
proof (cases "i = idx")
  case True
  then show ?thesis by (simp add: eq_mask_def)
next
  case False
  define x where "x = i XOR idx"
  have x: "x \<noteq> 0" using False by (auto simp: x_def bit_eq_iff bit_xor_iff)
  have "drop_bit 63 x = 1 \<or> drop_bit 63 (0 - x) = 1"
    using uint_neg [OF x] unfolding top_bit_word by (cases "2 ^ 63 \<le> uint x") simp_all
  moreover have "drop_bit 63 x \<in> {0, 1}" "drop_bit 63 (0 - x) \<in> {0, 1}"
    unfolding top_bit_word by simp_all
  ultimately have "drop_bit 63 (x OR (0 - x)) = 1"
    unfolding drop_bit_or by auto
  then show ?thesis using False by (simp add: eq_mask_def Let_def x_def)
qed

lemma exp_select_correct:
  assumes "length table = 16" and "\<forall>x\<in>set table. length x = k" and "unat idx < 16"
  shows "exp_select table idx k = table ! unat idx"
proof -
  let ?f = "\<lambda>i sel. map2 (\<lambda>s x. s OR (x AND eq_mask (of_nat i) idx)) sel (table ! i)"
  have "n \<le> 16 \<Longrightarrow> fold ?f [0..<n] (replicate k 0) = (if unat idx < n then table ! unat idx else replicate k 0)" for n
  proof (induction n)
    case (Suc n)
    have len: "length (table ! j) = k" if "j < 16" for j using assms(1,2) that by auto
    have "eq_mask (of_nat n) idx = (if n = unat idx then - 1 else 0)"
      using Suc.prems by (auto simp: eq_mask_eq word_unat_eq_iff unsigned_of_nat take_bit_nat_eq_self)
    with Suc len [of n] len [of "unat idx"] assms(3) show ?case
      by (auto simp: list_eq_iff_nth_eq less_Suc_eq)
  qed simp
  from this [of 16] show ?thesis using assms(3) by (simp add: exp_select_def)
qed

section \<open>Exponentiation\<close>

text \<open>
  What square-and-multiply needs: a multiplication and a squaring that follow the product of the
  represented values.
\<close>

locale power_domain =
  fixes mul :: "'x \<Rightarrow> 'x \<Rightarrow> 'x" and sqr :: "'x \<Rightarrow> 'x" and rep :: "'x \<Rightarrow> int \<Rightarrow> bool"
  assumes mul: "rep x v \<Longrightarrow> rep y w \<Longrightarrow> rep (mul x y) (v * w)"
    and sqr: "rep x v \<Longrightarrow> rep (sqr x) (v * v)"
begin

lemma sqr_n: "rep x v \<Longrightarrow> rep ((sqr ^^ n) x) (v ^ 2 ^ n)"
proof (induction n)
  case (Suc n)
  then have "rep (sqr ((sqr ^^ n) x)) (v ^ 2 ^ n * v ^ 2 ^ n)" by (intro sqr) simp
  then show ?case by (simp add: power_add [symmetric] mult_2)
qed simp

lemma window_step:
  assumes "rep acc (v ^ e)" and "rep sel (v ^ w)"
  shows "rep (mul ((sqr ^^ n) acc) sel) (v ^ (2 ^ n * e + w))"
  using mul [OF sqr_n [OF assms(1), of n] assms(2)]
  by (simp add: power_mult [symmetric] power_add mult.commute)

lemma bit_step:
  assumes "rep acc (v ^ e)" and "rep y v"
  shows "rep (if b then mul (sqr acc) y else sqr acc) (v ^ (2 * e + of_bool b))"
  using sqr [OF assms(1)] mul [OF sqr [OF assms(1)] assms(2)]
  by (simp add: power_add [symmetric] mult_2 power_Suc2 [symmetric] del: power_Suc)

lemma next_power: "rep x (v ^ n) \<Longrightarrow> rep y v \<Longrightarrow> rep (mul x y) (v ^ Suc n)"
  using mul [of x "v ^ n" y v] by (simp add: mult.commute)

end

interpretation mont: power_domain
  "\<lambda>x y. viltrum_mont_mul x y m n0 k" "\<lambda>x. viltrum_mont_sqr x m n0 k" "mont_rep m n0 k" for m n0 k
proof
  fix x y v w
  show "mont_rep m n0 k x v \<Longrightarrow> mont_rep m n0 k y w \<Longrightarrow> mont_rep m n0 k (viltrum_mont_mul x y m n0 k) (v * w)"
    by (rule mont_mul_rep)
  assume "mont_rep m n0 k x v"
  moreover from this have "mont_modulus m n0 k" by (simp add: mont_rep_def)
  ultimately show "mont_rep m n0 k (viltrum_mont_sqr x m n0 k) (v * v)"
    by (simp add: viltrum_mont_sqr_mul mont_mul_rep)
qed

lemma exp_table_correct:
  assumes "mont_rep m n0 k a v" and "\<forall>i<length tab. mont_rep m n0 k (tab ! i) (v ^ i)" and "tab \<noteq> []"
  shows "length (exp_table a m n0 k n tab) = length tab + n \<and>
    (\<forall>i<length tab + n. mont_rep m n0 k (exp_table a m n0 k n tab ! i) (v ^ i))"
  using assms
proof (induction n arbitrary: tab)
  case (Suc n)
  let ?x = "viltrum_mont_mul (last tab) a m n0 k"
  have "mont_rep m n0 k ?x (v ^ Suc (length tab - 1))"
    using Suc.prems by (intro mont.next_power) (simp_all add: last_conv_nth)
  then have "\<forall>i<length (tab @ [?x]). mont_rep m n0 k ((tab @ [?x]) ! i) (v ^ i)"
    using Suc.prems by (auto simp: nth_append less_Suc_eq)
  then show ?case using Suc.IH [of "tab @ [?x]"] Suc.prems by simp
qed simp

lemma exp_window_correct:
  assumes "w < 16 * length e"
  shows "unat (exp_window e w) = nat (le_val e) div 16 ^ w mod 16"
proof -
  define q r where "q = w div 16" and "r = w mod 16"
  have q: "q < length e" using assms unfolding q_def by (intro less_mult_imp_div_less) (simp add: mult.commute)
  have w: "64 * q + r * 4 = 4 * w" 
    using mult_div_mod_eq [of 16 w, folded q_def r_def] by linarith
  have "uint (exp_window e w) = uint (drop_bit (r * 4) (e ! q) AND mask 4)"
    by (simp add: exp_window_def q_def r_def mask_eq_exp_minus_1)
  also have "\<dots> = uint (e ! q) div 2 ^ (r * 4) mod 2 ^ 4"
    by (simp only: uint_and_mask uint_drop_bit)
  also have "uint (e ! q) = le_val e div 2 ^ (64 * q) mod 2 ^ 64"
    using uint_nth_le_val [OF q] by simp
  also have "\<dots> div 2 ^ (r * 4) mod 2 ^ 4 = le_val e div 2 ^ (64 * q) div 2 ^ (r * 4) mod 2 ^ 4"
    by (rule field_of_field) (simp add: r_def)
  also have "\<dots> = le_val e div 2 ^ (4 * w) mod 2 ^ 4"
    by (simp only: div_div_power w)
  also have "\<dots> = le_val e div 16 ^ w mod 16"
    by (simp add: power_mult)
  finally show ?thesis
    by (simp add: nat_div_distrib nat_mod_distrib nat_power_eq pos_imp_zdiv_nonneg_iff flip: nat_uint_eq)
qed

lemma exp_step_correct:
  assumes "length table = 16" and "\<forall>i<16. mont_rep m n0 k (table ! i) (v ^ i)" and "length e = k"
    and "w < 16 * k" and "mont_rep m n0 k acc (v ^ (nat (le_val e) div 16 ^ Suc w))"
  shows "mont_rep m n0 k (exp_step table e m n0 k w acc) (v ^ (nat (le_val e) div 16 ^ w))"
proof -
  let ?i = "unat (exp_window e w)"
  have i: "?i = nat (le_val e) div 16 ^ w mod 16" using assms(3,4) by (simp add: exp_window_correct)
  then have "\<forall>x\<in>set table. length x = k"
    using assms(1,2) by (auto simp: in_set_conv_nth mont_rep_def)
  then have "exp_select table (exp_window e w) k = table ! ?i"
    using assms(1) i by (intro exp_select_correct) simp_all
  then have "mont_rep m n0 k (exp_select table (exp_window e w) k) (v ^ ?i)"
    using assms(2) i by simp
  from mont.window_step [OF assms(5) this, of 4]
  have "mont_rep m n0 k (exp_step table e m n0 k w acc) (v ^ (16 * (nat (le_val e) div 16 ^ Suc w) + ?i))"
    by (simp add: exp_step_def)
  moreover have "16 * (nat (le_val e) div 16 ^ Suc w) + ?i = nat (le_val e) div 16 ^ w"
    unfolding i power_Suc2 div_mult2_eq by (rule mult_div_mod_eq)
  ultimately show ?thesis by simp
qed

lemma exp_loop_correct:
  assumes "length table = 16" and "\<forall>i<16. mont_rep m n0 k (table ! i) (v ^ i)" and "length e = k"
  shows "w \<le> 16 * k \<Longrightarrow> mont_rep m n0 k acc (v ^ (nat (le_val e) div 16 ^ w)) \<Longrightarrow>
    mont_rep m n0 k (exp_loop table e m n0 k w acc) (v ^ nat (le_val e))"
proof (induction w arbitrary: acc)
  case (Suc w)
  then show ?case using exp_step_correct [OF assms, of w acc] by simp
qed simp

lemma viltrum_mont_exp_correct:
  assumes "mont_rep m n0 k a v" and "mont_rep m n0 k one 1" and "length e = k"
  shows "mont_rep m n0 k (viltrum_mont_exp a e m n0 one k) (v ^ nat (le_val e))"
proof -
  let ?t = "exp_table a m n0 k 14 [one, a]"
  have "\<forall>i<length [one, a]. mont_rep m n0 k ([one, a] ! i) (v ^ i)"
    using assms by (auto simp: less_Suc_eq)
  from exp_table_correct [OF assms(1) this, of 14]
  have t: "length ?t = 16" "\<forall>i<16. mont_rep m n0 k (?t ! i) (v ^ i)" by simp_all
  have "le_val e < 16 ^ (16 * k)"
  proof -
    have "le_val e < 2 ^ (4 * (16 * k))" using le_val_less [of e] assms(3) by simp
    then show ?thesis by (simp only: power_mult [of _ 4]) simp
  qed
  then have "nat (le_val e) < 16 ^ (16 * k)"
    by (simp add: nat_less_iff)
  then have "nat (le_val e) div 16 ^ (16 * k) = 0" by simp
  then show ?thesis
    using exp_loop_correct [OF t assms(3), of "16 * k" one] assms(2)
    by (simp add: viltrum_mont_exp_def mult.commute)
qed

section \<open>Properties of reduction and exponentiation\<close>

text \<open>
  \<^verbatim>\<open>viltrum_mont_redc\<close> divides a \<open>2k\<close>-limb number by \<open>R\<close> modulo \<open>m\<close>, and its result is below
  \<open>m\<close> when the number is below \<open>m * R\<close>.
\<close>

theorem mont_redc_correct:
  assumes "mont_modulus m n0 k" and "length x = 2 * k"
  shows "length (viltrum_mont_redc x m n0 k) = k \<and>
    le_val (viltrum_mont_redc x m n0 k) * 2 ^ (64 * k) mod le_val m = le_val x mod le_val m \<and>
    (le_val x < le_val m * 2 ^ (64 * k) \<longrightarrow> le_val (viltrum_mont_redc x m n0 k) < le_val m)"
  using viltrum_mont_redc_correct [OF assms] unfolding mont_R_def by blast

theorem mont_redc_correct_witness:
  "length (viltrum_mont_redc [12345, 3] [5] 3689348814741910323 1) = 1 \<and>
   le_val (viltrum_mont_redc [12345, 3] [5] 3689348814741910323 1) * 2 ^ 64 mod 5 = le_val [12345, 3 :: u64] mod 5 \<and>
   le_val (viltrum_mont_redc [12345, 3] [5] 3689348814741910323 1) < 5"
  using mont_redc_correct [of "[5]" 3689348814741910323 1 "[12345, 3]"]
  by (simp add: mont_modulus_def)

text \<open>
  \<^verbatim>\<open>viltrum_mont_exp\<close>, four squarings and one constant-time table product per window, computes
  the power of the represented number for every exponent of \<open>k\<close> limbs.
\<close>

theorem mont_exp_correct:
  assumes "mont_rep m n0 k a v" and "mont_rep m n0 k one 1" and "length e = k"
  shows "mont_rep m n0 k (viltrum_mont_exp a e m n0 one k) (v ^ nat (le_val e))"
  by (rule viltrum_mont_exp_correct [OF assms])

theorem mont_exp_correct_witness:
  "mont_rep [7] 10540996613548315209 1 (viltrum_mont_exp [6] [1000003] [7] 10540996613548315209 [2] 1) (3 ^ 1000003)"
proof -
  have r: "mont_rep [7] 10540996613548315209 1 [6] 3" "mont_rep [7] 10540996613548315209 1 [2] 1" "length [1000003::u64] = 1"
    by (simp_all add: mont_rep_def mont_modulus_def mont_R_def)
  have "nat (le_val [1000003 :: u64]) = 1000003" by simp
  with mont_exp_correct [OF r] show ?thesis by (simp only:)
qed

text \<open>
  The table read without a secret index returns the entry at \<open>idx\<close>: every entry is read and
  exactly one mask is all ones.
\<close>

theorem exp_select_reads_entry:
  assumes "length table = 16" and "\<forall>x\<in>set table. length x = k" and "unat idx < 16"
  shows "exp_select table idx k = table ! unat idx"
  by (rule exp_select_correct [OF assms])

theorem exp_select_reads_entry_witness:
  "exp_select (map (\<lambda>i. [of_nat i, 7]) [0..<16]) 5 2 = map (\<lambda>i. [of_nat i, 7 :: u64]) [0..<16] ! 5"
  using exp_select_reads_entry [of "map (\<lambda>i. [of_nat i, 7 :: u64]) [0..<16]" 2 5] by auto

end
