(* ===== verification/Fermat.thy ===== *)
theory Fermat
  imports Prelude
begin

text \<open>
  Number theory under RSA: Fermat's little theorem for a prime modulus in the form the private
  operation needs it, and the Chinese remainder theorem as a cancellation law.
\<close>

definition rsa_prime :: "int \<Rightarrow> bool" where
  "rsa_prime p \<longleftrightarrow> 1 < p \<and> (\<forall>d. 0 < d \<longrightarrow> d dvd p \<longrightarrow> d = 1 \<or> d = p)"

lemma rsa_prime_coprime: "rsa_prime p \<Longrightarrow> \<not> p dvd a \<Longrightarrow> coprime p a"
proof (rule ccontr)
  assume p: "rsa_prime p" "\<not> p dvd a" "\<not> coprime p a"
  have "gcd p a dvd p" "gcd p a \<noteq> 1" "0 < gcd p a"
    using p by (auto simp: coprime_iff_gcd_eq_1 rsa_prime_def)
  then have "gcd p a = p" using p(1) unfolding rsa_prime_def by blast
  then show False using p(2) by (metis gcd_dvd2)
qed

lemma rsa_prime_dvd_mult: "rsa_prime p \<Longrightarrow> p dvd a * b \<Longrightarrow> p dvd a \<or> p dvd b"
  using rsa_prime_coprime coprime_dvd_mult_right_iff by blast

lemma rsa_prime_dvd_choose:
  assumes "rsa_prime (int n)" and "0 < k" and "k < n"
  shows "int n dvd int (n choose k)"
proof -
  have "k * (n choose k) = n * (n - 1 choose (k - 1))"
    using times_binomial_minus1_eq [OF assms(2), of n] by simp
  then have "int n dvd int k * int (n choose k)"
    by (metis dvd_triv_left of_nat_mult)
  moreover have "\<not> int n dvd int k" using assms(2,3) by (simp add: nat_dvd_not_less)
  ultimately show ?thesis using rsa_prime_dvd_mult [OF assms(1)] by blast
qed

lemma freshman_dream:
  assumes "rsa_prime (int n)"
  shows "(x + 1) ^ n mod int n = (x ^ n + 1) mod int n"
proof -
  have n: "0 < n" using assms by (cases n) (simp_all add: rsa_prime_def)
  let ?f = "\<lambda>k. int (n choose k) * x ^ k"
  have "(x + 1) ^ n = (\<Sum>k\<le>n. ?f k)" by (simp add: binomial_ring)
  also have "{..n} = insert 0 (insert n {0<..<n})" using n by auto
  also have "(\<Sum>k\<in>\<dots>. ?f k) = 1 + (x ^ n + (\<Sum>k\<in>{0<..<n}. ?f k))" using n by simp
  finally have "(x + 1) ^ n - (x ^ n + 1) = (\<Sum>k\<in>{0<..<n}. ?f k)" by simp
  moreover have "int n dvd (\<Sum>k\<in>{0<..<n}. ?f k)"
    using rsa_prime_dvd_choose [OF assms] by (intro dvd_sum dvd_mult2) simp
  ultimately show ?thesis by (simp add: mod_eq_dvd_iff)
qed

lemma fermat_nat: "rsa_prime (int n) \<Longrightarrow> int x ^ n mod int n = int x mod int n"
proof (induction x)
  case 0
  then have "0 < n" by (cases n) (simp_all add: rsa_prime_def)
  then show ?case by (simp add: zero_power)
next
  case (Suc x)
  have "int (Suc x) ^ n mod int n = (int x ^ n + 1) mod int n"
    using freshman_dream [OF Suc.prems, of "int x"] by (simp add: add.commute)
  also have "\<dots> = (int x + 1) mod int n" using Suc by (intro mod_add_eqI refl) simp
  finally show ?case by (simp add: add.commute)
qed

lemma fermat:
  assumes "rsa_prime p"
  shows "x ^ nat p mod p = x mod p"
proof -
  have p: "0 < p" "int (nat p) = p" using assms by (simp_all add: rsa_prime_def)
  have "x ^ nat p mod p = (x mod p) ^ nat p mod p" by (simp add: power_mod)
  also have "\<dots> = (x mod p) mod p"
    using fermat_nat [of "nat p" "nat (x mod p)"] assms p by simp
  finally show ?thesis by simp
qed

text \<open>Exponents that are 1 modulo \<open>p - 1\<close> act as the identity on every residue.\<close>

lemma rsa_exponent:
  assumes "rsa_prime p" and "j mod nat (p - 1) = 1 mod nat (p - 1)" and "0 < j"
  shows "x ^ j mod p = x mod p"
proof -
  have p: "1 < p" using assms(1) by (simp add: rsa_prime_def)
  define m where "m = nat (p - 1)"
  have sp: "nat p = Suc m" using p by (simp add: m_def)
  have step: "x ^ (1 + m * i) mod p = x mod p" for i
  proof (induction i)
    case (Suc i)
    have "x ^ (1 + m * Suc i) mod p = x ^ (1 + m * i) * x ^ m mod p"
      by (simp add: power_add mult_ac)
    also have "\<dots> = x * x ^ m mod p" using Suc by (intro mod_mult_eqI refl) simp
    also have "\<dots> = x mod p" using fermat [OF assms(1), of x] by (simp add: sp)
    finally show ?case .
  qed simp
  have "m dvd j - 1" using assms(2,3) mod_eq_dvd_iff_nat [of 1 j m] by (simp add: m_def)
  then obtain i where "j - 1 = m * i" by (rule dvdE)
  then have "j = 1 + m * i" using assms(3) by simp
  then show ?thesis using step by simp
qed

lemma mod_factor: "a mod (p * q) = b mod (p * q) \<Longrightarrow> a mod p = b mod p" "a mod (p * q) = b mod (p * q) \<Longrightarrow> a mod q = b mod q"
  for a b p q :: int
  by (metis mod_mod_cancel dvd_triv_left) (metis mod_mod_cancel dvd_triv_right)

lemma crt_unique:
  fixes a b p q :: int
  assumes "coprime p q" and "a mod p = b mod p" and "a mod q = b mod q"
  shows "a mod (p * q) = b mod (p * q)"
  using assms by (simp add: mod_eq_dvd_iff divides_mult)

lemma rsa_primes_coprime: "rsa_prime p \<Longrightarrow> rsa_prime q \<Longrightarrow> p \<noteq> q \<Longrightarrow> coprime p q"
proof (rule rsa_prime_coprime)
  assume p: "rsa_prime p" and q: "rsa_prime q" and "p \<noteq> q"
  show "rsa_prime p" by (rule p)
  have "1 < p" "0 < p" using p by (simp_all add: rsa_prime_def)
  then show "\<not> p dvd q" using q \<open>p \<noteq> q\<close> unfolding rsa_prime_def by (metis less_irrefl)
qed

text \<open>
  The key equation of RSA for one modulus: raising to \<open>e * d\<close> is the identity on residues. It holds
  for a prime when \<open>e * d\<close> is 1 modulo \<open>p - 1\<close>, and for a product of coprime moduli when it holds
  for each.
\<close>

definition rsa_inverse :: "nat \<Rightarrow> nat \<Rightarrow> int \<Rightarrow> bool" where
  "rsa_inverse e d p \<longleftrightarrow> (\<forall>x. x ^ (e * d) mod p = x mod p)"

lemma rsa_inverse_prime:
  "rsa_prime p \<Longrightarrow> e * d mod nat (p - 1) = 1 mod nat (p - 1) \<Longrightarrow> 0 < e * d \<Longrightarrow> rsa_inverse e d p"
  unfolding rsa_inverse_def using rsa_exponent by blast

lemma rsa_inverse_mult:
  "coprime p q \<Longrightarrow> rsa_inverse e d (p * q) \<longleftrightarrow> rsa_inverse e d p \<and> rsa_inverse e d q"
  unfolding rsa_inverse_def using crt_unique mod_factor by metis

end
