(* ===== verification/Rsa.thy ===== *)
theory Rsa
  imports MontExp Fermat
begin

unbundle bit_operations_syntax

text \<open>
  The RSA private-key operation of \<^verbatim>\<open>src/engine/rsa.h\<close>: the key structure, the Montgomery
  constant \<^verbatim>\<open>viltrum_rsa_n0\<close>, and \<^verbatim>\<open>viltrum_rsa_private\<close>, which computes \<open>in ^ d mod n\<close> by CRT
  under blinding and releases the result only after checking it with the public exponent.
\<close>

section \<open>The key\<close>

record viltrum_rsa =
  key_limbs :: nat
  key_bits :: nat
  key_e :: u64
  key_n :: "u64 list"
  key_n_n0 :: u64
  key_n_r2 :: "u64 list"
  key_n_one :: "u64 list"
  key_p :: "u64 list"
  key_q :: "u64 list"
  key_dp :: "u64 list"
  key_dq :: "u64 list"
  key_p_n0 :: u64
  key_q_n0 :: u64
  key_p_r3 :: "u64 list"
  key_q_r3 :: "u64 list"
  key_p_one :: "u64 list"
  key_q_one :: "u64 list"
  key_qinv_m :: "u64 list"
  key_bl_vi :: "u64 list"
  key_bl_vf :: "u64 list"
  key_ok :: bool

section \<open>Operations\<close>

definition viltrum_rsa_n0 :: "u64 \<Rightarrow> u64" where
  "viltrum_rsa_n0 m0 = 0 - ((\<lambda>x. x * (2 - m0 * x)) ^^ 6) 1"

text \<open>Limb \<open>i\<close> of a big-endian byte string of \<open>8 * k\<close> bytes, and back.\<close>

definition limb_of_be :: "u8 list \<Rightarrow> u64" where
  "limb_of_be p = fold (\<lambda>b v. push_bit 8 v OR ucast b) p 0"

definition limbs_of_be :: "nat \<Rightarrow> u8 list \<Rightarrow> u64 list" where
  "limbs_of_be k bs = map (\<lambda>i. limb_of_be (take 8 (drop ((k - 1 - i) * 8) bs))) [0..<k]"

definition limb_to_be :: "u64 \<Rightarrow> u8 list" where
  "limb_to_be v = rev (map (\<lambda>j. ucast (drop_bit (8 * j) v)) [0..<8])"

definition limbs_to_be :: "u64 list \<Rightarrow> u8 list" where
  "limbs_to_be x = concat (map limb_to_be (rev x))"

text \<open>One half of the CRT: \<open>x ^ d\<close> modulo a prime, out of Montgomery form.\<close>

definition limbs_one :: "nat \<Rightarrow> u64 list" where
  "limbs_one k = 1 # replicate (k - 1) 0"

definition rsa_crt_half :: "u64 list \<Rightarrow> u64 list \<Rightarrow> u64 list \<Rightarrow> u64 \<Rightarrow> u64 list \<Rightarrow> u64 list \<Rightarrow> nat \<Rightarrow> u64 list" where
  "rsa_crt_half x d p p_n0 p_r3 p_one h =
     (let t = viltrum_mont_redc x p p_n0 h;
          t = viltrum_mont_mul t p_r3 p p_n0 h;
          s = viltrum_mont_exp t d p p_n0 p_one h
      in viltrum_mont_mul s (limbs_one h) p p_n0 h)"

text \<open>\<open>(s1 - s2) * q\<^sup>-\<^sup>1 mod p\<close>, with \<open>s2\<close> first reduced below \<open>p\<close> by one masked subtraction.\<close>

definition rsa_crt_diff :: "u64 list \<Rightarrow> u64 list \<Rightarrow> u64 list \<Rightarrow> u64 list" where
  "rsa_crt_diff s1 s2 p =
     (let (d, borrow) = sub_loop s2 p 0;
          keep = 0 - borrow;
          t = select_limbs keep s2 d;
          (d, borrow) = sub_loop s1 t 0;
          addp = 0 - borrow
      in fst (add_loop d (map (\<lambda>x. x AND addp) p) 0))"

text \<open>The schoolbook product \<open>t * q\<close> in \<open>2 * h\<close> limbs, one row per limb of \<open>t\<close>.\<close>

definition mul_row :: "u64 list \<Rightarrow> u64 list \<Rightarrow> nat \<Rightarrow> nat \<Rightarrow> u64 list \<Rightarrow> u64 list" where
  "mul_row t q h i x =
     (let (d, c) = muladd_loop (t ! i) q (take h (drop i x)) 0
      in take i x @ d @ [c] @ drop (i + h + 1) x)"

definition rsa_crt_join :: "u64 list \<Rightarrow> u64 list \<Rightarrow> u64 list \<Rightarrow> nat \<Rightarrow> u64 list" where
  "rsa_crt_join s2 t q h =
     (let x = fold (mul_row t q h) [0..<h] (replicate (2 * h) 0)
      in fst (add_loop x (s2 @ replicate h 0) 0))"

text \<open>
  The public check. \<^verbatim>\<open>top\<close> is the highest set bit of the exponent; for exponent 0 the source's
  search would run past bit 0, which is \<open>None\<close> here (\<^verbatim>\<open>viltrum_rsa_load\<close> refuses exponents below 3).
\<close>

fun rsa_top_bit :: "u64 \<Rightarrow> nat \<Rightarrow> nat option" where
  "rsa_top_bit e 0 = None"
| "rsa_top_bit e (Suc n) = (if drop_bit n e AND 1 \<noteq> 0 then Some n else rsa_top_bit e n)"

fun rsa_public_loop :: "u64 \<Rightarrow> u64 list \<Rightarrow> u64 list \<Rightarrow> u64 \<Rightarrow> nat \<Rightarrow> nat \<Rightarrow> u64 list \<Rightarrow> u64 list" where
  "rsa_public_loop e y n n0 k 0 acc = acc"
| "rsa_public_loop e y n n0 k (Suc b) acc =
     (let acc = viltrum_mont_sqr acc n n0 k;
          acc = (if drop_bit b e AND 1 \<noteq> 0 then viltrum_mont_mul acc y n n0 k else acc)
      in rsa_public_loop e y n n0 k b acc)"

definition rsa_public_check :: "viltrum_rsa \<Rightarrow> u64 list \<Rightarrow> u64 list \<Rightarrow> bool option" where
  "rsa_public_check key x m =
     (let k = key_limbs key; n = key_n key; n0 = key_n_n0 key;
          y = viltrum_mont_mul x (key_n_r2 key) n n0 k
      in case rsa_top_bit (key_e key) 64 of
           None \<Rightarrow> None
         | Some b \<Rightarrow>
             (let acc = rsa_public_loop (key_e key) y n n0 k b y;
                  acc = viltrum_mont_mul acc (limbs_one k) n n0 k;
                  diff = fold (\<lambda>(a, b) d. d OR (a XOR b)) (zip acc m) 0
              in Some (diff = 0)))"

text \<open>
  \<^verbatim>\<open>viltrum_rsa_private\<close>: the return value, the bytes written to \<^verbatim>\<open>out\<close> if any, and the key with
  its squared blinding pair. \<open>None\<close> stands for the undefined shift of a zero exponent.
\<close>

definition rsa_sign_step :: "viltrum_rsa \<Rightarrow> u64 list \<Rightarrow> viltrum_rsa \<times> u64 list" where
  "rsa_sign_step key m =
     (let k = key_limbs key; h = k div 2; n = key_n key; n0 = key_n_n0 key;
          key = key\<lparr>key_bl_vi := viltrum_mont_sqr (key_bl_vi key) n n0 k,
                    key_bl_vf := viltrum_mont_sqr (key_bl_vf key) n n0 k\<rparr>;
          x = viltrum_mont_mul m (key_bl_vi key) n n0 k;
          s1 = rsa_crt_half x (key_dp key) (key_p key) (key_p_n0 key) (key_p_r3 key) (key_p_one key) h;
          s2 = rsa_crt_half x (key_dq key) (key_q key) (key_q_n0 key) (key_q_r3 key) (key_q_one key) h;
          d = rsa_crt_diff s1 s2 (key_p key);
          t = viltrum_mont_mul d (key_qinv_m key) (key_p key) (key_p_n0 key) h;
          x = rsa_crt_join s2 t (key_q key) h
      in (key, viltrum_mont_mul x (key_bl_vf key) n n0 k))"

definition viltrum_rsa_private :: "viltrum_rsa \<Rightarrow> u8 list \<Rightarrow> (int \<times> u8 list option \<times> viltrum_rsa) option" where
  "viltrum_rsa_private key inp =
     (let m = limbs_of_be (key_limbs key) inp;
          (_, borrow) = sub_loop m (key_n key) 0
      in if borrow = 0 then Some (- 1, None, key)
         else
           (let (key, x) = rsa_sign_step key m
            in case rsa_public_check key x m of
                 None \<Rightarrow> None
               | Some True \<Rightarrow> Some (0, Some (limbs_to_be x), key)
               | Some False \<Rightarrow> Some (- 1, None, key)))"

section \<open>The Montgomery constant\<close>

text \<open>Each Newton step doubles the number of correct low bits; six steps reach 64 from one.\<close>

lemma newton_step:
  fixes m x :: "'a::len word"
  assumes "2 ^ j dvd m * x - 1"
  shows "2 ^ (2 * j) dvd m * (x * (2 - m * x)) - 1"
proof -
  from assms obtain c where c: "m * x - 1 = 2 ^ j * c" by (rule dvdE)
  have "m * (x * (2 - m * x)) - 1 = - ((m * x - 1) * (m * x - 1))"
    by (simp add: algebra_simps)
  also have "\<dots> = 2 ^ (2 * j) * (- (c * c))"
    unfolding c mult_2 power_add by (simp only: minus_mult_right [symmetric] minus_mult_left [symmetric] mult_ac)
  finally show ?thesis by (rule dvdI)
qed

lemma newton_iter:
  fixes m :: "'a::len word"
  assumes "2 dvd m - 1"
  shows "2 ^ 2 ^ i dvd m * ((\<lambda>x. x * (2 - m * x)) ^^ i) 1 - 1"
proof (induction i)
  case 0
  then show ?case using assms by simp
next
  case (Suc i)
  then show ?case using newton_step [OF Suc] by simp
qed

lemma viltrum_rsa_n0_correct:
  assumes "odd (uint m0)"
  shows "(uint m0 * uint (viltrum_rsa_n0 m0) + 1) mod 2 ^ 64 = 0"
proof -
  let ?x = "((\<lambda>x. x * (2 - m0 * x)) ^^ 6) 1"
  have "odd m0" using assms bit_uint_iff [of m0 0] by (simp add: bit_0)
  then have "2 dvd m0 - 1" by simp
  from newton_iter [OF this, of 6] have "2 ^ 2 ^ 6 dvd m0 * ?x - 1" .
  moreover have "(2::u64) ^ 2 ^ 6 = 0" by (simp add: word_uint_eq_iff)
  ultimately have "m0 * ?x - 1 = 0" by (simp only: dvd_0_left_iff)
  then have "m0 * ?x = 1" by simp
  then have "m0 * viltrum_rsa_n0 m0 + 1 = 0" by (simp add: viltrum_rsa_n0_def)
  then have "uint (m0 * viltrum_rsa_n0 m0 + 1) = 0" by simp
  then show ?thesis by (simp add: uint_word_ariths mod_simps)
qed

section \<open>Bytes and limbs\<close>

lemma limb_of_be_append: "limb_of_be (p @ [b]) = push_bit 8 (limb_of_be p) OR ucast b"
  by (simp add: limb_of_be_def)

lemma uint_limb_of_be: "length p \<le> 8 \<Longrightarrow> uint (limb_of_be p) = be_val p"
proof (induction p rule: rev_induct)
  case Nil
  then show ?case by (simp add: limb_of_be_def be_val_def)
next
  case (snoc b p)
  have IH: "uint (limb_of_be p) = be_val p" using snoc by simp
  have "le_val (rev p) < 2 ^ (8 * length p)" using le_val_less [of "rev p"] by simp
  also have "(2::int) ^ (8 * length p) \<le> 2 ^ 56" using snoc.prems by (intro power_increasing) simp_all
  finally have "uint (limb_of_be p) * 2 ^ 8 < 2 ^ 64" using IH by (simp add: be_val_def)
  then have sh: "uint (push_bit 8 (limb_of_be p)) = uint (limb_of_be p) * 2 ^ 8"
    by (simp add: uint_push_bit)
  have b: "uint (ucast b :: u64) = uint b" by (simp add: uint_ucast_widen)
  have "uint (ucast b OR push_bit 8 (limb_of_be p)) = uint (ucast b :: u64) + uint (push_bit 8 (limb_of_be p))"
    using uint_lt2p [of b] by (intro uint_or_disjoint [where n = 8]) (simp_all add: b sh)
  then show ?case
    by (simp add: limb_of_be_append be_val_def IH [unfolded be_val_def] b sh or.commute [of "push_bit _ _"])
qed

lemma be_val_append: "be_val (x @ y) = be_val x * 2 ^ (8 * length y) + be_val (y :: u8 list)"
  by (simp add: be_val_def le_val_append)

lemma limbs_of_be_Suc:
  assumes "length bs = 8 * Suc k"
  shows "limbs_of_be (Suc k) bs = limbs_of_be k (drop 8 bs) @ [limb_of_be (take 8 bs)]"
proof -
  have "limb_of_be (take 8 (drop ((Suc k - 1 - i) * 8) bs)) = limb_of_be (take 8 (drop ((k - 1 - i) * 8) (drop 8 bs)))"
    if "i < k" for i
  proof -
    have "(Suc k - 1 - i) * 8 = (k - 1 - i) * 8 + 8" using that by (simp add: diff_mult_distrib)
    then show ?thesis by (simp only: drop_drop)
  qed
  then show ?thesis by (simp add: limbs_of_be_def)
qed

lemma length_limbs_of_be [simp]: "length (limbs_of_be k bs) = k"
  by (simp add: limbs_of_be_def)

lemma le_val_limbs_of_be: "length bs = 8 * k \<Longrightarrow> le_val (limbs_of_be k bs) = be_val bs"
proof (induction k arbitrary: bs)
  case 0
  then show ?case by (simp add: limbs_of_be_def be_val_def)
next
  case (Suc k)
  have "be_val bs = be_val (take 8 bs @ drop 8 bs)" by simp
  also have "\<dots> = be_val (take 8 bs) * 2 ^ (8 * (8 * k)) + be_val (drop 8 bs)"
    unfolding be_val_append using Suc.prems by simp
  finally show ?case
    using Suc by (simp add: limbs_of_be_Suc le_val_append uint_limb_of_be)
qed

lemma limb_to_be_eq: "limb_to_be v = rev (le_digits 8 (uint v))"
  by (simp only: limb_to_be_def bytes_of_word)

lemma be_val_limb_to_be: "be_val (limb_to_be v) = uint v" "length (limb_to_be v) = 8"
  using uint_lt2p [of v] by (simp_all add: limb_to_be_eq be_val_def le_val_le_digits)

lemma length_limbs_to_be [simp]: "length (limbs_to_be x) = 8 * length x"
  by (induction x) (simp_all add: limbs_to_be_def be_val_limb_to_be)

lemma be_val_limbs_to_be: "be_val (limbs_to_be x) = le_val x"
proof (induction x)
  case Nil
  then show ?case by (simp add: limbs_to_be_def be_val_def)
next
  case (Cons a x)
  have "limbs_to_be (a # x) = limbs_to_be x @ limb_to_be a" by (simp add: limbs_to_be_def)
  then show ?case by (simp add: be_val_append Cons be_val_limb_to_be)
qed

section \<open>The public check\<close>

lemma word_bit_test: "drop_bit n (e::u64) AND 1 \<noteq> 0 \<longleftrightarrow> odd (unat e div 2 ^ n)"
proof -
  have "drop_bit n e AND 1 \<noteq> 0 \<longleftrightarrow> bit e n"
    by (simp add: and_one_eq mod_2_eq_odd bit_iff_odd_drop_bit)
  also have "\<dots> \<longleftrightarrow> bit (unat e) n" by (simp add: bit_unsigned_iff)
  finally show ?thesis by (simp add: bit_iff_odd)
qed

lemma rsa_top_bit_correct:
  assumes "unat e < 2 ^ n" and "e \<noteq> 0"
  shows "\<exists>b. rsa_top_bit e n = Some b \<and> b < n \<and> unat e div 2 ^ b = 1"
  using assms
proof (induction n)
  case 0
  then show ?case by (simp add: word_unat_eq_iff)
next
  case (Suc n)
  show ?case
  proof (cases "2 ^ n \<le> unat e")
    case True
    have "unat e < 2 * 2 ^ n" using Suc.prems by simp
    then have "unat e div 2 ^ n < 2" by (simp add: less_mult_imp_div_less)
    moreover have "0 < unat e div 2 ^ n" using True by (simp add: div_greater_zero_iff)
    ultimately have "unat e div 2 ^ n = 1" by linarith
    then show ?thesis by (simp add: word_bit_test)
  next
    case False
    then have "\<not> odd (unat e div 2 ^ n)" by simp
    then show ?thesis using False Suc by (auto simp: word_bit_test)
  qed
qed

lemma rsa_public_loop_correct:
  "mont_rep n n0 k acc (v ^ (unat e div 2 ^ b)) \<Longrightarrow> mont_rep n n0 k y v \<Longrightarrow>
   mont_rep n n0 k (rsa_public_loop e y n n0 k b acc) (v ^ unat e)"
proof (induction b arbitrary: acc)
  case 0
  then show ?case by simp
next
  case (Suc b)
  let ?t = "odd (unat e div 2 ^ b)"
  have "2 * (unat e div 2 ^ Suc b) + of_bool ?t = unat e div 2 ^ b"
    unfolding power_Suc2 div_mult2_eq by (simp add: mod_2_eq_odd [symmetric])
  with mont.bit_step [OF Suc.prems, of ?t] Suc.IH Suc.prems(2) show ?case
    by (simp add: Let_def word_bit_test)
qed

lemma diff_zero_iff:
  "length a = length b \<Longrightarrow> fold (\<lambda>(a, b) d. d OR (a XOR b)) (zip a b) d = 0 \<longleftrightarrow> d = 0 \<and> a = (b :: u64 list)"
proof (induction a b arbitrary: d rule: list_induct2)
  case (Cons x xs y ys)
  have "x XOR y = 0 \<longleftrightarrow> x = y" by (auto simp: bit_eq_iff bit_xor_iff)
  then show ?case using Cons.IH by (auto simp: or_eq_0_iff)
qed simp

lemma limbs_one [simp]: "0 < k \<Longrightarrow> length (limbs_one k) = k" "le_val (limbs_one k) = 1"
  by (simp_all add: limbs_one_def)

lemma rsa_public_check_correct:
  assumes "mont_rep (key_n key) (key_n_n0 key) (key_limbs key) (key_n_r2 key) (mont_R (key_limbs key))"
    and "key_e key \<noteq> 0" and "length x = key_limbs key" and "length m = key_limbs key"
  shows "rsa_public_check key x m = Some (le_val x ^ unat (key_e key) mod le_val (key_n key) = le_val m)"
proof -
  define k n n0 where "k = key_limbs key" and "n = key_n key" and "n0 = key_n_n0 key"
  define y where "y = viltrum_mont_mul x (key_n_r2 key) n n0 k"
  have r2: "mont_rep n n0 k (key_n_r2 key) (mont_R k)" using assms(1) by (simp add: k_def n_def n0_def)
  then have m: "mont_modulus n n0 k" "0 < k" by (simp_all add: mont_rep_def mont_modulus_def)
  have y: "mont_rep n n0 k y (le_val x)"
    unfolding y_def using m(1) assms(3) r2 by (intro mont_to_rep) (simp_all add: k_def)
  have "unat (key_e key) < 2 ^ 64" using unsigned_less [of "key_e key"] by simp
  then obtain b where b: "rsa_top_bit (key_e key) 64 = Some b" "unat (key_e key) div 2 ^ b = 1"
    using rsa_top_bit_correct [OF _ assms(2)] by blast
  let ?acc = "rsa_public_loop (key_e key) y n n0 k b y"
  have "mont_rep n n0 k ?acc (le_val x ^ unat (key_e key))"
    using b(2) y by (intro rsa_public_loop_correct) simp_all
  note acc = mont_mul_plain_right [OF this limbs_one(1) [OF m(2)]]
  have "length (viltrum_mont_mul ?acc (limbs_one k) n n0 k) = length m"
    using acc(1) assms(4) by (simp add: k_def)
  then have "viltrum_mont_mul ?acc (limbs_one k) n n0 k = m \<longleftrightarrow> le_val (viltrum_mont_mul ?acc (limbs_one k) n n0 k) = le_val m"
    using le_val_inj by blast
  then have "viltrum_mont_mul ?acc (limbs_one k) n n0 k = m \<longleftrightarrow> le_val x ^ unat (key_e key) mod le_val n = le_val m"
    unfolding acc(2) by simp
  then show ?thesis
    using b(1) acc(1) assms(4)
    by (simp add: rsa_public_check_def Let_def diff_zero_iff flip: k_def n_def n0_def y_def)
qed

section \<open>The two halves\<close>

lemma rsa_crt_half_correct:
  assumes "mont_rep p n0 h r3 (mont_R h * mont_R h)" and "mont_rep p n0 h one 1" and "length d = h"
    and "length x = 2 * h" and "le_val x < le_val p * mont_R h"
  shows "length (rsa_crt_half x d p n0 r3 one h) = h"
    and "le_val (rsa_crt_half x d p n0 r3 one h) = le_val x ^ nat (le_val d) mod le_val p"
proof -
  have m: "mont_modulus p n0 h" "0 < h" "length r3 = h"
    using assms(1) by (simp_all add: mont_rep_def mont_modulus_def)
  define t where "t = viltrum_mont_redc x p n0 h"
  have t: "length t = h" "le_val t * mont_R h mod le_val p = le_val x mod le_val p"
    using viltrum_mont_redc_correct(1,2) [OF m(1) assms(4)] by (simp_all add: t_def)
  have r3: "le_val r3 mod le_val p = mont_R h * mont_R h * mont_R h mod le_val p"
    using assms(1) by (simp add: mont_rep_def)
  have "le_val t * le_val r3 mod le_val p = le_val t * (mont_R h * mont_R h * mont_R h) mod le_val p"
    by (rule mod_mult_eqI [OF refl r3])
  also have "\<dots> = (le_val t * mont_R h) * (mont_R h * mont_R h) mod le_val p"
    by (simp only: mult_ac)
  also have "\<dots> = le_val x * (mont_R h * mont_R h) mod le_val p"
    by (rule mod_mult_eqI [OF t(2) refl])
  finally have "mont_rep p n0 h (viltrum_mont_mul t r3 p n0 h) (le_val x)"
    using m t(1) mont_mul_bound [OF t(1) mont_rep_less [OF assms(1)]]
    by (intro mont_mul_repI) (simp_all only: mult.assoc)
  from viltrum_mont_exp_correct [OF this assms(2,3)]
  have e: "mont_rep p n0 h (viltrum_mont_exp (viltrum_mont_mul t r3 p n0 h) d p n0 one h)
      (le_val x ^ nat (le_val d))" .
  note out = mont_mul_plain_right [OF e limbs_one(1) [OF m(2)]]
  show "length (rsa_crt_half x d p n0 r3 one h) = h"
    unfolding rsa_crt_half_def Let_def t_def [symmetric] by (rule out(1))
  show "le_val (rsa_crt_half x d p n0 r3 one h) = le_val x ^ nat (le_val d) mod le_val p"
    unfolding rsa_crt_half_def Let_def t_def [symmetric] using out(2) by simp
qed

section \<open>Recombination\<close>

lemma sub_mod_correct:
  fixes s p :: "u64 list"
  assumes "length s = h" and "length p = h" and "le_val s < 2 * le_val p" and "sub_loop s p 0 = (d, b)"
  shows "length (select_limbs (0 - b) s d) = h" and "le_val (select_limbs (0 - b) s d) = le_val s mod le_val p"
proof -
  have d: "length d = h" "uint b \<le> 1" "le_val d = le_val s - le_val p + mont_R h * uint b"
    using sub_loop_R [OF assms(1,2,4)] by simp_all
  have R: "le_val d < mont_R h" "le_val s < mont_R h" "le_val p < mont_R h" "0 \<le> le_val d" "0 \<le> le_val s"
    using le_val_less_R [OF d(1)] le_val_less_R [OF assms(1)] le_val_less_R [OF assms(2)] by simp_all
  consider (keep) "b = 1" | (sub) "b = 0" using word_bit_cases [OF d(2)] by blast
  then have "length (select_limbs (0 - b) s d) = h \<and> le_val (select_limbs (0 - b) s d) = le_val s mod le_val p"
  proof cases
    case keep
    then have "le_val s < le_val p" using d(3) R by simp
    then show ?thesis using keep d(1) assms(1) R by (simp add: select_limbs_ones)
  next
    case sub
    then have "le_val s mod le_val p = le_val s - le_val p"
      using d(3) R assms(3) by (intro int_mod_pos_eq [where q = 1]) simp_all
    then show ?thesis using sub d(1,3) assms(1) by (simp add: select_limbs_zero)
  qed
  then show "length (select_limbs (0 - b) s d) = h" "le_val (select_limbs (0 - b) s d) = le_val s mod le_val p"
    by simp_all
qed

lemma wrap_unique:
  fixes r v R :: int
  assumes "r + R * c = v + R * c'" and "0 \<le> r" and "r < R" and "0 \<le> v" and "v < R"
  shows "r = v"
proof -
  have "r = (r + R * c) mod R" using assms(2,3) by simp
  also have "\<dots> = v" unfolding assms(1) using assms(4,5) by simp
  finally show ?thesis .
qed

lemma sub_add_back_correct:
  fixes a t p :: "u64 list"
  assumes "length a = h" and "length t = h" and "length p = h" and "le_val a < le_val p" and "le_val t < le_val p"
    and "sub_loop a t 0 = (d, b)" and "add_loop d (map (\<lambda>x. x AND (0 - b)) p) 0 = (r, c)"
  shows "length r = h" and "le_val r = (le_val a - le_val t) mod le_val p"
proof -
  have sub: "length d = h" "uint b \<le> 1" "le_val d = le_val a - le_val t + mont_R h * uint b"
    using sub_loop_R [OF assms(1,2,6)] by simp_all
  have add: "length r = h" "le_val r + mont_R h * uint c = le_val d + le_val (map (\<lambda>x. x AND (0 - b)) p)"
    using add_loop_R [OF sub(1) _ assms(7)] assms(3) by simp_all
  show "length r = h" by (rule add(1))
  have R: "le_val r < mont_R h" "le_val p < mont_R h" "le_val d < mont_R h"
    using le_val_less_R [OF add(1)] le_val_less_R [OF assms(3)] le_val_less_R [OF sub(1)] by simp_all
  have nn: "0 \<le> le_val d" "0 \<le> le_val a" "0 \<le> le_val t" by simp_all
  consider (plain) "b = 0" | (neg) "b = 1" using word_bit_cases [OF sub(2)] by blast
  then show "le_val r = (le_val a - le_val t) mod le_val p"
  proof cases
    case plain
    have "le_val (map (\<lambda>x. 0) p :: u64 list) = 0" by (simp add: map_replicate_const)
    then have "le_val r + mont_R h * uint c = le_val d + mont_R h * 0"
      using add(2) by (simp add: plain)
    then have "le_val r = le_val d"
      by (rule wrap_unique) (use R nn in simp_all)
    moreover have "le_val d = le_val a - le_val t" using sub(3) plain by simp
    moreover have "(le_val a - le_val t) mod le_val p = le_val a - le_val t"
      using nn assms(4) calculation(2) by (intro mod_pos_pos_trivial) linarith+
    ultimately show ?thesis by simp
  next
    case neg
    then have lt: "le_val a < le_val t" using sub(3) R by simp
    have "le_val r + mont_R h * uint c = (le_val a - le_val t + le_val p) + mont_R h * 1"
      using add(2) sub(3) by (simp add: neg)
    then have "le_val r = le_val a - le_val t + le_val p"
      by (rule wrap_unique) (use R lt nn assms(4,5) le_val_nonneg [of r] in linarith)+
    moreover have "(le_val a - le_val t) mod le_val p = le_val a - le_val t + le_val p"
      by (rule int_mod_pos_eq [where q = "- 1"]) (use lt assms(4,5) nn in linarith)+
    ultimately show ?thesis by simp
  qed
qed

lemma rsa_crt_diff_correct:
  assumes "length s1 = h" and "length s2 = h" and "length p = h"
    and "le_val s1 < le_val p" and "le_val s2 < 2 * le_val p"
  shows "length (rsa_crt_diff s1 s2 p) = h"
    and "le_val (rsa_crt_diff s1 s2 p) = (le_val s1 - le_val s2) mod le_val p"
proof -
  obtain d b where db: "sub_loop s2 p 0 = (d, b)" by (cases "sub_loop s2 p 0")
  define t where "t = select_limbs (0 - b) s2 d"
  have t: "length t = h" "le_val t = le_val s2 mod le_val p"
    using sub_mod_correct [OF assms(2,3,5) db] by (simp_all add: t_def)
  obtain d2 b2 where d2: "sub_loop s1 t 0 = (d2, b2)" by (cases "sub_loop s1 t 0")
  obtain r c where r: "add_loop d2 (map (\<lambda>x. x AND (0 - b2)) p) 0 = (r, c)"
    by (cases "add_loop d2 (map (\<lambda>x. x AND (0 - b2)) p) 0")
  have "0 < le_val p" using assms(4) le_val_nonneg [of s1] by linarith
  then have "le_val t < le_val p" by (simp add: t(2))
  note fin = sub_add_back_correct [OF assms(1) t(1) assms(3,4) this d2 r]
  have eq: "rsa_crt_diff s1 s2 p = r"
    unfolding rsa_crt_diff_def Let_def db prod.case t_def [symmetric] d2 r by simp
  show "length (rsa_crt_diff s1 s2 p) = h" unfolding eq by (rule fin(1))
  show "le_val (rsa_crt_diff s1 s2 p) = (le_val s1 - le_val s2) mod le_val p"
    unfolding eq fin(2) t(2) by (simp only: mod_diff_right_eq)
qed

text \<open>The product by rows: after \<open>i\<close> rows the value is \<open>q\<close> times the low \<open>i\<close> limbs of \<open>t\<close>.\<close>

definition mul_rows_inv :: "u64 list \<Rightarrow> u64 list \<Rightarrow> nat \<Rightarrow> nat \<Rightarrow> u64 list \<Rightarrow> bool" where
  "mul_rows_inv t q h i x \<longleftrightarrow> length x = 2 * h \<and> drop (i + h) x = replicate (h - i) 0 \<and>
     le_val x = le_val (take i t) * le_val q"

lemma mul_row_inv:
  assumes "length t = h" and "length q = h" and "i < h" and "mul_rows_inv t q h i x"
  shows "mul_rows_inv t q h (Suc i) (mul_row t q h i x)"
proof -
  define mid where "mid = take h (drop i x)"
  obtain d c where d: "muladd_loop (t ! i) q mid 0 = (d, c)" by (cases "muladd_loop (t ! i) q mid 0")
  let ?z = "replicate (h - Suc i) (0::u64)"
  have len: "length x = 2 * h" and hi: "drop (i + h) x = replicate (h - i) 0"
    and val: "le_val x = le_val (take i t) * le_val q"
    using assms(4) by (simp_all add: mul_rows_inv_def)
  have lens: "length mid = h" "length (take i x) = i" using len assms(3) by (simp_all add: mid_def)
  have mul: "length d = h" "le_val d + mont_R h * uint c = uint (t ! i) * le_val q + le_val mid"
    using muladd_loop_R [OF assms(2) lens(1) d] by simp_all
  have "replicate (h - i) (0::u64) = 0 # ?z" using assms(3) by (simp add: Suc_diff_Suc flip: replicate_Suc)
  then have hi': "x ! (i + h) = 0" "drop (i + h + 1) x = ?z"
    using hi len assms(3) Cons_nth_drop_Suc [of "i + h" x] by simp_all
  then have "x = take i x @ mid @ [0] @ ?z"
    using split_at_limb [of i h x] len assms(3) by (simp add: mid_def)
  then have "le_val x = le_val (take i x @ mid @ [0] @ ?z)" by (rule arg_cong)
  then have xv: "le_val x = le_val (take i x) + mont_R i * le_val mid"
    by (simp add: le_val_append_R [OF lens(2)] le_val_append_R [OF lens(1)])
  have row: "mul_row t q h i x = take i x @ d @ [c] @ ?z"
    using d hi'(2) by (simp add: mul_row_def mid_def)
  have "le_val (mul_row t q h i x) = le_val (take i x) + mont_R i * (le_val d + mont_R h * uint c)"
    unfolding row by (simp add: le_val_append_R [OF lens(2)] le_val_append_R [OF mul(1)])
  also have "\<dots> = le_val x + mont_R i * uint (t ! i) * le_val q"
    unfolding mul(2) xv by (simp add: algebra_simps)
  also have "\<dots> = (le_val (take i t) + mont_R i * uint (t ! i)) * le_val q"
    unfolding val by (simp add: algebra_simps)
  also have "le_val (take i t) + mont_R i * uint (t ! i) = le_val (take (Suc i) t)"
    using assms(1,3) by (simp add: take_Suc_conv_app_nth le_val_append mont_R_def min_def)
  finally show ?thesis
    using mul(1) lens assms(3) unfolding mul_rows_inv_def row by simp
qed

lemma rsa_crt_join_correct:
  assumes "length s2 = h" and "length t = h" and "length q = h" and "le_val s2 + le_val t * le_val q < mont_R (2 * h)"
  shows "length (rsa_crt_join s2 t q h) = 2 * h"
    and "le_val (rsa_crt_join s2 t q h) = le_val s2 + le_val t * le_val q"
proof -
  have "n \<le> h \<Longrightarrow> mul_rows_inv t q h n (fold (mul_row t q h) [0..<n] (replicate (2 * h) 0))" for n
    by (induction n) (simp_all add: mul_row_inv [OF assms(2,3)], simp add: mul_rows_inv_def)
  define x where "x = fold (mul_row t q h) [0..<h] (replicate (2 * h) 0)"
  have x: "length x = 2 * h" "le_val x = le_val t * le_val q"
    using \<open>h \<le> h \<Longrightarrow> _\<close> assms(2) by (simp_all add: x_def mul_rows_inv_def)
  obtain r c where r: "add_loop x (s2 @ replicate h 0) 0 = (r, c)" by (cases "add_loop x (s2 @ replicate h 0) 0")
  have pad: "length (s2 @ replicate h 0) = 2 * h" "le_val (s2 @ replicate h 0) = le_val s2"
    using assms(1) by (simp_all add: le_val_append)
  note add = add_loop_R [OF x(1) pad(1) r, unfolded x(2) pad(2)]
  have "le_val r + mont_R (2 * h) * uint c = (le_val s2 + le_val t * le_val q) + mont_R (2 * h) * 0"
    using add(2) by (simp only: add.commute mult_zero_right add_0_left)
  then have "le_val r = le_val s2 + le_val t * le_val q"
    by (rule wrap_unique [OF _ le_val_nonneg le_val_less_R [OF add(1)] _ assms(4)])
      (intro add_nonneg_nonneg mult_nonneg_nonneg le_val_nonneg)
  then show "length (rsa_crt_join s2 t q h) = 2 * h"
    "le_val (rsa_crt_join s2 t q h) = le_val s2 + le_val t * le_val q"
    using add(1) unfolding rsa_crt_join_def Let_def x_def [symmetric] r by simp_all
qed

section \<open>The private operation\<close>

text \<open>
  A key as \<^verbatim>\<open>viltrum_rsa_load\<close> leaves it and as every signature keeps it: two coprime factors with
  their Montgomery constants, CRT exponents that invert the public one modulo each factor, and a blinding pair
  \<open>(r ^ e, r\<^sup>-\<^sup>1)\<close> for some \<open>r\<close>.
\<close>

definition rsa_blinding :: "viltrum_rsa \<Rightarrow> int \<Rightarrow> int \<Rightarrow> bool" where
  "rsa_blinding key r ri \<longleftrightarrow>
     r * ri mod le_val (key_n key) = 1 \<and>
     mont_rep (key_n key) (key_n_n0 key) (key_limbs key) (key_bl_vi key) (r ^ unat (key_e key)) \<and>
     mont_rep (key_n key) (key_n_n0 key) (key_limbs key) (key_bl_vf key) ri"

definition rsa_half_wf :: "u64 list \<Rightarrow> u64 \<Rightarrow> nat \<Rightarrow> u64 list \<Rightarrow> u64 list \<Rightarrow> u64 list \<Rightarrow> nat \<Rightarrow> bool" where
  "rsa_half_wf p n0 h r3 one d e \<longleftrightarrow>
     1 < le_val p \<and> mont_rep p n0 h r3 (mont_R h * mont_R h) \<and> mont_rep p n0 h one 1 \<and>
     length d = h \<and> rsa_inverse e (nat (le_val d)) (le_val p)"

definition rsa_key_static :: "viltrum_rsa \<Rightarrow> bool" where
  "rsa_key_static key \<longleftrightarrow>
     (let k = key_limbs key; h = k div 2; e = unat (key_e key); n = le_val (key_n key);
          p = le_val (key_p key); q = le_val (key_q key)
      in even k \<and> key_e key \<noteq> 0 \<and> n = p * q \<and> coprime p q \<and> q < 2 * p \<and>
         mont_rep (key_n key) (key_n_n0 key) k (key_n_r2 key) (mont_R k) \<and>
         rsa_half_wf (key_p key) (key_p_n0 key) h (key_p_r3 key) (key_p_one key) (key_dp key) e \<and>
         rsa_half_wf (key_q key) (key_q_n0 key) h (key_q_r3 key) (key_q_one key) (key_dq key) e \<and>
         (\<exists>qi. q * qi mod p = 1 \<and> mont_rep (key_p key) (key_p_n0 key) h (key_qinv_m key) qi))"

definition rsa_key_wf :: "viltrum_rsa \<Rightarrow> bool" where
  "rsa_key_wf key \<longleftrightarrow> rsa_key_static key \<and> (\<exists>r ri. rsa_blinding key r ri)"

lemma rsa_half_exponent:
  "rsa_half_wf p n0 h r3 one d e \<Longrightarrow> x ^ (e * nat (le_val d)) mod le_val p = x mod le_val p"
  by (simp add: rsa_half_wf_def rsa_inverse_def)

text \<open>Garner's recombination: the joined value is \<open>s2\<close> modulo \<open>q\<close> and \<open>s1\<close> modulo \<open>p\<close>.\<close>

lemma garner:
  fixes s1 s2 p q qi :: int
  assumes "q * qi mod p = 1" and "1 < p"
  shows "(s2 + ((s1 - s2) mod p * qi mod p) * q) mod q = s2 mod q"
    and "(s2 + ((s1 - s2) mod p * qi mod p) * q) mod p = s1 mod p"
proof -
  show "(s2 + ((s1 - s2) mod p * qi mod p) * q) mod q = s2 mod q" by (rule mod_mult_self1)
  have "((s1 - s2) mod p * qi mod p) * q mod p = (s1 - s2) * (q * qi) mod p"
    by (simp add: mod_simps mult_ac)
  also have "\<dots> = (s1 - s2) * 1 mod p"
    using assms(1,2) by (intro mod_mult_eqI refl) simp
  finally have "(s2 + ((s1 - s2) mod p * qi mod p) * q) mod p = (s2 + (s1 - s2)) mod p"
    by (intro mod_add_eqI refl) simp
  then show "(s2 + ((s1 - s2) mod p * qi mod p) * q) mod p = s1 mod p" by simp
qed

text \<open>One prime's view of blinding, exponentiation and unblinding.\<close>

lemma unblind_mod:
  fixes m r ri y p :: int
  assumes "\<And>x. x ^ (e * d) mod p = x mod p" and "r * ri mod p = 1 mod p"
    and "y mod p = (m * r ^ e) ^ d mod p"
  shows "(y * ri) ^ e mod p = m mod p"
proof -
  have "(y * ri) ^ e mod p = ((m * r ^ e) ^ d) ^ e * ri ^ e mod p"
    unfolding power_mult_distrib [of y ri] by (intro mod_mult_eqI refl mod_power_eqI assms(3))
  also have "((m * r ^ e) ^ d) ^ e = (m * r ^ e) ^ (e * d)"
    by (simp add: power_mult [symmetric] mult.commute)
  also have "(m * r ^ e) ^ (e * d) * ri ^ e mod p = m * r ^ e * ri ^ e mod p"
    by (intro mod_mult_eqI refl assms(1))
  also have "m * r ^ e * ri ^ e = m * (r * ri) ^ e" by (simp add: power_mult_distrib)
  also have "\<dots> mod p = m * 1 ^ e mod p"
    by (intro mod_mult_eqI refl mod_power_eqI assms(2))
  finally show ?thesis by simp
qed

lemma rsa_blinding_sqr:
  assumes "rsa_blinding key r ri"
  defines "n \<equiv> key_n key" and "n0 \<equiv> key_n_n0 key" and "k \<equiv> key_limbs key"
  shows "rsa_blinding (key\<lparr>key_bl_vi := viltrum_mont_sqr (key_bl_vi key) n n0 k,
                           key_bl_vf := viltrum_mont_sqr (key_bl_vf key) n n0 k\<rparr>) (r * r) (ri * ri)"
proof -
  have b: "r * ri mod le_val n = 1" "mont_rep n n0 k (key_bl_vi key) (r ^ unat (key_e key))"
      "mont_rep n n0 k (key_bl_vf key) ri"
    using assms(1) by (simp_all add: rsa_blinding_def n_def n0_def k_def)
  have "(r * r) * (ri * ri) mod le_val n = (r * ri) * (r * ri) mod le_val n"
    by (simp only: mult_ac)
  also have "\<dots> = (r * ri mod le_val n) * (r * ri mod le_val n) mod le_val n"
    by (simp only: mod_mult_eq)
  also have "\<dots> = 1" using b(1) by (metis mod_mod_trivial mult_1)
  finally show ?thesis
    using mont.sqr [OF b(2)] mont.sqr [OF b(3)]
    by (simp add: rsa_blinding_def power_mult_distrib n_def n0_def k_def)
qed

lemma rsa_key_staticD:
  assumes "rsa_key_static key"
  defines "k \<equiv> key_limbs key" and "h \<equiv> key_limbs key div 2"
  shows "k = 2 * h" "length (key_n key) = k" "length (key_p key) = h" "length (key_q key) = h"
    "1 < le_val (key_p key)" "1 < le_val (key_q key)"
    "coprime (le_val (key_p key)) (le_val (key_q key))" "0 < unat (key_e key)"
    "le_val (key_p key) < mont_R h" "le_val (key_q key) < mont_R h" "le_val (key_n key) < mont_R k"
proof -
  show k: "k = 2 * h" using assms(1) by (simp add: rsa_key_static_def Let_def k_def h_def)
  show len: "length (key_n key) = k" "length (key_p key) = h" "length (key_q key) = h"
    using assms(1)
    by (simp_all add: rsa_key_static_def Let_def rsa_half_wf_def mont_rep_def mont_modulus_def k_def h_def)
  show "1 < le_val (key_p key)" "1 < le_val (key_q key)" "coprime (le_val (key_p key)) (le_val (key_q key))"
    using assms(1) by (simp_all add: rsa_key_static_def Let_def rsa_half_wf_def)
  show "0 < unat (key_e key)"
    using assms(1) by (simp add: rsa_key_static_def Let_def unat_gt_0)
  show "le_val (key_p key) < mont_R h" "le_val (key_q key) < mont_R h" "le_val (key_n key) < mont_R k"
    using le_val_less_R [OF len(2)] le_val_less_R [OF len(3)] le_val_less_R [OF len(1)] by simp_all
qed

lemma rsa_crt_value:
  assumes "rsa_key_static key" and "length x = key_limbs key" and "le_val x < le_val (key_n key)"
  defines "h \<equiv> key_limbs key div 2" and "p \<equiv> le_val (key_p key)" and "q \<equiv> le_val (key_q key)"
  defines "s1 \<equiv> rsa_crt_half x (key_dp key) (key_p key) (key_p_n0 key) (key_p_r3 key) (key_p_one key) h"
    and "s2 \<equiv> rsa_crt_half x (key_dq key) (key_q key) (key_q_n0 key) (key_q_r3 key) (key_q_one key) h"
  defines "t \<equiv> viltrum_mont_mul (rsa_crt_diff s1 s2 (key_p key)) (key_qinv_m key) (key_p key) (key_p_n0 key) h"
  defines "y \<equiv> rsa_crt_join s2 t (key_q key) h"
  shows "length y = key_limbs key"
    and "le_val y mod p = le_val x ^ nat (le_val (key_dp key)) mod p"
    and "le_val y mod q = le_val x ^ nat (le_val (key_dq key)) mod q"
proof -
  note D = rsa_key_staticD [OF assms(1), folded h_def p_def q_def]
  have n: "le_val (key_n key) = p * q" and q2: "q < 2 * p"
    and hp: "rsa_half_wf (key_p key) (key_p_n0 key) h (key_p_r3 key) (key_p_one key) (key_dp key) (unat (key_e key))"
    and hq: "rsa_half_wf (key_q key) (key_q_n0 key) h (key_q_r3 key) (key_q_one key) (key_dq key) (unat (key_e key))"
    using assms(1) by (simp_all add: rsa_key_static_def Let_def h_def p_def q_def)
  obtain qi where qi: "q * qi mod p = 1" "mont_rep (key_p key) (key_p_n0 key) h (key_qinv_m key) qi"
    using assms(1) by (auto simp: rsa_key_static_def Let_def h_def p_def q_def)
  have "p * q < p * mont_R h" "p * q < q * mont_R h" using D(5,6,9,10) by (simp_all add: mult.commute [of p q])
  then have xb: "le_val x < p * mont_R h" "le_val x < q * mont_R h" using assms(3) n by linarith+
  have x: "length x = 2 * h" using assms(2) D(1) by simp
  have s1: "length s1 = h" "le_val s1 = le_val x ^ nat (le_val (key_dp key)) mod p"
    unfolding s1_def p_def using hp x xb(1)
    by (auto simp: rsa_half_wf_def p_def intro!: rsa_crt_half_correct)
  have s2: "length s2 = h" "le_val s2 = le_val x ^ nat (le_val (key_dq key)) mod q"
    unfolding s2_def q_def using hq x xb(2)
    by (auto simp: rsa_half_wf_def q_def intro!: rsa_crt_half_correct)
  have lt: "le_val s1 < p" "le_val s2 < q" using s1(2) s2(2) D(5,6) by simp_all
  note d = rsa_crt_diff_correct [OF s1(1) s2(1) D(3), folded p_def]
  have dd: "length (rsa_crt_diff s1 s2 (key_p key)) = h"
    "le_val (rsa_crt_diff s1 s2 (key_p key)) = (le_val s1 - le_val s2) mod p"
    using d lt q2 by simp_all
  have t: "length t = h" "le_val t = (le_val s1 - le_val s2) mod p * qi mod p"
    using mont_mul_plain [OF dd(1) qi(2)] by (simp_all add: t_def dd(2) p_def)
  have "le_val t \<le> p - 1" using t(2) D(5) by (simp add: zle_diff1_eq)
  then have "le_val t * q \<le> (p - 1) * q" using D(6) by (intro mult_right_mono) simp_all
  then have "le_val s2 + le_val t * q < p * q" using lt(2) by (simp add: left_diff_distrib)
  then have "le_val s2 + le_val t * q < mont_R (2 * h)" using D(1,11) n by simp
  note j = rsa_crt_join_correct [OF s2(1) t(1) D(4) this [unfolded q_def], folded q_def y_def]
  show "length y = key_limbs key" using j(1) D(1) by simp
  note g = garner [OF qi(1) D(5), of "le_val s2" "le_val s1", folded t(2)]
  show "le_val y mod p = le_val x ^ nat (le_val (key_dp key)) mod p"
    unfolding j(2) g(2) s1(2) by simp
  show "le_val y mod q = le_val x ^ nat (le_val (key_dq key)) mod q"
    unfolding j(2) g(1) s2(2) by simp
qed

lemma rsa_root:
  assumes "rsa_key_static key"
  defines "n \<equiv> le_val (key_n key)" and "p \<equiv> le_val (key_p key)" and "q \<equiv> le_val (key_q key)"
    and "e \<equiv> unat (key_e key)"
  assumes "r * ri mod n = 1" and "z mod n = m * r ^ e mod n"
    and "y mod p = z ^ nat (le_val (key_dp key)) mod p" and "y mod q = z ^ nat (le_val (key_dq key)) mod q"
  shows "(y * ri) ^ e mod n = m mod n"
proof -
  note D = rsa_key_staticD [OF assms(1), folded p_def q_def e_def]
  have n: "n = p * q"
    and hp: "rsa_half_wf (key_p key) (key_p_n0 key) (key_limbs key div 2) (key_p_r3 key) (key_p_one key) (key_dp key) e"
    and hq: "rsa_half_wf (key_q key) (key_q_n0 key) (key_limbs key div 2) (key_q_r3 key) (key_q_one key) (key_dq key) e"
    using assms(1) by (simp_all add: rsa_key_static_def Let_def n_def p_def q_def e_def)
  have "1 < n" using D(5,6) by (simp add: n less_1_mult)
  then have r: "r * ri mod (p * q) = 1 mod (p * q)" using assms(6) n by simp
  have z: "z mod (p * q) = m * r ^ e mod (p * q)" using assms(7) n by simp
  have "(y * ri) ^ e mod p = m mod p"
    by (rule unblind_mod [OF rsa_half_exponent [OF hp, folded p_def] mod_factor(1) [OF r]])
      (simp only: assms(8) mod_power_eqI [OF mod_factor(1) [OF z]])
  moreover have "(y * ri) ^ e mod q = m mod q"
    by (rule unblind_mod [OF rsa_half_exponent [OF hq, folded q_def] mod_factor(2) [OF r]])
      (simp only: assms(9) mod_power_eqI [OF mod_factor(2) [OF z]])
  ultimately show ?thesis unfolding n by (rule crt_unique [OF D(7)])
qed

lemma rsa_sign_step_correct:
  assumes "rsa_key_static key" and "rsa_blinding key r ri" and "length m = key_limbs key"
    and "rsa_sign_step key m = (key', x)"
  shows "rsa_key_static key'" and "rsa_blinding key' (r * r) (ri * ri)"
    and "length x = key_limbs key" and "le_val x < le_val (key_n key)"
    and "le_val x ^ unat (key_e key) mod le_val (key_n key) = le_val m mod le_val (key_n key)"
proof -
  define k h n n0 e where "k = key_limbs key" and "h = k div 2" and "n = key_n key" and "n0 = key_n_n0 key"
    and "e = unat (key_e key)"
  define p q where "p = le_val (key_p key)" and "q = le_val (key_q key)"
  define bk where "bk = key\<lparr>key_bl_vi := viltrum_mont_sqr (key_bl_vi key) n n0 k,
                           key_bl_vf := viltrum_mont_sqr (key_bl_vf key) n n0 k\<rparr>"
  have bl: "rsa_blinding bk (r * r) (ri * ri)"
    using rsa_blinding_sqr [OF assms(2)] by (simp add: bk_def n_def n0_def k_def)
  have st: "rsa_key_static bk" using assms(1) by (simp add: bk_def rsa_key_static_def)
  have fields: "key_limbs bk = k" "key_n bk = n" "key_n_n0 bk = n0" "key_e bk = key_e key"
    "key_p bk = key_p key" "key_q bk = key_q key"
    by (simp_all add: bk_def k_def n_def n0_def)
  have n: "le_val n = p * q" using assms(1) by (simp add: rsa_key_static_def Let_def n_def p_def q_def)
  have rep: "(r * r) * (ri * ri) mod le_val n = 1" "mont_rep n n0 k (key_bl_vi bk) ((r * r) ^ e)"
    "mont_rep n n0 k (key_bl_vf bk) (ri * ri)"
    using bl by (simp_all add: rsa_blinding_def fields e_def)
  define z where "z = viltrum_mont_mul m (key_bl_vi bk) n n0 k"
  have z: "length z = k" "le_val z = le_val m * (r * r) ^ e mod le_val n"
    unfolding z_def using assms(3) rep(2) by (auto simp: k_def intro!: mont_mul_plain)
  have npos: "0 < le_val n" using rep(2) mont_modulus_pos by (auto simp: mont_rep_def)
  then have "le_val z < le_val n" by (simp add: z(2))
  define s2 where "s2 = rsa_crt_half z (key_dq bk) (key_q bk) (key_q_n0 bk) (key_q_r3 bk) (key_q_one bk) h"
  define y where "y = rsa_crt_join s2 (viltrum_mont_mul (rsa_crt_diff
    (rsa_crt_half z (key_dp bk) (key_p bk) (key_p_n0 bk) (key_p_r3 bk) (key_p_one bk) h) s2 (key_p bk))
      (key_qinv_m bk) (key_p bk) (key_p_n0 bk) h) (key_q bk) h"
  have crt: "length y = k" "le_val y mod p = le_val z ^ nat (le_val (key_dp bk)) mod p"
    "le_val y mod q = le_val z ^ nat (le_val (key_dq bk)) mod q"
    using rsa_crt_value [OF st, of z] z(1) \<open>le_val z < le_val n\<close>
    unfolding fields h_def [symmetric] y_def s2_def p_def q_def by simp_all
  have eq: "key' = bk" "x = viltrum_mont_mul y (key_bl_vf bk) n n0 k"
    using assms(4) unfolding rsa_sign_step_def Let_def k_def [symmetric] n_def [symmetric] n0_def [symmetric]
      bk_def [symmetric] z_def [symmetric] h_def [symmetric] s2_def [symmetric] y_def [symmetric]
    by auto
  have x: "length x = k" "le_val x = le_val y * (ri * ri) mod le_val n"
    unfolding eq(2) using mont_mul_plain [OF crt(1) rep(3)] by simp_all
  show "rsa_key_static key'" "rsa_blinding key' (r * r) (ri * ri)" "length x = key_limbs key"
    using st bl x(1) by (simp_all add: eq(1) k_def)
  show "le_val x < le_val (key_n key)" using x(2) npos by (simp add: n_def)
  have "le_val x ^ e mod le_val n = (le_val y * (ri * ri)) ^ e mod le_val n"
    unfolding x(2) by (rule power_mod)
  also have "\<dots> = le_val m mod le_val n"
    using rsa_root [OF st, of "r * r" "ri * ri" "le_val z" "le_val m" "le_val y"] rep(1) z(2) crt(2,3)
    unfolding fields e_def p_def q_def by (simp only: mod_mod_trivial)
  finally show "le_val x ^ unat (key_e key) mod le_val (key_n key) = le_val m mod le_val (key_n key)"
    by (simp only: e_def n_def)
qed

lemma sub_loop_borrow:
  fixes m n :: "u64 list"
  assumes "length m = k" and "length n = k" and "sub_loop m n 0 = (d, b)"
  shows "b = 0 \<longleftrightarrow> le_val n \<le> le_val m"
proof -
  note d = sub_loop_R [OF assms]
  have R: "0 \<le> le_val d" "le_val d < mont_R k" using le_val_less_R [OF d(1)] by simp_all
  consider "b = 0" | "b = 1" using word_bit_cases [OF d(2)] by blast
  then show ?thesis using d(3) R by cases simp_all
qed

lemma private_range:
  assumes "length (key_n key) = key_limbs key" and "length inp = 8 * key_limbs key"
  shows "snd (sub_loop (limbs_of_be (key_limbs key) inp) (key_n key) 0) = 0 \<longleftrightarrow> le_val (key_n key) \<le> be_val inp"
  using sub_loop_borrow [OF length_limbs_of_be assms(1)] le_val_limbs_of_be [OF assms(2)]
  by (metis prod.collapse)

lemma viltrum_rsa_private_correct:
  assumes "rsa_key_wf key" and "length inp = 8 * key_limbs key" and "be_val inp < le_val (key_n key)"
  shows "\<exists>out key'. viltrum_rsa_private key inp = Some (0, Some out, key') \<and> rsa_key_wf key' \<and>
    length out = 8 * key_limbs key \<and> be_val out < le_val (key_n key) \<and>
    be_val out ^ unat (key_e key) mod le_val (key_n key) = be_val inp"
proof -
  obtain r ri where st: "rsa_key_static key" and bl: "rsa_blinding key r ri"
    using assms(1) by (auto simp: rsa_key_wf_def)
  define m where "m = limbs_of_be (key_limbs key) inp"
  have m: "length m = key_limbs key" "le_val m = be_val inp"
    using le_val_limbs_of_be [OF assms(2)] by (simp_all add: m_def)
  obtain key' x where s: "rsa_sign_step key m = (key', x)" by (cases "rsa_sign_step key m")
  note S = rsa_sign_step_correct [OF st bl m(1) s]
  have same: "key_limbs key' = key_limbs key" "key_n key' = key_n key" "key_e key' = key_e key"
    using s by (auto simp: rsa_sign_step_def Let_def)
  have root: "le_val x ^ unat (key_e key) mod le_val (key_n key) = le_val m"
    using S(5) assms(3) m(2) by (metis be_val_def le_val_nonneg mod_pos_pos_trivial)
  have "rsa_public_check key' x m = Some (le_val x ^ unat (key_e key') mod le_val (key_n key') = le_val m)"
    using S(1,3) m(1) by (intro rsa_public_check_correct) (simp_all add: same rsa_key_static_def Let_def)
  then have check: "rsa_public_check key' x m = Some True" by (simp only: same root simp_thms)
  have "snd (sub_loop m (key_n key) 0) \<noteq> 0"
    using private_range [OF rsa_key_staticD(2) [OF st] assms(2)] assms(3) by (simp add: m_def)
  then have "viltrum_rsa_private key inp = Some (0, Some (limbs_to_be x), key')"
    unfolding viltrum_rsa_private_def Let_def m_def [symmetric] by (simp add: s check case_prod_beta)
  then show ?thesis
    using S root m(2) by (auto simp: rsa_key_wf_def be_val_limbs_to_be)
qed

section \<open>Faults\<close>

text \<open>
  Whatever the numbers in the two halves are, the code produces words of the right number of
  limbs, so the public check sees every fault.
\<close>

lemma length_sub_loop: "length t = length m \<Longrightarrow> length (fst (sub_loop t m b)) = length t"
  by (induction t m arbitrary: b rule: list_induct2) (simp_all add: Let_def split: prod.splits, metis fst_conv)

lemma length_add_loop: "length a = length b \<Longrightarrow> length (fst (add_loop a b c)) = length a"
  by (induction a b arbitrary: c rule: list_induct2) (simp_all add: Let_def split: prod.splits, metis fst_conv)

lemma length_muladd_loop: "length m = length t \<Longrightarrow> length (fst (muladd_loop x m t c)) = length t"
  by (induction m t arbitrary: c rule: list_induct2) (simp_all add: Let_def split: prod.splits, metis fst_conv)

lemma length_mont_final: "length t = k \<Longrightarrow> length m = k \<Longrightarrow> length (mont_final t hi m) = k"
  using length_sub_loop [of t m 0] by (simp add: mont_final_def select_limbs_def Let_def case_prod_beta)

lemma length_mont_columns:
  "length (fst (snd (fold (mont_column k sq a b m n0) [0..<n] ([], [], c)))) = n - k"
proof (induction n)
  case (Suc n)
  then show ?case
    by (cases "fold (mont_column k sq a b m n0) [0..<n] ([], [], c)") (auto simp: Let_def Suc_diff_le)
qed simp

lemma length_viltrum_mont_mul:
  assumes "length m = k" and "0 < k"
  shows "length (viltrum_mont_mul a b m n0 k) = k"
proof -
  obtain u t c where s: "fold (mont_column k False a b m n0) [0..<2 * k - 1] ([], [], (0, 0, 0)) = (u, t, c)"
    by (rule prod_cases3)
  have "length t = 2 * k - 1 - k"
    using length_mont_columns [where n = "2 * k - 1" and c = "(0, 0, 0)"] s by (metis fst_conv snd_conv)
  then have "length (t @ [fst c]) = k" using assms(2) by simp
  then show ?thesis
    unfolding viltrum_mont_mul_eq viltrum_mont_k_def s Let_def prod.case using assms(1) by (rule length_mont_final)
qed

lemma length_mul_row:
  assumes "length q = h" and "i < h" and "length x = 2 * h"
  shows "length (mul_row t q h i x) = 2 * h"
proof -
  have "length (fst (muladd_loop (t ! i) q (take h (drop i x)) 0)) = h"
    using assms by (subst length_muladd_loop) simp_all
  then show ?thesis using assms by (simp add: mul_row_def case_prod_beta)
qed

lemma length_mul_rows:
  "length q = h \<Longrightarrow> n \<le> h \<Longrightarrow> length (fold (mul_row t q h) [0..<n] (replicate (2 * h) 0)) = 2 * h"
  by (induction n) (simp_all add: length_mul_row)

lemma length_rsa_crt_join:
  "length s2 = h \<Longrightarrow> length q = h \<Longrightarrow> length (rsa_crt_join s2 t q h) = 2 * h"
  unfolding rsa_crt_join_def Let_def
  by (subst length_add_loop) (simp_all add: length_mul_rows)

lemma length_rsa_crt_half: "length p = h \<Longrightarrow> 0 < h \<Longrightarrow> length (rsa_crt_half x d p n0 r3 one h) = h"
  by (simp add: rsa_crt_half_def Let_def length_viltrum_mont_mul)

lemma rsa_sign_step_length:
  assumes "key_limbs key = 2 * h" and "0 < h" and "length (key_n key) = 2 * h" and "length (key_q key) = h"
    and "rsa_sign_step key m = (key', x)"
  shows "length x = key_limbs key"
    and "key_limbs key' = key_limbs key" "key_n key' = key_n key" "key_e key' = key_e key"
      "key_n_n0 key' = key_n_n0 key" "key_n_r2 key' = key_n_r2 key"
  using assms by (auto simp: rsa_sign_step_def Let_def intro!: length_viltrum_mont_mul)

lemma rsa_root_unique:
  assumes "x ^ e mod n = m" and "rsa_inverse e d n"
  shows "x mod n = m ^ d mod n"
  using assms unfolding rsa_inverse_def by (metis power_mod power_mult)

section \<open>Properties of the private operation\<close>

text \<open>A small key for the witnesses: \<open>n = 35 = 5 * 7\<close>, \<open>e = 5\<close>, two limbs, blinding with \<open>r = 2\<close>.\<close>

definition small_key :: viltrum_rsa where
  "small_key = \<lparr>key_limbs = 2,
    key_bits = 6,
    key_e = 5,
    key_n = [35, 0],
    key_n_n0 = 5797548137451573365,
    key_n_r2 = [16, 0],
    key_n_one = [11, 0],
    key_p = [5],
    key_q = [7],
    key_dp = [1],
    key_dq = [5],
    key_p_n0 = 3689348814741910323,
    key_q_n0 = 10540996613548315209,
    key_p_r3 = [1],
    key_q_r3 = [1],
    key_p_one = [1],
    key_q_one = [2],
    key_qinv_m = [3],
    key_bl_vi = [2, 0],
    key_bl_vf = [23, 0],
    key_ok = True\<rparr>"

lemma rsa_primeI:
  assumes "1 < p" and "\<forall>d\<in>set [2..p - 1]. \<not> d dvd p"
  shows "rsa_prime p"
proof -
  have "d = 1 \<or> d = p" if "0 < d" "d dvd p" for d
  proof (rule ccontr)
    assume "\<not> (d = 1 \<or> d = p)"
    then have "d \<in> set [2..p - 1]" using that zdvd_imp_le [of d p] assms(1) by auto
    then show False using assms(2) that(2) by blast
  qed
  then show ?thesis using assms(1) by (simp add: rsa_prime_def)
qed

lemma small_primes: "rsa_prime 5" "rsa_prime 7"
  by (simp_all add: rsa_primeI upto.simps)

lemma small_inverse: "rsa_inverse 5 1 5" "rsa_inverse 5 5 7" "rsa_inverse 5 5 35"
proof -
  have "rsa_inverse 5 5 5" using small_primes(1) by (intro rsa_inverse_prime) simp_all
  moreover show "rsa_inverse 5 5 7" using small_primes(2) by (intro rsa_inverse_prime) simp_all
  moreover have "coprime (5::int) 7" using rsa_primes_coprime [OF small_primes] by simp
  ultimately show "rsa_inverse 5 5 35" using rsa_inverse_mult [of 5 7 5 5] by simp
  show "rsa_inverse 5 1 5" using small_primes(1) by (intro rsa_inverse_prime) simp_all
qed

lemma small_key_half:
  "rsa_half_wf [5] 3689348814741910323 1 [1] [1] [1] 5"
  "rsa_half_wf [7] 10540996613548315209 1 [1] [2] [5] 5"
  using small_inverse by (simp_all add: rsa_half_wf_def mont_rep_def mont_modulus_def mont_R_def)

lemma small_key_wf: "rsa_key_wf small_key"
proof -
  have "rsa_key_static small_key"
    using small_key_half rsa_primes_coprime [OF small_primes]
    by (simp add: rsa_key_static_def small_key_def mont_rep_def mont_modulus_def mont_R_def exI [of _ 3])
  moreover have "rsa_blinding small_key 2 18"
    by (simp add: rsa_blinding_def small_key_def mont_rep_def mont_modulus_def mont_R_def)
  ultimately show ?thesis by (auto simp: rsa_key_wf_def)
qed

text \<open>
  C4. For a well-formed key and an input below the modulus, \<^verbatim>\<open>viltrum_rsa_private\<close> succeeds; the
  output is \<open>in ^ d mod n\<close> for every \<open>d\<close> that inverts the public exponent modulo \<open>n\<close>, its \<open>e\<close>-th power is the input,
  and the key with its new blinding pair is well-formed again, so the next signature works too.
\<close>

theorem rsa_private_signs:
  assumes "rsa_key_wf key" and "length inp = 8 * key_limbs key" and "be_val inp < le_val (key_n key)"
    and "rsa_inverse (unat (key_e key)) d (le_val (key_n key))"
  shows "\<exists>out key'. viltrum_rsa_private key inp = Some (0, Some out, key') \<and> rsa_key_wf key' \<and>
    length out = 8 * key_limbs key \<and> be_val out = be_val inp ^ d mod le_val (key_n key) \<and>
    be_val out ^ unat (key_e key) mod le_val (key_n key) = be_val inp"
proof -
  obtain out key' where out: "viltrum_rsa_private key inp = Some (0, Some out, key')" "rsa_key_wf key'"
    "length out = 8 * key_limbs key" "be_val out < le_val (key_n key)"
    "be_val out ^ unat (key_e key) mod le_val (key_n key) = be_val inp"
    using viltrum_rsa_private_correct [OF assms(1-3)] by blast
  have "be_val out = be_val inp ^ d mod le_val (key_n key)"
    using rsa_root_unique [OF out(5) assms(4)] out(4) by (simp add: be_val_def)
  then show ?thesis using out by blast
qed

theorem rsa_private_signs_witness:
  "\<exists>out key'. viltrum_rsa_private small_key (replicate 15 0 @ [3]) = Some (0, Some out, key') \<and> rsa_key_wf key' \<and>
    length out = 16 \<and> be_val out = 3 ^ 5 mod 35 \<and> be_val out ^ 5 mod 35 = 3"
  using rsa_private_signs [of small_key "replicate 15 0 @ [3]" 5] small_key_wf small_inverse(3)
  by (simp add: small_key_def be_val_def)

text \<open>
  C5. The check that guards the output. Whatever the CRT halves, the blinding pair and the
  Montgomery constants of the primes contain (a fault may have changed any of them), if
  \<^verbatim>\<open>viltrum_rsa_private\<close> returns 0 then what it wrote raised to the public exponent is the input.
\<close>

theorem rsa_private_released_only_if_valid:
  assumes "key_limbs key = 2 * h" and "length (key_q key) = h" and "key_e key \<noteq> 0"
    and "mont_rep (key_n key) (key_n_n0 key) (key_limbs key) (key_n_r2 key) (mont_R (key_limbs key))"
    and "length inp = 8 * key_limbs key" and "viltrum_rsa_private key inp = Some (0, out, key')"
  shows "be_val inp < le_val (key_n key) \<and>
    (\<exists>s. out = Some s \<and> length s = 8 * key_limbs key \<and>
      be_val s ^ unat (key_e key) mod le_val (key_n key) = be_val inp)"
proof -
  define m where "m = limbs_of_be (key_limbs key) inp"
  have m: "length m = key_limbs key" "le_val m = be_val inp"
    using le_val_limbs_of_be [OF assms(5)] by (simp_all add: m_def)
  have n: "length (key_n key) = key_limbs key" "0 < h"
    using assms(1,4) by (simp_all add: mont_rep_def mont_modulus_def)
  obtain k2 x where s: "rsa_sign_step key m = (k2, x)" by (cases "rsa_sign_step key m")
  note L = rsa_sign_step_length [OF assms(1) n(2) n(1) [unfolded assms(1)] assms(2) s]
  have check: "rsa_public_check k2 x m = Some (le_val x ^ unat (key_e key) mod le_val (key_n key) = le_val m)"
    using rsa_public_check_correct [of k2 x m] assms(3,4) L m(1) by simp
  have run: "snd (sub_loop m (key_n key) 0) \<noteq> 0 \<and> le_val x ^ unat (key_e key) mod le_val (key_n key) = le_val m \<and>
      out = Some (limbs_to_be x)"
    using assms(6) check
    unfolding viltrum_rsa_private_def Let_def m_def [symmetric]
    by (simp add: s case_prod_beta split: if_splits option.splits bool.splits)
  then show ?thesis
    using private_range [OF n(1) assms(5)] L(1) m(2) by (auto simp: m_def be_val_limbs_to_be)
qed

theorem rsa_private_released_only_if_valid_witness:
  "\<exists>out key'. viltrum_rsa_private small_key (replicate 15 0 @ [3]) = Some (0, out, key') \<and>
    be_val (replicate 15 0 @ [3] :: u8 list) < 35 \<and>
    (\<exists>s. out = Some s \<and> length s = 16 \<and> be_val s ^ 5 mod 35 = 3)"
proof -
  obtain out key' where "viltrum_rsa_private small_key (replicate 15 0 @ [3]) = Some (0, Some out, key')"
    using viltrum_rsa_private_correct [OF small_key_wf, of "replicate 15 0 @ [3]"]
    by (auto simp: small_key_def be_val_def)
  moreover from this have "be_val (replicate 15 0 @ [3] :: u8 list) < 35 \<and>
    (\<exists>s. Some out = Some s \<and> length s = 16 \<and> be_val s ^ 5 mod 35 = 3)"
    using rsa_private_released_only_if_valid [of small_key 1 "replicate 15 0 @ [3]" "Some out" key']
    by (simp add: small_key_def be_val_def mont_rep_def mont_modulus_def mont_R_def)
  ultimately show ?thesis by blast
qed

text \<open>
  An input that is not below the modulus is refused: -1, nothing written, key unchanged.
\<close>

theorem rsa_private_refuses_large_input:
  assumes "length (key_n key) = key_limbs key" and "length inp = 8 * key_limbs key"
    and "le_val (key_n key) \<le> be_val inp"
  shows "viltrum_rsa_private key inp = Some (- 1, None, key)"
  using private_range [OF assms(1,2)] assms(3)
  by (simp add: viltrum_rsa_private_def Let_def case_prod_beta)

theorem rsa_private_refuses_large_input_witness:
  "viltrum_rsa_private small_key (replicate 15 0 @ [35]) = Some (- 1, None, small_key)"
  using rsa_private_refuses_large_input [of small_key "replicate 15 0 @ [35]"]
  by (simp add: small_key_def be_val_def)

text \<open>
  \<^verbatim>\<open>viltrum_rsa_n0\<close>: six Newton steps give \<open>- m0\<^sup>-\<^sup>1\<close> modulo \<open>2\<^sup>6\<^sup>4\<close> for every odd word.
\<close>

theorem rsa_n0_correct:
  assumes "odd (uint m0)"
  shows "(uint m0 * uint (viltrum_rsa_n0 m0) + 1) mod 2 ^ 64 = 0"
  by (rule viltrum_rsa_n0_correct [OF assms])

theorem rsa_n0_correct_witness: "(35 * uint (viltrum_rsa_n0 35) + 1) mod 2 ^ 64 = 0"
  using rsa_n0_correct [of 35] by simp

end
