(* ===== verification/DemoKey.thy ===== *)
theory DemoKey
  imports Fermat
begin

text \<open>
  A concrete RSA key of 1024 bits for the witnesses. Its two factors are products of small primes
  \<open>r\<close> for which \<open>r - 1\<close> divides one smooth number \<open>demo_l\<close>, so that one exponent pair inverts modulo
  all of them; this makes the key equation checkable by evaluation on small numbers.
\<close>

section \<open>The numbers\<close>

text \<open>A prime is given by the exponents of 2, 3, 5, 7, 11 and 13 in \<open>r - 1\<close>.\<close>

fun smooth :: "int list \<Rightarrow> nat list \<Rightarrow> int" where
  "smooth (b # bs) (e # es) = b ^ e * smooth bs es"
| "smooth _ _ = 1"

definition smooth_base :: "int list" where
  "smooth_base = [2, 3, 5, 7, 11, 13]"

definition prime_of :: "nat list \<Rightarrow> int" where
  "prime_of es = 1 + smooth smooth_base es"

definition demo_ps :: "nat list list" where
  "demo_ps = [[3, 0, 1, 0, 0, 0], [2, 1, 1, 0, 0, 0], [3, 0, 0, 0, 1, 0], [5, 1, 0, 0, 0, 0], [2, 0, 2, 0, 0, 0],
     [4, 0, 0, 1, 0, 0], [1, 0, 1, 0, 0, 1], [1, 1, 2, 0, 0, 0], [2, 1, 0, 0, 0, 1],
     [1, 4, 0, 0, 0, 0], [2, 2, 1, 0, 0, 0], [1, 1, 1, 1, 0, 0], [1, 3, 1, 0, 0, 0],
     [3, 1, 0, 0, 0, 1], [5, 0, 0, 0, 1, 0], [2, 2, 0, 0, 1, 0], [4, 3, 0, 0, 0, 0],
     [6, 0, 0, 1, 0, 0], [1, 1, 0, 1, 1, 0], [1, 0, 1, 2, 0, 0], [1, 1, 0, 1, 0, 1],
     [1, 2, 1, 1, 0, 0], [7, 0, 1, 0, 0, 0], [2, 1, 1, 0, 1, 0], [2, 0, 0, 0, 0, 2],
     [1, 1, 3, 0, 0, 0], [8, 1, 0, 0, 0, 0], [1, 4, 1, 0, 0, 0], [1, 1, 0, 0, 1, 1],
     [4, 0, 1, 0, 1, 0], [3, 2, 0, 0, 0, 1], [1, 2, 1, 0, 0, 1], [2, 0, 2, 0, 0, 1],
     [7, 0, 0, 0, 1, 0], [2, 1, 0, 0, 2, 0], [1, 6, 0, 0, 0, 0], [6, 0, 2, 0, 0, 0],
     [2, 1, 0, 0, 0, 2], [5, 0, 1, 0, 0, 1], [6, 1, 0, 0, 1, 0], [4, 3, 1, 0, 0, 0],
     [2, 2, 1, 0, 0, 1], [3, 3, 0, 0, 1, 0], [2, 0, 0, 2, 0, 1], [5, 4, 0, 0, 0, 0],
     [1, 0, 0, 0, 3, 0], [7, 1, 0, 1, 0, 0], [1, 1, 1, 1, 0, 1], [2, 0, 1, 0, 1, 1],
     [5, 2, 0, 0, 1, 0], [1, 0, 3, 0, 0, 1], [2, 1, 2, 0, 1, 0], [5, 1, 1, 1, 0, 0],
     [4, 1, 0, 1, 1, 0]]"

definition demo_qs :: "nat list list" where
  "demo_qs = [[2, 0, 0, 1, 0, 0], [1, 1, 1, 0, 0, 0], [1, 1, 0, 1, 0, 0], [2, 0, 0, 0, 0, 1], [1, 1, 0, 0, 1, 0],
     [1, 0, 1, 1, 0, 0], [3, 2, 0, 0, 0, 0], [1, 1, 0, 0, 0, 1], [2, 3, 0, 0, 0, 0],
     [6, 1, 0, 0, 0, 0], [2, 0, 0, 2, 0, 0], [4, 1, 1, 0, 0, 0], [1, 0, 3, 0, 0, 0],
     [8, 0, 0, 0, 0, 0], [3, 0, 1, 1, 0, 0], [1, 1, 1, 0, 1, 0], [4, 1, 0, 1, 0, 0],
     [1, 3, 0, 1, 0, 0], [2, 1, 1, 1, 0, 0], [1, 5, 0, 0, 0, 0], [6, 2, 0, 0, 0, 0],
     [3, 1, 2, 0, 0, 0], [3, 0, 0, 1, 1, 0], [1, 1, 0, 0, 2, 0], [1, 2, 0, 2, 0, 0],
     [1, 2, 1, 0, 1, 0], [1, 1, 2, 1, 0, 0], [2, 1, 0, 1, 0, 1], [7, 2, 0, 0, 0, 0],
     [4, 1, 2, 0, 0, 0], [4, 4, 0, 0, 0, 0], [2, 0, 0, 3, 0, 0], [1, 4, 0, 0, 1, 0],
     [3, 2, 2, 0, 0, 0], [4, 2, 0, 0, 0, 1], [1, 1, 2, 0, 0, 1], [1, 0, 0, 1, 1, 1],
     [5, 2, 0, 1, 0, 0], [1, 2, 3, 0, 0, 0], [2, 4, 0, 1, 0, 0], [1, 1, 1, 1, 1, 0],
     [1, 3, 0, 2, 0, 0], [4, 0, 2, 1, 0, 0], [3, 1, 3, 0, 0, 0], [4, 1, 1, 0, 0, 1],
     [8, 0, 0, 0, 0, 1], [2, 0, 0, 1, 2, 0], [3, 1, 0, 0, 1, 1], [1, 3, 1, 0, 0, 1],
     [3, 2, 0, 2, 0, 0], [1, 1, 1, 0, 2, 0], [1, 0, 0, 0, 1, 2], [1, 0, 2, 1, 1, 0],
     [4, 5, 0, 0, 0, 0]]"

definition demo_top :: "nat list" where
  "demo_top = [8, 6, 3, 3, 3, 2]"

definition demo_l :: int where
  "demo_l = smooth smooth_base demo_top"

definition demo_p :: int where
  "demo_p = 10052659271891015828196168968580048733486101202233907670934912815922232103597133873441951042555003770523064517633631482185887605181292763550875671357129379"

definition demo_q :: int where
  "demo_q = 12825511400680152801486308871166051458443615167109404900950422255741337374621089397094863630496329048692706914617296707269991876827466564610526688235918483"

definition demo_d :: nat where
  "demo_d = 56985968073473"

definition demo_qinv :: int where
  "demo_qinv = 3875290477056880823769984179875948133594955413456304304481607926103729480370135654127376032784795478997414294202606760505634732121845330246709094045380497"

section \<open>Small primes by trial division\<close>

definition small_divisors :: "int list" where
  "small_divisors = [2, 3, 5, 7, 11, 13, 17, 19, 23, 29, 31, 37, 41, 43, 47, 53, 59, 61]"

definition trial :: "int \<Rightarrow> bool" where
  "trial r \<longleftrightarrow> 1 < r \<and> r < 3969 \<and> list_all (\<lambda>d. r mod d \<noteq> 0 \<or> r = d) small_divisors"

lemma small_divisors_enough: "2 \<le> d \<Longrightarrow> d \<le> 62 \<Longrightarrow> \<exists>q\<in>set small_divisors. q dvd d"
proof -
  assume "2 \<le> d" "d \<le> 62"
  then have "d \<in> set [2..62]" by (simp only: set_upto atLeastAtMost_iff simp_thms)
  moreover have "list_all (\<lambda>d. list_ex (\<lambda>q. d mod q = 0) small_divisors) [2..62]"
    by (simp add: upto.simps small_divisors_def)
  ultimately show ?thesis by (auto simp only: list_all_iff list_ex_iff dvd_eq_mod_eq_0)
qed

lemma trial_prime: "trial r \<Longrightarrow> rsa_prime r"
proof -
  assume t: "trial r"
  then have r: "1 < r" "r < 3969" by (simp_all add: trial_def)
  have nd: "\<not> d dvd r" if d: "2 \<le> d" "d \<le> 62" "d < r" for d
  proof
    assume "d dvd r"
    obtain q where q: "q \<in> set small_divisors" "q dvd d" using small_divisors_enough d(1,2) by blast
    then have "r = q" using t \<open>d dvd r\<close> dvd_trans [of q d r] by (auto simp: trial_def list_all_iff dvd_eq_mod_eq_0)
    then show False using q(2) d zdvd_imp_le [of q d] by simp
  qed
  have "d = 1 \<or> d = r" if "0 < d" "d dvd r" for d
  proof (rule ccontr)
    assume no: "\<not> (d = 1 \<or> d = r)"
    obtain c where c: "r = d * c" using \<open>d dvd r\<close> by (rule dvdE)
    have d: "2 \<le> d" "d < r" using no that r zdvd_imp_le [of d r] by auto
    then have "0 < c" "c \<noteq> 1" using c r by (auto simp: zero_less_mult_iff)
    then have c2: "2 \<le> c" "c < r" "c dvd r" using c d by auto
    have "63 \<le> d" "63 \<le> c" using nd [of d] nd [of c] d \<open>d dvd r\<close> c2 by force+
    then have "63 * 63 \<le> r" unfolding c by (intro mult_mono) simp_all
    then show False using r by simp
  qed
  then show ?thesis using r by (simp add: rsa_prime_def)
qed

lemma smooth_dvd: "list_all2 (\<le>) es fs \<Longrightarrow> smooth bs es dvd smooth bs fs"
proof (induction es fs arbitrary: bs rule: list_all2_induct)
  case (Cons x xs y ys)
  then show ?case by (cases bs) (simp_all add: mult_dvd_mono le_imp_power_dvd)
qed simp

section \<open>The key equation\<close>

definition demo_prime :: "nat list \<Rightarrow> bool" where
  "demo_prime es \<longleftrightarrow> trial (prime_of es) \<and> list_all2 (\<le>) es demo_top"

lemma demo_ed: "65537 * int demo_d = 1 + demo_l * 2075"
  by (simp add: demo_d_def demo_l_def smooth_base_def demo_top_def)

lemma demo_prime_inverse: "demo_prime es \<Longrightarrow> rsa_inverse 65537 demo_d (prime_of es)"
proof (rule rsa_inverse_prime)
  assume t: "demo_prime es"
  then have tr: "trial (prime_of es)" by (simp add: demo_prime_def)
  show "rsa_prime (prime_of es)" by (rule trial_prime [OF tr])
  have r: "1 < prime_of es" using tr by (simp add: trial_def)
  have dv: "(prime_of es - 1) dvd demo_l"
    using t smooth_dvd [of es demo_top smooth_base] by (simp add: demo_prime_def prime_of_def demo_l_def)
  then have "65537 * int demo_d mod (prime_of es - 1) = 1 mod (prime_of es - 1)"
    unfolding demo_ed by (metis dvd_mult2 mod_add_right_eq add.right_neutral dvd_imp_mod_0)
  then have "int (65537 * demo_d mod nat (prime_of es - 1)) = int (1 mod nat (prime_of es - 1))"
    using r by (simp only: zmod_int of_nat_mult of_nat_numeral of_nat_1) simp
  then show "65537 * demo_d mod nat (prime_of es - 1) = 1 mod nat (prime_of es - 1)"
    by (simp only: of_nat_eq_iff)
  show "0 < 65537 * demo_d" by (simp add: demo_d_def)
qed

lemma demo_inverse_list:
  "list_all demo_prime rs \<Longrightarrow> distinct (map prime_of rs) \<Longrightarrow> rsa_inverse 65537 demo_d (prod_list (map prime_of rs))"
proof (induction rs)
  case Nil
  then show ?case by (simp add: rsa_inverse_def)
next
  case (Cons r rs)
  have "coprime (prime_of r) (prod_list (map prime_of qs))"
    if "list_all demo_prime qs" "prime_of r \<notin> set (map prime_of qs)" for qs
    using that
    by (induction qs) (use Cons.prems in
      \<open>auto simp: coprime_mult_right_iff demo_prime_def intro: rsa_primes_coprime trial_prime\<close>)
  then show ?case using Cons demo_prime_inverse by (simp add: rsa_inverse_mult)
qed

lemma demo_ps_prime: "list_all demo_prime demo_ps"
  by (simp add: demo_ps_def demo_prime_def trial_def prime_of_def smooth_base_def small_divisors_def demo_top_def)

lemma demo_qs_prime: "list_all demo_prime demo_qs"
  by (simp add: demo_qs_def demo_prime_def trial_def prime_of_def smooth_base_def small_divisors_def demo_top_def)

lemma demo_distinct: "distinct (map prime_of demo_ps)" "distinct (map prime_of demo_qs)"
  by (simp_all add: demo_ps_def demo_qs_def prime_of_def smooth_base_def)

lemma demo_product: "prod_list (map prime_of demo_ps) = demo_p" "prod_list (map prime_of demo_qs) = demo_q"
  by (simp_all add: demo_ps_def demo_qs_def demo_p_def demo_q_def prime_of_def smooth_base_def)

lemma demo_inverse: "rsa_inverse 65537 demo_d demo_p" "rsa_inverse 65537 demo_d demo_q"
  using demo_inverse_list [OF demo_ps_prime demo_distinct(1)] demo_inverse_list [OF demo_qs_prime demo_distinct(2)]
  by (simp_all add: demo_product)

definition demo_cofactor :: int where
  "demo_cofactor = 4944222304780320132325209757126662604721928990490049717716699026371701892762718253201264026756005513306332306408936272310097916013792674739733928492404950"

lemma demo_qinv: "demo_q * demo_qinv = 1 + demo_cofactor * demo_p"
  by (simp add: demo_p_def demo_q_def demo_qinv_def demo_cofactor_def)

lemma demo_qinv_mod: "demo_q * demo_qinv mod demo_p = 1"
proof -
  have "1 < demo_p" by (simp add: demo_p_def)
  then show ?thesis unfolding demo_qinv by simp
qed

lemma demo_coprime: "coprime demo_p demo_q"
proof (rule coprimeI)
  fix c
  assume "c dvd demo_p" "c dvd demo_q"
  then have "c dvd demo_q * demo_qinv" "c dvd demo_cofactor * demo_p" by simp_all
  then show "is_unit c" unfolding demo_qinv by (simp only: dvd_add_left_iff)
qed

lemma demo_range: "2 ^ 511 \<le> demo_p" "demo_p < 2 ^ 512" "2 ^ 511 \<le> demo_q" "demo_q < 2 ^ 512"
    "2 ^ 1023 \<le> demo_p * demo_q" "demo_p * demo_q < 2 ^ 1024" "odd demo_p" "odd demo_q"
  by (simp_all add: demo_p_def demo_q_def)

end
