(* ===== verification/RsaLoad.thy ===== *)
theory RsaLoad
  imports Rsa DemoKey "HOL-Library.Monad_Syntax"
begin

unbundle bit_operations_syntax

text \<open>
  Loading a private key (\<^verbatim>\<open>viltrum_rsa_load\<close> of \<^verbatim>\<open>src/engine/rsa.h\<close>). The bignum arithmetic, the
  random generator and the parsed key are mbedtls' and come in as one record of functions; a
  failing library call is \<open>None\<close>. The search for a blinding value may in principle never end, so
  it is a partial function whose \<open>None\<close> is non-termination.
\<close>

section \<open>The library\<close>

record ('mpi, 'pk, 'rng) mbedtls =
  mpi_write_binary :: "'mpi \<Rightarrow> nat \<Rightarrow> u8 list option"
  mpi_lset :: "int \<Rightarrow> 'mpi option"
  mpi_shift_l :: "'mpi \<Rightarrow> nat \<Rightarrow> 'mpi option"
  mpi_mul_mpi :: "'mpi \<Rightarrow> 'mpi \<Rightarrow> 'mpi option"
  mpi_mod_mpi :: "'mpi \<Rightarrow> 'mpi \<Rightarrow> 'mpi option"
  mpi_bitlen :: "'mpi \<Rightarrow> nat"
  mpi_cmp_int :: "'mpi \<Rightarrow> int \<Rightarrow> int"
  mpi_inv_mod :: "'mpi \<Rightarrow> 'mpi \<Rightarrow> 'mpi option"
  mpi_exp_mod :: "'mpi \<Rightarrow> 'mpi \<Rightarrow> 'mpi \<Rightarrow> 'mpi option"
  mpi_fill_random :: "nat \<Rightarrow> 'rng \<Rightarrow> 'mpi option \<times> 'rng"
  pk_is_rsa :: "'pk \<Rightarrow> bool"
  rsa_export :: "'pk \<Rightarrow> ('mpi \<times> 'mpi \<times> 'mpi \<times> 'mpi \<times> 'mpi) option"
  rsa_export_crt :: "'pk \<Rightarrow> ('mpi \<times> 'mpi \<times> 'mpi) option"

section \<open>Operations\<close>

definition VILTRUM_RSA_MAX_LIMBS :: nat where
  "VILTRUM_RSA_MAX_LIMBS = 64"

definition rsa_zero :: viltrum_rsa where
  "rsa_zero = \<lparr>key_limbs = 0, key_bits = 0, key_e = 0, key_n = [], key_n_n0 = 0, key_n_r2 = [], key_n_one = [],
    key_p = [], key_q = [], key_dp = [], key_dq = [], key_p_n0 = 0, key_q_n0 = 0, key_p_r3 = [], key_q_r3 = [],
    key_p_one = [], key_q_one = [], key_qinv_m = [], key_bl_vi = [], key_bl_vf = [], key_ok = False\<rparr>"

definition viltrum_rsa_from_mpi :: "('mpi, 'pk, 'rng) mbedtls \<Rightarrow> 'mpi \<Rightarrow> nat \<Rightarrow> u64 list option" where
  "viltrum_rsa_from_mpi L x k = map_option (limbs_of_be k) (mpi_write_binary L x (k * 8))"

definition viltrum_rsa_mont_const ::
  "('mpi, 'pk, 'rng) mbedtls \<Rightarrow> 'mpi \<Rightarrow> nat \<Rightarrow> nat \<Rightarrow> 'mpi option \<Rightarrow> u64 list option" where
  "viltrum_rsa_mont_const L m k pow x =
     do {
       r \<leftarrow> mpi_lset L 1;
       r \<leftarrow> mpi_shift_l L r (64 * k * pow);
       r \<leftarrow> (case x of None \<Rightarrow> Some r | Some x \<Rightarrow> mpi_mul_mpi L r x);
       r \<leftarrow> mpi_mod_mpi L r m;
       viltrum_rsa_from_mpi L r k
     }"

text \<open>Everything before the blinding pair; the modulus and exponent are passed on.\<close>

definition rsa_load_shape :: "('mpi, 'pk, 'rng) mbedtls \<Rightarrow> 'mpi \<Rightarrow> 'mpi \<Rightarrow> 'mpi \<Rightarrow> 'mpi \<Rightarrow> (nat \<times> nat) option" where
  "rsa_load_shape L N P Q E =
     (let bits = mpi_bitlen L N; k = bits div 64; h = k div 2
      in if bits < 1024 \<or> bits > 64 * VILTRUM_RSA_MAX_LIMBS \<or> bits mod 128 \<noteq> 0 then None
         else if mpi_bitlen L P \<noteq> 64 * h \<or> mpi_bitlen L Q \<noteq> 64 * h
           \<or> mpi_bitlen L E > 64 \<or> mpi_cmp_int L E 3 < 0 then None
         else Some (k, h))"

definition rsa_load_static :: "('mpi, 'pk, 'rng) mbedtls \<Rightarrow> 'pk \<Rightarrow> (viltrum_rsa \<times> 'mpi \<times> 'mpi) option" where
  "rsa_load_static L pk =
     do {
       (N, P, Q, D, E) \<leftarrow> rsa_export L pk;
       (DP, DQ, QP) \<leftarrow> rsa_export_crt L pk;
       (k, h) \<leftarrow> rsa_load_shape L N P Q E;
       e_limb \<leftarrow> viltrum_rsa_from_mpi L E 1;
       n \<leftarrow> viltrum_rsa_from_mpi L N k;
       p \<leftarrow> viltrum_rsa_from_mpi L P h;
       q \<leftarrow> viltrum_rsa_from_mpi L Q h;
       dp \<leftarrow> viltrum_rsa_from_mpi L DP h;
       dq \<leftarrow> viltrum_rsa_from_mpi L DQ h;
       n_r2 \<leftarrow> viltrum_rsa_mont_const L N k 2 None;
       n_one \<leftarrow> viltrum_rsa_mont_const L N k 1 None;
       p_r3 \<leftarrow> viltrum_rsa_mont_const L P h 3 None;
       q_r3 \<leftarrow> viltrum_rsa_mont_const L Q h 3 None;
       p_one \<leftarrow> viltrum_rsa_mont_const L P h 1 None;
       q_one \<leftarrow> viltrum_rsa_mont_const L Q h 1 None;
       qinv_m \<leftarrow> viltrum_rsa_mont_const L P h 1 (Some QP);
       Some (rsa_zero\<lparr>key_limbs := k, key_bits := mpi_bitlen L N, key_e := e_limb ! 0, key_n := n, key_p := p,
         key_q := q, key_dp := dp, key_dq := dq, key_n_n0 := viltrum_rsa_n0 (n ! 0),
         key_p_n0 := viltrum_rsa_n0 (p ! 0), key_q_n0 := viltrum_rsa_n0 (q ! 0), key_n_r2 := n_r2,
         key_n_one := n_one, key_p_r3 := p_r3, key_q_r3 := q_r3, key_p_one := p_one, key_q_one := q_one,
         key_qinv_m := qinv_m\<rparr>, N, E)
     }"

partial_function (option) rsa_blinding_loop ::
  "('mpi, 'pk, 'rng) mbedtls \<Rightarrow> 'mpi \<Rightarrow> nat \<Rightarrow> 'rng \<Rightarrow> (('mpi \<times> 'mpi) option \<times> 'rng) option" where
  "rsa_blinding_loop L N k rng =
     (case mpi_fill_random L (k * 8 - 1) rng of
        (None, rng) \<Rightarrow> Some (None, rng)
      | (Some R, rng) \<Rightarrow>
          if mpi_cmp_int L R 1 \<le> 0 then rsa_blinding_loop L N k rng
          else (case mpi_inv_mod L R N of
                  None \<Rightarrow> rsa_blinding_loop L N k rng
                | Some T \<Rightarrow> Some (Some (R, T), rng)))"

definition rsa_load_blinding ::
  "('mpi, 'pk, 'rng) mbedtls \<Rightarrow> viltrum_rsa \<Rightarrow> 'mpi \<Rightarrow> 'mpi \<Rightarrow> 'mpi \<Rightarrow> 'mpi \<Rightarrow> viltrum_rsa option" where
  "rsa_load_blinding L key N E R T =
     do {
       bl_vf \<leftarrow> viltrum_rsa_mont_const L N (key_limbs key) 1 (Some T);
       T \<leftarrow> mpi_exp_mod L R E N;
       bl_vi \<leftarrow> viltrum_rsa_mont_const L N (key_limbs key) 1 (Some T);
       Some (key\<lparr>key_bl_vf := bl_vf, key_bl_vi := bl_vi, key_ok := True\<rparr>)
     }"

text \<open>A failed load wipes the structure, so its \<^verbatim>\<open>ok\<close> flag is clear.\<close>

definition rsa_load_result :: "viltrum_rsa option \<Rightarrow> int \<times> viltrum_rsa" where
  "rsa_load_result r = (case r of None \<Rightarrow> (- 1, rsa_zero) | Some key \<Rightarrow> (0, key))"

definition viltrum_rsa_load ::
  "('mpi, 'pk, 'rng) mbedtls \<Rightarrow> 'pk \<Rightarrow> 'rng \<Rightarrow> ((int \<times> viltrum_rsa) \<times> 'rng) option" where
  "viltrum_rsa_load L pk rng =
     (if \<not> pk_is_rsa L pk then Some ((- 1, rsa_zero), rng)
      else case rsa_load_static L pk of
             None \<Rightarrow> Some ((- 1, rsa_zero), rng)
           | Some (key, N, E) \<Rightarrow>
               (case rsa_blinding_loop L N (key_limbs key) rng of
                  None \<Rightarrow> None
                | Some (None, rng) \<Rightarrow> Some ((- 1, rsa_zero), rng)
                | Some (Some (R, T), rng) \<Rightarrow> Some (rsa_load_result (rsa_load_blinding L key N E R T), rng)))"

section \<open>What the library documents\<close>

definition mbedtls_spec :: "('mpi, 'pk, 'rng) mbedtls \<Rightarrow> ('mpi \<Rightarrow> int) \<Rightarrow> bool" where
  "mbedtls_spec L val \<longleftrightarrow>
     (\<forall>x len bs. mpi_write_binary L x len = Some bs \<longrightarrow> length bs = len \<and> be_val bs = val x) \<and>
     (\<forall>z r. mpi_lset L z = Some r \<longrightarrow> val r = z) \<and>
     (\<forall>x n r. mpi_shift_l L x n = Some r \<longrightarrow> val r = val x * 2 ^ n) \<and>
     (\<forall>x y r. mpi_mul_mpi L x y = Some r \<longrightarrow> val r = val x * val y) \<and>
     (\<forall>x m r. mpi_mod_mpi L x m = Some r \<longrightarrow> val r = val x mod val m) \<and>
     (\<forall>x. 0 < mpi_bitlen L x \<longrightarrow> 2 ^ (mpi_bitlen L x - 1) \<le> \<bar>val x\<bar> \<and> \<bar>val x\<bar> < 2 ^ mpi_bitlen L x) \<and>
     (\<forall>x z. mpi_cmp_int L x z < 0 \<longleftrightarrow> val x < z) \<and>
     (\<forall>x n r. mpi_inv_mod L x n = Some r \<longrightarrow> val x * val r mod val n = 1) \<and>
     (\<forall>x e n r. mpi_exp_mod L x e n = Some r \<longrightarrow> val r = val x ^ nat (val e) mod val n)"

text \<open>A valid key behind \<^verbatim>\<open>pk\<close>: the exported numbers satisfy RSA's equations.\<close>

definition rsa_pk_valid :: "('mpi, 'pk, 'rng) mbedtls \<Rightarrow> ('mpi \<Rightarrow> int) \<Rightarrow> 'pk \<Rightarrow> bool" where
  "rsa_pk_valid L val pk \<longleftrightarrow>
     (\<forall>N P Q D E DP DQ QP. rsa_export L pk = Some (N, P, Q, D, E) \<longrightarrow> rsa_export_crt L pk = Some (DP, DQ, QP) \<longrightarrow>
        0 < val N \<and> 0 < val P \<and> 0 < val Q \<and> odd (val N) \<and> val N = val P * val Q \<and> coprime (val P) (val Q) \<and>
        rsa_inverse (nat (val E)) (nat (val DP)) (val P) \<and> rsa_inverse (nat (val E)) (nat (val DQ)) (val Q) \<and>
        val Q * val QP mod val P = 1)"

section \<open>Loading a valid key\<close>

lemma from_mpi_correct:
  assumes "mbedtls_spec L val" and "viltrum_rsa_from_mpi L x k = Some l"
  shows "length l = k" and "le_val l = val x"
proof -
  obtain bs where bs: "mpi_write_binary L x (k * 8) = Some bs" "l = limbs_of_be k bs"
    using assms(2) by (auto simp: viltrum_rsa_from_mpi_def)
  then have "length bs = 8 * k" "be_val bs = val x"
    using assms(1) by (auto simp: mbedtls_spec_def mult.commute)
  then show "length l = k" "le_val l = val x" by (simp_all add: bs(2) le_val_limbs_of_be)
qed

definition opt_val :: "('mpi \<Rightarrow> int) \<Rightarrow> 'mpi option \<Rightarrow> int" where
  "opt_val val x = (case x of None \<Rightarrow> 1 | Some x \<Rightarrow> val x)"

lemma mont_const_correct:
  assumes "mbedtls_spec L val" and "viltrum_rsa_mont_const L m k pow x = Some l"
  shows "length l = k" and "le_val l = mont_R k ^ pow * opt_val val x mod val m"
proof -
  obtain r1 r2 r3 r4 where r: "mpi_lset L 1 = Some r1" "mpi_shift_l L r1 (64 * k * pow) = Some r2"
    "(case x of None \<Rightarrow> Some r2 | Some x \<Rightarrow> mpi_mul_mpi L r2 x) = Some r3"
    "mpi_mod_mpi L r3 m = Some r4" "viltrum_rsa_from_mpi L r4 k = Some l"
    using assms(2) unfolding viltrum_rsa_mont_const_def by (auto simp: bind_eq_Some_conv)
  have "val r1 = 1" "val r2 = val r1 * 2 ^ (64 * k * pow)" "val r3 = val r2 * opt_val val x"
    "val r4 = val r3 mod val m"
    using r assms(1) by (auto simp: mbedtls_spec_def opt_val_def split: option.splits)
  then have "val r4 = mont_R k ^ pow * opt_val val x mod val m"
    by (simp add: mont_R_def power_mult)
  then show "length l = k" "le_val l = mont_R k ^ pow * opt_val val x mod val m"
    using from_mpi_correct [OF assms(1) r(5)] by simp_all
qed

lemma mont_const_rep:
  assumes "mbedtls_spec L val" and "mont_modulus n n0 k" and "le_val n = val m"
    and "viltrum_rsa_mont_const L m k pow x = Some l" and "mont_R k ^ pow * opt_val val x = v * mont_R k"
  shows "mont_rep n n0 k l v"
  using mont_const_correct [OF assms(1,4)] assms(2,3,5) by (simp add: mont_rep_def)

lemma mont_modulus_n0:
  assumes "length n = k" and "0 < k" and "k \<le> 64" and "odd (le_val n)"
  shows "mont_modulus n (viltrum_rsa_n0 (n ! 0)) k"
proof -
  obtain x xs where n: "n = x # xs" using assms(1,2) by (cases n) auto
  have "odd (uint x)" using assms(4) by (simp add: n)
  then show ?thesis
    using viltrum_rsa_n0_correct [of x] assms(1-3) by (simp add: mont_modulus_def n)
qed

text \<open>The shape the load accepts: sizes, and primes that fill their half exactly.\<close>

lemma rsa_load_shape_correct:
  assumes "mbedtls_spec L val" and "rsa_load_shape L N P Q E = Some (k, h)"
    and "0 < val N" and "0 < val P" and "0 < val Q"
  shows "k = 2 * h" and "8 \<le> h" and "h \<le> 32" and "3 \<le> val E"
    and "2 ^ (64 * k - 1) \<le> val N" and "val Q < 2 * val P" and "1 < val P" and "1 < val Q"
proof -
  have b: "\<And>x. 0 < mpi_bitlen L x \<Longrightarrow> 2 ^ (mpi_bitlen L x - 1) \<le> \<bar>val x\<bar> \<and> \<bar>val x\<bar> < 2 ^ mpi_bitlen L x"
    and c: "\<And>x z. mpi_cmp_int L x z < 0 \<longleftrightarrow> val x < z"
    using assms(1) by (auto simp: mbedtls_spec_def)
  define bits where "bits = mpi_bitlen L N"
  have s: "1024 \<le> bits" "bits \<le> 4096" "bits mod 128 = 0" "k = bits div 64" "h = k div 2"
    "mpi_bitlen L P = 64 * h" "mpi_bitlen L Q = 64 * h" "\<not> mpi_cmp_int L E 3 < 0"
    using assms(2) by (auto simp: rsa_load_shape_def VILTRUM_RSA_MAX_LIMBS_def Let_def bits_def split: if_splits)
  obtain j where j: "bits = 128 * j" using s(3) by (auto simp: mod_eq_0_iff_dvd)
  then have kh: "k = 2 * j" "h = j" "8 \<le> j" "j \<le> 32" using s by simp_all
  then show "k = 2 * h" "8 \<le> h" "h \<le> 32" by simp_all
  show "3 \<le> val E" using s(8) c by fastforce
  show "2 ^ (64 * k - 1) \<le> val N"
    using b [of N] j kh assms(3) by (simp flip: bits_def)
  have pq: "val Q < 2 ^ (64 * h)" "2 ^ (64 * h - 1) \<le> val P" "2 ^ (64 * h - 1) \<le> val Q"
    using b [of P] b [of Q] s(6,7) kh assms(4,5) by simp_all
  have "(2::int) ^ 1 \<le> 2 ^ (64 * h - 1)" using kh by (intro power_increasing) simp_all
  then show "1 < val P" "1 < val Q" using pq(2,3) by simp_all
  note pq(1,2)
  moreover have "(2::int) ^ (64 * h) = 2 * 2 ^ (64 * h - 1)"
    using kh by (subst power_Suc [symmetric]) simp
  ultimately show "val Q < 2 * val P" by linarith
qed

lemma rsa_load_static_correct:
  assumes "mbedtls_spec L val" and "rsa_pk_valid L val pk" and "rsa_load_static L pk = Some (key, N, E)"
  shows "rsa_key_static key" and "16 \<le> key_limbs key" and "key_limbs key \<le> 64"
    and "le_val (key_n key) = val N" and "2 ^ (64 * key_limbs key - 1) \<le> val N" and "unat (key_e key) = nat (val E)"
    and "mont_modulus (key_n key) (key_n_n0 key) (key_limbs key)"
proof -
  obtain P Q D DP DQ QP k h e_limb n p q dp dq n_r2 n_one p_r3 q_r3 p_one q_one qinv_m where
    ex: "rsa_export L pk = Some (N, P, Q, D, E)" "rsa_export_crt L pk = Some (DP, DQ, QP)"
    and shape: "rsa_load_shape L N P Q E = Some (k, h)"
    and mpi: "viltrum_rsa_from_mpi L E 1 = Some e_limb" "viltrum_rsa_from_mpi L N k = Some n"
      "viltrum_rsa_from_mpi L P h = Some p" "viltrum_rsa_from_mpi L Q h = Some q"
      "viltrum_rsa_from_mpi L DP h = Some dp" "viltrum_rsa_from_mpi L DQ h = Some dq"
    and const: "viltrum_rsa_mont_const L N k 2 None = Some n_r2"
      "viltrum_rsa_mont_const L P h 3 None = Some p_r3" "viltrum_rsa_mont_const L Q h 3 None = Some q_r3"
      "viltrum_rsa_mont_const L P h 1 None = Some p_one" "viltrum_rsa_mont_const L Q h 1 None = Some q_one"
      "viltrum_rsa_mont_const L P h 1 (Some QP) = Some qinv_m"
    and key: "key = rsa_zero\<lparr>key_limbs := k, key_bits := mpi_bitlen L N, key_e := e_limb ! 0, key_n := n, key_p := p,
         key_q := q, key_dp := dp, key_dq := dq, key_n_n0 := viltrum_rsa_n0 (n ! 0),
         key_p_n0 := viltrum_rsa_n0 (p ! 0), key_q_n0 := viltrum_rsa_n0 (q ! 0), key_n_r2 := n_r2,
         key_n_one := n_one, key_p_r3 := p_r3, key_q_r3 := q_r3, key_p_one := p_one, key_q_one := q_one,
         key_qinv_m := qinv_m\<rparr>"
    using assms(3) unfolding rsa_load_static_def by (auto simp: bind_eq_Some_conv)
  have pk: "0 < val N" "0 < val P" "0 < val Q" "odd (val N)" "val N = val P * val Q" "coprime (val P) (val Q)"
    "rsa_inverse (nat (val E)) (nat (val DP)) (val P)" "rsa_inverse (nat (val E)) (nat (val DQ)) (val Q)"
    "val Q * val QP mod val P = 1"
    using assms(2) ex unfolding rsa_pk_valid_def by blast+
  note S = rsa_load_shape_correct [OF assms(1) shape pk(1-3)]
  note fm = from_mpi_correct [OF assms(1)]
  have oddpq: "odd (val P)" "odd (val Q)" using pk(4,5) by simp_all
  have mn: "mont_modulus n (viltrum_rsa_n0 (n ! 0)) k" and mp: "mont_modulus p (viltrum_rsa_n0 (p ! 0)) h"
    and mq: "mont_modulus q (viltrum_rsa_n0 (q ! 0)) h"
    using fm [OF mpi(2)] fm [OF mpi(3)] fm [OF mpi(4)] S(1-3) pk(4) oddpq
    by (auto intro!: mont_modulus_n0)
  note rep = mont_const_rep [OF assms(1)]
  have r2: "mont_rep n (viltrum_rsa_n0 (n ! 0)) k n_r2 (mont_R k)"
    by (rule rep [OF mn fm(2) [OF mpi(2)] const(1)]) (simp add: opt_val_def power2_eq_square)
  have r3: "mont_rep p (viltrum_rsa_n0 (p ! 0)) h p_r3 (mont_R h * mont_R h)"
    "mont_rep q (viltrum_rsa_n0 (q ! 0)) h q_r3 (mont_R h * mont_R h)"
    by (rule rep [OF mp fm(2) [OF mpi(3)] const(2)] rep [OF mq fm(2) [OF mpi(4)] const(3)];
        simp add: opt_val_def power3_eq_cube)+
  have one: "mont_rep p (viltrum_rsa_n0 (p ! 0)) h p_one 1" "mont_rep q (viltrum_rsa_n0 (q ! 0)) h q_one 1"
    by (rule rep [OF mp fm(2) [OF mpi(3)] const(4)] rep [OF mq fm(2) [OF mpi(4)] const(5)];
        simp add: opt_val_def)+
  have qinv: "mont_rep p (viltrum_rsa_n0 (p ! 0)) h qinv_m (val QP)"
    by (rule rep [OF mp fm(2) [OF mpi(3)] const(6)]) (simp add: opt_val_def)
  obtain e where e: "e_limb = [e]" "uint e = val E"
    using fm [OF mpi(1)] by (cases e_limb) (auto simp: Suc_length_conv)
  then have ue: "unat e = nat (val E)" "e \<noteq> 0" using S(4) by (auto simp flip: nat_uint_eq)
  show "rsa_key_static key"
    unfolding rsa_key_static_def rsa_half_wf_def Let_def
    using fm [OF mpi(2)] fm [OF mpi(3)] fm [OF mpi(4)] fm [OF mpi(5)] fm [OF mpi(6)]
      S(1,6-8) pk r2 r3 one qinv e ue by (auto simp: key)
  show "16 \<le> key_limbs key" "key_limbs key \<le> 64" "le_val (key_n key) = val N"
    "2 ^ (64 * key_limbs key - 1) \<le> val N" "unat (key_e key) = nat (val E)"
    "mont_modulus (key_n key) (key_n_n0 key) (key_limbs key)"
    using S fm [OF mpi(2)] ue e mn by (simp_all add: key)
qed

section \<open>The blinding value\<close>

lemma rsa_blinding_loop_result:
  "rsa_blinding_loop L N k rng = Some r \<Longrightarrow> (case r of (None, _) \<Rightarrow> True | (Some (R, T), _) \<Rightarrow> mpi_inv_mod L R N = Some T)"
  by (rule rsa_blinding_loop.raw_induct [where P = "\<lambda>L N k rng r.
        case r of (None, _) \<Rightarrow> True | (Some (R, T), _) \<Rightarrow> mpi_inv_mod L R N = Some T"])
    (fastforce split: prod.splits option.splits if_splits)+

text \<open>
  The search ends as soon as the generator fails or yields an invertible value above 1. State \<open>i\<close>
  of the generator is the one before draw \<open>i\<close>.
\<close>

definition draw_ends :: "('mpi, 'pk, 'rng) mbedtls \<Rightarrow> 'mpi \<Rightarrow> nat \<Rightarrow> 'rng \<Rightarrow> bool" where
  "draw_ends L N k rng = (case fst (mpi_fill_random L (k * 8 - 1) rng) of
     None \<Rightarrow> True | Some R \<Rightarrow> 0 < mpi_cmp_int L R 1 \<and> mpi_inv_mod L R N \<noteq> None)"

definition rng_after :: "('mpi, 'pk, 'rng) mbedtls \<Rightarrow> nat \<Rightarrow> nat \<Rightarrow> 'rng \<Rightarrow> 'rng" where
  "rng_after L k i rng = ((\<lambda>g. snd (mpi_fill_random L (k * 8 - 1) g)) ^^ i) rng"

lemma rsa_blinding_loop_ends:
  "draw_ends L N k (rng_after L k i rng) \<Longrightarrow> \<exists>r. rsa_blinding_loop L N k rng = Some r"
proof (induction i arbitrary: rng)
  case 0
  then show ?case
    by (subst rsa_blinding_loop.simps)
      (auto simp: draw_ends_def rng_after_def split: prod.splits option.splits)
next
  case (Suc i)
  obtain x g where x: "mpi_fill_random L (k * 8 - 1) rng = (x, g)" by (cases "mpi_fill_random L (k * 8 - 1) rng")
  have "rng_after L k (Suc i) rng = rng_after L k i g"
    unfolding rng_after_def funpow_Suc_right comp_def x by simp
  then have "\<exists>r. rsa_blinding_loop L N k g = Some r" using Suc by simp
  then show ?case by (subst rsa_blinding_loop.simps, unfold x) (auto split: option.splits)
qed

lemma rsa_load_blinding_correct:
  assumes "mbedtls_spec L val" and "mont_modulus (key_n key) (key_n_n0 key) (key_limbs key)"
    and "le_val (key_n key) = val N" and "unat (key_e key) = nat (val E)" and "mpi_inv_mod L R N = Some T"
    and "rsa_load_blinding L key N E R T = Some key'"
  shows "rsa_blinding key' (val R) (val T)"
proof -
  obtain vf t vi where r: "viltrum_rsa_mont_const L N (key_limbs key) 1 (Some T) = Some vf"
    "mpi_exp_mod L R E N = Some t" "viltrum_rsa_mont_const L N (key_limbs key) 1 (Some t) = Some vi"
    "key' = key\<lparr>key_bl_vf := vf, key_bl_vi := vi, key_ok := True\<rparr>"
    using assms(6) by (auto simp: rsa_load_blinding_def bind_eq_Some_conv)
  note rep = mont_const_rep [OF assms(1-3)]
  have "mont_rep (key_n key) (key_n_n0 key) (key_limbs key) vf (val T)"
    using rep [OF r(1)] by (simp add: opt_val_def)
  moreover have "mont_rep (key_n key) (key_n_n0 key) (key_limbs key) vi (val t)"
    using rep [OF r(3)] by (simp add: opt_val_def)
  moreover have "val R * val T mod val N = 1" "val t = val R ^ nat (val E) mod val N"
    using assms(1,5) r(2) unfolding mbedtls_spec_def by blast+
  ultimately show ?thesis
    using assms(3,4) by (auto simp: rsa_blinding_def r(4) intro: mont_rep_cong)
qed

lemma viltrum_rsa_load_correct:
  assumes "mbedtls_spec L val" and "rsa_pk_valid L val pk" and "viltrum_rsa_load L pk rng = Some ((ret, key), rng')"
  shows "ret = - 1 \<and> key = rsa_zero \<or>
    ret = 0 \<and> rsa_key_wf key \<and> key_ok key \<and> 16 \<le> key_limbs key \<and> key_limbs key \<le> 64 \<and>
    2 ^ (64 * key_limbs key - 1) \<le> le_val (key_n key)"
proof (cases "ret = 0")
  case False
  then show ?thesis
    using assms(3)
    by (auto simp: viltrum_rsa_load_def rsa_load_result_def split: if_splits option.splits prod.splits)
next
  case True
  then obtain key0 N E R T where st: "rsa_load_static L pk = Some (key0, N, E)"
    and lp: "rsa_blinding_loop L N (key_limbs key0) rng = Some (Some (R, T), rng')"
    and bl: "rsa_load_blinding L key0 N E R T = Some key"
    using assms(3) by (auto simp: viltrum_rsa_load_def rsa_load_result_def split: if_splits option.splits prod.splits)
  note S = rsa_load_static_correct [OF assms(1,2) st]
  have "mpi_inv_mod L R N = Some T" using rsa_blinding_loop_result [OF lp] by simp
  then have "rsa_blinding key (val R) (val T)"
    by (rule rsa_load_blinding_correct [OF assms(1) S(7,4,6) _ bl])
  moreover have "rsa_key_static key" "key_ok key" "key_limbs key = key_limbs key0" "key_n key = key_n key0"
    using bl S(1) by (auto simp: rsa_load_blinding_def bind_eq_Some_conv rsa_key_static_def)
  ultimately show ?thesis using True S by (auto simp: rsa_key_wf_def)
qed

section \<open>A library and a key for the witnesses\<close>

text \<open>
  The library on integers, with the generator a list of numbers to come, and the key of 1024 bits.
\<close>

function bits_of :: "nat \<Rightarrow> nat" where
  "bits_of n = (if n = 0 then 0 else Suc (bits_of (n div 2)))"
  by pat_completeness auto
termination
  by (relation "measure id") simp_all

declare bits_of.simps [simp del]

lemma bits_of_bounds: "0 < n \<Longrightarrow> 2 ^ (bits_of n - 1) \<le> n \<and> n < 2 ^ bits_of n"
proof (induction n rule: bits_of.induct)
  case (1 n)
  have u: "bits_of n = Suc (bits_of (n div 2))" using 1(2) by (subst bits_of.simps) simp
  show ?case
  proof (cases "n div 2 = 0")
    case True
    then show ?thesis using 1(2) u by (simp add: bits_of.simps [of 0])
  next
    case False
    then have b: "2 ^ (bits_of (n div 2) - 1) \<le> n div 2" "n div 2 < 2 ^ bits_of (n div 2)" using 1 by simp_all
    obtain j where j: "bits_of (n div 2) = Suc j" using False by (subst (asm) bits_of.simps) (auto simp: bits_of.simps [of "n div 2"])
    have "n = 2 * (n div 2) + n mod 2" "n mod 2 < 2" by simp_all
    then have "2 * 2 ^ j \<le> n" "n < 2 * (2 * 2 ^ j)" using b unfolding j by (simp_all only: diff_Suc_1 power_Suc)
    then show ?thesis by (simp add: u j)
  qed
qed

lemma bits_of_unique: "2 ^ b \<le> n \<Longrightarrow> n < 2 ^ Suc b \<Longrightarrow> bits_of n = Suc b"
proof -
  assume n: "2 ^ b \<le> n" "n < 2 ^ Suc b"
  then have "0 < n" using less_le_trans [of 0 "2 ^ b" n] by simp
  from bits_of_bounds [OF this] have k: "2 ^ (bits_of n - 1) \<le> n" "n < 2 ^ bits_of n" by simp_all
  have "(2::nat) ^ b < 2 ^ bits_of n" "(2::nat) ^ (bits_of n - 1) < 2 ^ Suc b" using n k by linarith+
  then have "b < bits_of n" "bits_of n - 1 < Suc b" by (simp_all only: power_strict_increasing_iff one_less_numeral_iff semiring_norm)
  then show ?thesis by simp
qed

definition int_lib :: "(int, int list, int list) mbedtls" where
  "int_lib = \<lparr>
     mpi_write_binary = (\<lambda>x n. if 0 \<le> x \<and> x < 2 ^ (8 * n) then Some (rev (le_digits n x)) else None),
     mpi_lset = Some, mpi_shift_l = (\<lambda>x n. Some (x * 2 ^ n)), mpi_mul_mpi = (\<lambda>x y. Some (x * y)),
     mpi_mod_mpi = (\<lambda>x m. if m \<le> 0 then None else Some (x mod m)), mpi_bitlen = (\<lambda>x. bits_of (nat \<bar>x\<bar>)),
     mpi_cmp_int = (\<lambda>x z. sgn (x - z)), mpi_inv_mod = (\<lambda>x n. List.find (\<lambda>t. x * t mod n = 1) [0..n - 1]),
     mpi_exp_mod = (\<lambda>x e n. Some (x ^ nat e mod n)),
     mpi_fill_random = (\<lambda>n g. case g of [] \<Rightarrow> (None, []) | x # g \<Rightarrow> (Some x, g)),
     pk_is_rsa = (\<lambda>_. True),
     rsa_export = (\<lambda>pk. case pk of [N, P, Q, D, E, DP, DQ, QP] \<Rightarrow> Some (N, P, Q, D, E) | _ \<Rightarrow> None),
     rsa_export_crt = (\<lambda>pk. case pk of [N, P, Q, D, E, DP, DQ, QP] \<Rightarrow> Some (DP, DQ, QP) | _ \<Rightarrow> None)\<rparr>"

lemma int_lib_spec: "mbedtls_spec int_lib (\<lambda>x. x)"
proof -
  have "2 ^ (bits_of (nat \<bar>x\<bar>) - 1) \<le> \<bar>x\<bar> \<and> \<bar>x\<bar> < 2 ^ bits_of (nat \<bar>x\<bar>)" if "0 < bits_of (nat \<bar>x\<bar>)" for x :: int
  proof -
    have "0 < nat \<bar>x\<bar>" using that by (cases "nat \<bar>x\<bar>") (simp_all add: bits_of.simps [of 0])
    from bits_of_bounds [OF this] show ?thesis by (simp add: le_nat_iff nat_less_iff nat_le_iff of_nat_power)
  qed
  moreover have "List.find (\<lambda>t. x * t mod n = 1) [0..n - 1] = Some r \<Longrightarrow> x * r mod n = 1" for x n r :: int
    by (auto simp: find_Some_iff)
  ultimately show ?thesis
    by (auto simp: mbedtls_spec_def int_lib_def be_val_def le_val_le_digits sgn_if split: if_splits)
qed

definition demo_pk :: "int list" where
  "demo_pk = [demo_p * demo_q, demo_p, demo_q, int demo_d, 65537, int demo_d, int demo_d, demo_qinv]"

lemma demo_pk_valid: "rsa_pk_valid int_lib (\<lambda>x. x) demo_pk"
proof -
  have "0 < demo_p" "0 < demo_q" by (simp_all add: demo_p_def demo_q_def)
  then show ?thesis
    using demo_range(7,8) demo_coprime demo_inverse demo_qinv_mod
    by (simp add: rsa_pk_valid_def int_lib_def demo_pk_def)
qed

lemma bits_of_int: "2 ^ b \<le> x \<Longrightarrow> x < 2 ^ Suc b \<Longrightarrow> bits_of (nat x) = Suc b" for x :: int
  by (rule bits_of_unique) (simp_all add: le_nat_iff nat_less_iff del: power_Suc)

lemma demo_bits: "bits_of (nat (demo_p * demo_q)) = 1024" "bits_of (nat demo_p) = 512" "bits_of (nat demo_q) = 512"
  using bits_of_int [of 1023 "demo_p * demo_q"] bits_of_int [of 511 demo_p] bits_of_int [of 511 demo_q] demo_range
  by simp_all

lemma int_lib_from_mpi: "0 \<le> x \<Longrightarrow> x < 2 ^ (64 * k) \<Longrightarrow> \<exists>l. viltrum_rsa_from_mpi int_lib x k = Some l"
  by (simp add: viltrum_rsa_from_mpi_def int_lib_def mult.commute)

lemma int_lib_mont_const:
  assumes "0 < m" and "m \<le> 2 ^ (64 * k)"
  shows "\<exists>l. viltrum_rsa_mont_const int_lib m k pow x = Some l"
proof -
  have mpi: "\<exists>l. viltrum_rsa_from_mpi int_lib (r mod m) k = Some l" for r
    using assms less_le_trans [OF pos_mod_bound [OF assms(1), of r] assms(2)] by (intro int_lib_from_mpi) simp_all
  have "mpi_lset int_lib 1 = Some 1" "mpi_shift_l int_lib 1 (64 * k * pow) = Some (2 ^ (64 * k * pow))"
    "\<And>x y. mpi_mul_mpi int_lib x y = Some (x * y)" "\<And>x. mpi_mod_mpi int_lib x m = Some (x mod m)"
    using assms(1) by (simp_all add: int_lib_def)
  then show ?thesis
    unfolding viltrum_rsa_mont_const_def using mpi by (cases x) simp_all
qed

lemma demo_static:
  "\<exists>key. rsa_load_static int_lib demo_pk = Some (key, demo_p * demo_q, 65537) \<and> key_limbs key = 16"
proof -
  have pq: "0 < demo_p" "0 < demo_q" "demo_p < 2 ^ (64 * 8)" "demo_q < 2 ^ (64 * 8)"
    "demo_p * demo_q < 2 ^ (64 * 16)" "0 \<le> demo_p * demo_q"
    by (simp_all add: demo_p_def demo_q_def)
  have d: "int demo_d < 2 ^ (64 * 8)" by (simp add: demo_d_def)
  have shape: "rsa_load_shape int_lib (demo_p * demo_q) demo_p demo_q 65537 = Some (16, 8)"
    using demo_bits pq bits_of_unique [of 16 65537]
    by (simp add: rsa_load_shape_def int_lib_def VILTRUM_RSA_MAX_LIMBS_def abs_mult)
  have ex: "rsa_export int_lib demo_pk = Some (demo_p * demo_q, demo_p, demo_q, int demo_d, 65537)"
    "rsa_export_crt int_lib demo_pk = Some (int demo_d, int demo_d, demo_qinv)"
    by (simp_all add: int_lib_def demo_pk_def)
  obtain e n p q d1 where m: "viltrum_rsa_from_mpi int_lib 65537 1 = Some e"
    "viltrum_rsa_from_mpi int_lib (demo_p * demo_q) 16 = Some n" "viltrum_rsa_from_mpi int_lib demo_p 8 = Some p"
    "viltrum_rsa_from_mpi int_lib demo_q 8 = Some q" "viltrum_rsa_from_mpi int_lib (int demo_d) 8 = Some d1"
    using int_lib_from_mpi [of 65537 1] int_lib_from_mpi [OF pq(6,5)]
      int_lib_from_mpi [OF less_imp_le [OF pq(1)] pq(3)]
      int_lib_from_mpi [OF less_imp_le [OF pq(2)] pq(4)] int_lib_from_mpi [OF of_nat_0_le_iff d] by auto
  have n: "0 < demo_p * demo_q" using pq(1,2) by simp
  note c = int_lib_mont_const [OF n less_imp_le [OF pq(5)]] int_lib_mont_const [OF pq(1) less_imp_le [OF pq(3)]]
    int_lib_mont_const [OF pq(2) less_imp_le [OF pq(4)]]
  obtain r2 one p3 q3 p1 q1 qi where mc: "viltrum_rsa_mont_const int_lib (demo_p * demo_q) 16 2 None = Some r2"
    "viltrum_rsa_mont_const int_lib (demo_p * demo_q) 16 1 None = Some one"
    "viltrum_rsa_mont_const int_lib demo_p 8 3 None = Some p3" "viltrum_rsa_mont_const int_lib demo_q 8 3 None = Some q3"
    "viltrum_rsa_mont_const int_lib demo_p 8 1 None = Some p1" "viltrum_rsa_mont_const int_lib demo_q 8 1 None = Some q1"
    "viltrum_rsa_mont_const int_lib demo_p 8 1 (Some demo_qinv) = Some qi"
    using c(1) [of 2 None] c(1) [of 1 None] c(2) [of 3 None] c(3) [of 3 None] c(2) [of 1 None] c(3) [of 1 None]
      c(2) [of 1 "Some demo_qinv"] by blast
  show ?thesis
    unfolding rsa_load_static_def ex by (simp only: bind.bind_lunit prod.case shape m mc) simp
qed

lemma int_lib_exp_mod: "mpi_exp_mod int_lib x e n = Some (x ^ nat e mod n)"
  by (simp add: int_lib_def)

lemma demo_load: "\<exists>key. viltrum_rsa_load int_lib demo_pk [2] = Some ((0, key), [])"
proof -
  define n where "n = demo_p * demo_q"
  have n: "0 < n" "odd n" "1 < n" "n < 2 ^ (64 * 16)" using demo_range(5-8) by (simp_all add: n_def)
  obtain key where key: "rsa_load_static int_lib demo_pk = Some (key, n, 65537)" "key_limbs key = 16"
    using demo_static by (auto simp: n_def)
  define h where "h = (n + 1) div 2"
  have h: "2 * h = n + 1" unfolding h_def using n(2) by (intro dvd_mult_div_cancel) simp
  then have "2 * h mod n = 1" using n(3) by simp
  moreover have "h \<in> set [0..n - 1]" using h n(3) by simp
  ultimately obtain t where t: "List.find (\<lambda>t. 2 * t mod n = 1) [0..n - 1] = Some t"
    by (metis (mono_tags, lifting) find_None_iff option.exhaust)
  have loop: "rsa_blinding_loop int_lib n 16 [2] = Some (Some (2, t), [])"
    by (subst rsa_blinding_loop.simps) (use t in \<open>simp add: int_lib_def\<close>)
  have "\<exists>k. rsa_load_blinding int_lib key n 65537 2 t = Some k"
  proof -
    note c = int_lib_mont_const [OF n(1) less_imp_le [OF n(4)], of 1]
    obtain y where e: "mpi_exp_mod int_lib 2 65537 n = Some y" using int_lib_exp_mod by blast
    obtain vf vi where "viltrum_rsa_mont_const int_lib n 16 1 (Some t) = Some vf"
      "viltrum_rsa_mont_const int_lib n 16 1 (Some y) = Some vi"
      using c [of "Some t"] c [of "Some y"] by blast
    then show ?thesis unfolding rsa_load_blinding_def key(2) e by (simp only: bind.bind_lunit) blast
  qed
  then obtain k where "rsa_load_blinding int_lib key n 65537 2 t = Some k" by blast
  moreover have "pk_is_rsa int_lib demo_pk" by (simp add: int_lib_def)
  ultimately show ?thesis
    by (simp add: viltrum_rsa_load_def key loop rsa_load_result_def)
qed

section \<open>Properties of the load\<close>

text \<open>
  C20. With a library that behaves as documented and a valid key, \<^verbatim>\<open>viltrum_rsa_load\<close> either fails
  and leaves a wiped structure whose \<^verbatim>\<open>ok\<close> flag is clear, or returns 0 with a key that satisfies the
  invariant the signing code relies on, of 16 to 64 limbs and with a modulus that fills them.
\<close>

theorem rsa_load_establishes_invariant:
  assumes "mbedtls_spec L val" and "rsa_pk_valid L val pk" and "viltrum_rsa_load L pk rng = Some ((ret, key), rng')"
  shows "ret = - 1 \<and> key = rsa_zero \<or>
    ret = 0 \<and> rsa_key_wf key \<and> key_ok key \<and> 16 \<le> key_limbs key \<and> key_limbs key \<le> 64 \<and>
    2 ^ (64 * key_limbs key - 1) \<le> le_val (key_n key)"
  by (rule viltrum_rsa_load_correct [OF assms])

theorem rsa_load_establishes_invariant_witness:
  "\<exists>key. viltrum_rsa_load int_lib demo_pk [2] = Some ((0, key), []) \<and> rsa_key_wf key \<and> key_ok key"
proof -
  obtain key where key: "viltrum_rsa_load int_lib demo_pk [2] = Some ((0, key), [])" using demo_load by blast
  from rsa_load_establishes_invariant [OF int_lib_spec demo_pk_valid this] key show ?thesis by auto
qed

text \<open>
  C26. The search for a blinding value ends: if some later state of the generator yields a failure
  or an invertible value above 1, \<^verbatim>\<open>viltrum_rsa_load\<close> returns.
\<close>

theorem rsa_load_returns:
  assumes "\<And>key N E. rsa_load_static L pk = Some (key, N, E) \<Longrightarrow>
      \<exists>i. draw_ends L N (key_limbs key) (rng_after L (key_limbs key) i rng)"
  shows "\<exists>r. viltrum_rsa_load L pk rng = Some r"
proof (cases "rsa_load_static L pk")
  case None
  then show ?thesis by (simp add: viltrum_rsa_load_def)
next
  case (Some s)
  obtain key N E where s: "s = (key, N, E)" by (rule prod_cases3)
  then obtain i where "draw_ends L N (key_limbs key) (rng_after L (key_limbs key) i rng)"
    using assms [of key N E] Some by auto
  from rsa_blinding_loop_ends [OF this] obtain r where "rsa_blinding_loop L N (key_limbs key) rng = Some r" ..
  then show ?thesis
    using Some s by (cases r) (auto simp: viltrum_rsa_load_def split: option.splits prod.splits)
qed

theorem rsa_load_returns_witness: "\<exists>r. viltrum_rsa_load int_lib demo_pk [0, 1] = Some r"
proof (rule rsa_load_returns)
  fix key N E
  have "draw_ends int_lib N (key_limbs key) (rng_after int_lib (key_limbs key) 2 [0, 1])"
    by (simp add: draw_ends_def rng_after_def int_lib_def numeral_2_eq_2)
  then show "\<exists>i. draw_ends int_lib N (key_limbs key) (rng_after int_lib (key_limbs key) i [0, 1])" by blast
qed

end
