(* ===== verification/Pss.thy ===== *)
theory Pss
  imports RsaLoad
begin

unbundle bit_operations_syntax

text \<open>
  \<^verbatim>\<open>viltrum_rsa_pss_sha256\<close> of \<^verbatim>\<open>src/engine/rsa.h\<close>: the EMSA-PSS encoding with SHA-256, MGF1-SHA-256
  and a 32-byte salt, followed by the private operation. SHA-256 is mbedtls' and a parameter: it
  returns a digest, or nothing when the library reports an error. The encoding is checked against
  the verifier of RFC 8017, 9.1.2.
\<close>

section \<open>Operations\<close>

type_synonym sha = "u8 list \<Rightarrow> u8 list option"

definition counter_bytes :: "u32 \<Rightarrow> u8 list" where
  "counter_bytes c = [ucast (drop_bit 24 c), ucast (drop_bit 16 c), ucast (drop_bit 8 c), ucast c]"

text \<open>\<^verbatim>\<open>for (i = 0; i < 32 && off + i < db_len; i++) em[off + i] ^= mask[i]\<close>\<close>

definition xor_at :: "nat \<Rightarrow> u8 list \<Rightarrow> u8 list \<Rightarrow> u8 list" where
  "xor_at off msk em =
     map (\<lambda>i. if off \<le> i \<and> i < off + 32 then em ! i XOR msk ! (i - off) else em ! i) [0..<length em]"

lemma length_xor_at [simp]: "length (xor_at off msk em) = length em"
  by (simp add: xor_at_def)

function mgf1_xor :: "sha \<Rightarrow> u8 list \<Rightarrow> u32 \<Rightarrow> nat \<Rightarrow> u8 list \<Rightarrow> u8 list option" where
  "mgf1_xor sha256 hash counter off em =
     (if off < length em then
        (case sha256 (hash @ counter_bytes counter) of
           None \<Rightarrow> None
         | Some msk \<Rightarrow> mgf1_xor sha256 hash (counter + 1) (off + 32) (xor_at off msk em))
      else Some em)"
  by pat_completeness auto
termination
  by (relation "measure (\<lambda>(_, _, _, off, em). length em - off)") auto

declare mgf1_xor.simps [simp del]

definition pss_encode :: "sha \<Rightarrow> nat \<Rightarrow> u8 list \<Rightarrow> u8 list \<Rightarrow> u8 list option" where
  "pss_encode sha256 limbs mhash salt =
     (let em_len = limbs * 8; db_len = em_len - 32 - 1
      in case sha256 (replicate 8 0 @ mhash @ salt) of
           None \<Rightarrow> None
         | Some hash \<Rightarrow>
             (case mgf1_xor sha256 hash 0 0 (replicate (db_len - 32 - 1) 0 @ [1] @ salt) of
                None \<Rightarrow> None
              | Some em \<Rightarrow> Some (em[0 := em ! 0 AND 0x7f] @ hash @ [0xbc])))"

definition viltrum_rsa_pss_sha256 ::
  "sha \<Rightarrow> viltrum_rsa \<Rightarrow> u8 list \<Rightarrow> u8 list \<Rightarrow> (int \<times> u8 list option \<times> viltrum_rsa) option" where
  "viltrum_rsa_pss_sha256 sha256 key mhash salt =
     (if \<not> key_ok key then Some (- 1, None, key)
      else case pss_encode sha256 (key_limbs key) mhash salt of
             None \<Rightarrow> Some (- 1, None, key)
           | Some em \<Rightarrow> viltrum_rsa_private key em)"

section \<open>The verifier of RFC 8017\<close>

definition i2osp4 :: "nat \<Rightarrow> u8 list" where
  "i2osp4 c = rev (le_digits 4 (int c))"

definition mgf1 :: "(u8 list \<Rightarrow> u8 list) \<Rightarrow> u8 list \<Rightarrow> nat \<Rightarrow> u8 list" where
  "mgf1 H seed n = take n (concat (map (\<lambda>c. H (seed @ i2osp4 c)) [0..<(n + 31) div 32]))"

definition emsa_pss_verify :: "(u8 list \<Rightarrow> u8 list) \<Rightarrow> nat \<Rightarrow> u8 list \<Rightarrow> u8 list \<Rightarrow> bool" where
  "emsa_pss_verify H emLen mHash EM =
     (let dbLen = emLen - 33;
          maskedDB = take dbLen EM;
          h = take 32 (drop dbLen EM);
          DB = map2 (XOR) maskedDB (mgf1 H h dbLen);
          DB = DB[0 := DB ! 0 AND 0x7f];
          salt = drop (dbLen - 32) DB
      in length EM = emLen \<and> 66 \<le> emLen \<and> last EM = 0xbc \<and> hd EM AND 0x80 = 0 \<and>
         take (dbLen - 33) DB = replicate (dbLen - 33) 0 \<and> DB ! (dbLen - 33) = 1 \<and>
         H (replicate 8 0 @ mHash @ salt) = h)"

section \<open>Mask generation\<close>

lemma counter_bytes_i2osp4: "c < 2 ^ 32 \<Longrightarrow> counter_bytes (of_nat c) = i2osp4 c"
proof -
  assume c: "c < 2 ^ 32"
  then have u: "uint (of_nat c :: u32) = int c" by (simp add: unsigned_of_nat take_bit_nat_eq_self)
  have "ucast (drop_bit n (of_nat c :: u32)) = (word_of_int (int c div 2 ^ n) :: u8)" for n
    by (simp add: word_uint_eq_iff uint_ucast_mod uint_drop_bit u uint_word_of_int)
  note byte = this
  have "(le_digits 4 (int c) :: u8 list) = map (\<lambda>i. word_of_int (int c div 2 ^ (8 * i))) [0..<4]"
    by (rule nth_equalityI) (simp_all add: nth_le_digits)
  moreover have "[0..<4] = [0, 1, 2, 3::nat]" by (simp add: upt_rec)
  ultimately have "i2osp4 c = [word_of_int (int c div 2 ^ 24), word_of_int (int c div 2 ^ 16),
      word_of_int (int c div 2 ^ 8), word_of_int (int c div 2 ^ 0)]"
    by (simp add: i2osp4_def)
  also have "\<dots> = counter_bytes (of_nat c)"
    unfolding counter_bytes_def byte [symmetric] drop_bit_0 id_apply by (rule refl)
  finally show ?thesis by (rule sym)
qed

text \<open>
  The stream of mask blocks, and the loop's state in terms of it: the bytes below \<^verbatim>\<open>off\<close> are
  masked, the others untouched.
\<close>

definition mask_byte :: "(u8 list \<Rightarrow> u8 list) \<Rightarrow> u8 list \<Rightarrow> nat \<Rightarrow> u8" where
  "mask_byte H seed i = H (seed @ i2osp4 (i div 32)) ! (i mod 32)"

lemma nth_concat_blocks:
  assumes "\<And>c. length (f c) = 32" and "i < 32 * n"
  shows "concat (map f [0..<n]) ! i = f (i div 32) ! (i mod 32)"
  using assms(2)
proof (induction n)
  case (Suc n)
  have len: "length (concat (map f [0..<n])) = 32 * n"
    by (simp add: length_concat comp_def assms(1) sum_list_triv)
  show ?case
  proof (cases "i < 32 * n")
    case False
    then obtain j where "i = 32 * n + j" "j < 32" using Suc.prems by (metis add_diff_inverse_nat mult_Suc_right nat_add_left_cancel_less add.commute)
    then show ?thesis using len by (simp add: nth_append)
  qed (use Suc len in \<open>simp add: nth_append\<close>)
qed simp

lemma mgf1_bytes:
  assumes "\<And>x. length (H x) = 32"
  shows "mgf1 H seed n = map (mask_byte H seed) [0..<n]"
proof (rule nth_equalityI)
  have len: "length (concat (map (\<lambda>c. H (seed @ i2osp4 c)) [0..<m])) = 32 * m" for m
    by (simp add: length_concat comp_def assms sum_list_triv)
  have n: "n \<le> 32 * ((n + 31) div 32)" by presburger
  then show "length (mgf1 H seed n) = length (map (mask_byte H seed) [0..<n])"
    by (simp add: mgf1_def len)
  show "mgf1 H seed n ! i = map (mask_byte H seed) [0..<n] ! i" if "i < length (mgf1 H seed n)" for i
  proof -
    have "i < n" using that by (simp add: mgf1_def)
    moreover have "i < 32 * ((n + 31) div 32)" using \<open>i < n\<close> n by linarith
    ultimately show ?thesis
      unfolding mgf1_def mask_byte_def by (simp add: nth_concat_blocks assms)
  qed
qed

definition masked_upto :: "(u8 list \<Rightarrow> u8 list) \<Rightarrow> u8 list \<Rightarrow> nat \<Rightarrow> u8 list \<Rightarrow> u8 list" where
  "masked_upto H seed off em = map (\<lambda>i. if i < off then em ! i XOR mask_byte H seed i else em ! i) [0..<length em]"

lemma xor_at_masked:
  "xor_at (32 * c) (H (seed @ i2osp4 c)) (masked_upto H seed (32 * c) em) = masked_upto H seed (32 * Suc c) em"
proof (rule nth_equalityI)
  fix i
  assume "i < length (xor_at (32 * c) (H (seed @ i2osp4 c)) (masked_upto H seed (32 * c) em))"
  then have i: "i < length em" by (simp add: masked_upto_def)
  have "i div 32 = c" "i mod 32 = i - 32 * c" if "32 * c \<le> i" "i < 32 * c + 32"
  proof -
    define j where "j = i - 32 * c"
    have "i = 32 * c + j" "j < 32" using that by (simp_all add: j_def)
    then show "i div 32 = c" "i mod 32 = i - 32 * c" by simp_all
  qed
  with i show "xor_at (32 * c) (H (seed @ i2osp4 c)) (masked_upto H seed (32 * c) em) ! i = masked_upto H seed (32 * Suc c) em ! i"
    by (auto simp: xor_at_def masked_upto_def mask_byte_def)
qed (simp add: masked_upto_def)

lemma mgf1_xor_correct:
  assumes "\<And>x. sha256 x = Some (H x)"
  shows "32 * c < 2 ^ 32 \<Longrightarrow> length em + 32 < 2 ^ 32 \<Longrightarrow>
    mgf1_xor sha256 seed (of_nat c) (32 * c) (masked_upto H seed (32 * c) em) = Some (masked_upto H seed (length em) em)"
proof (induction "length em - 32 * c" arbitrary: c rule: less_induct)
  case less
  have len: "length (masked_upto H seed n em) = length em" for n by (simp add: masked_upto_def)
  show ?case
  proof (cases "32 * c < length em")
    case True
    have off: "32 * c + 32 = 32 * Suc c" by simp
    have "mgf1_xor sha256 seed (of_nat c) (32 * c) (masked_upto H seed (32 * c) em)
        = mgf1_xor sha256 seed (of_nat (Suc c)) (32 * Suc c) (masked_upto H seed (32 * Suc c) em)"
      using True less.prems
      by (subst mgf1_xor.simps)
        (simp add: len assms counter_bytes_i2osp4 xor_at_masked off add.commute [of _ 1] del: mult_Suc_right)
    also have "\<dots> = Some (masked_upto H seed (length em) em)"
      by (rule less.hyps) (use True less.prems in simp_all)
    finally show ?thesis .
  next
    case False
    then have "masked_upto H seed (32 * c) em = masked_upto H seed (length em) em"
      by (simp add: masked_upto_def)
    then show ?thesis using False len by (subst mgf1_xor.simps) simp
  qed
qed

section \<open>Encoding and verification\<close>

text \<open>What the encoder is given: a working SHA-256, 32-byte strings and room for the encoding.\<close>

definition pss_args :: "sha \<Rightarrow> (u8 list \<Rightarrow> u8 list) \<Rightarrow> nat \<Rightarrow> u8 list \<Rightarrow> u8 list \<Rightarrow> bool" where
  "pss_args sha256 H limbs mhash salt \<longleftrightarrow> (\<forall>x. sha256 x = Some (H x) \<and> length (H x) = 32) \<and>
     length mhash = 32 \<and> length salt = 32 \<and> 9 \<le> limbs \<and> limbs \<le> 64"

lemma pss_encode_eq:
  assumes "pss_args sha256 H limbs mhash salt"
  defines "db \<equiv> replicate (8 * limbs - 66) 0 @ [1] @ salt" and "h \<equiv> H (replicate 8 0 @ mhash @ salt)"
  defines "em \<equiv> masked_upto H h (8 * limbs - 33) db"
  shows "pss_encode sha256 limbs mhash salt = Some (em[0 := em ! 0 AND 0x7f] @ h @ [0xbc])"
    and "length db = 8 * limbs - 33" and "length em = 8 * limbs - 33"
proof -
  have a: "\<And>x. sha256 x = Some (H x)" and len: "length salt = 32" "9 \<le> limbs" "limbs \<le> 64"
    using assms(1) by (auto simp: pss_args_def)
  show db: "length db = 8 * limbs - 33" using len by (simp add: db_def)
  then show "length em = 8 * limbs - 33" by (simp add: em_def masked_upto_def)
  have "masked_upto H h 0 db = db" by (simp add: masked_upto_def map_nth)
  then have "mgf1_xor sha256 h 0 0 db = Some em"
    using mgf1_xor_correct [of sha256 H 0 db h, OF a] len by (simp add: db em_def)
  moreover have "limbs * 8 - 32 - 1 - 32 - 1 = 8 * limbs - 66" by simp
  ultimately show "pss_encode sha256 limbs mhash salt = Some (em[0 := em ! 0 AND 0x7f] @ h @ [0xbc])"
    unfolding pss_encode_def Let_def by (simp add: a db_def flip: h_def)
qed

lemma byte_unmask: "(((d XOR m) AND 0x7f) XOR m) AND 0x7f = (d AND 0x7f :: u8)"
  by (rule bit_eqI) (auto simp: bit_simps)

lemma unmask_masked:
  fixes H :: "u8 list \<Rightarrow> u8 list" and h :: "u8 list"
  assumes "length db = n" and "0 < n" and "db ! 0 AND 0x7f = db ! 0"
  defines "em \<equiv> masked_upto H h n db"
  defines "r \<equiv> map2 (XOR) (em[0 := em ! 0 AND 0x7f]) (map (mask_byte H h) [0..<n])"
  shows "r[0 := r ! 0 AND 0x7f] = db"
proof (rule nth_equalityI)
  have len: "length em = n" "length r = n" using assms(1) by (simp_all add: em_def masked_upto_def r_def)
  show "length (r[0 := r ! 0 AND 0x7f]) = length db" using len assms(1) by simp
  fix i
  assume "i < length (r[0 := r ! 0 AND 0x7f])"
  then have i: "i < n" using len by simp
  have em: "em ! j = db ! j XOR mask_byte H h j" if "j < n" for j
    using that assms(1) by (simp add: em_def masked_upto_def)
  show "r[0 := r ! 0 AND 0x7f] ! i = db ! i"
  proof (cases "i = 0")
    case True
    have "r ! 0 = ((db ! 0 XOR mask_byte H h 0) AND 0x7f) XOR mask_byte H h 0"
      using assms(2) len em [of 0] by (simp add: r_def)
    then show ?thesis using True len assms(2,3) by (simp only: nth_list_update_eq byte_unmask)
  next
    case False
    then have "r ! i = (db ! i XOR mask_byte H h i) XOR mask_byte H h i"
      using i len em [of i] by (simp add: r_def)
    then show ?thesis using False by (simp add: xor.assoc)
  qed
qed

lemma pss_encode_verifies:
  assumes "pss_args sha256 H limbs mhash salt"
  obtains EM where "pss_encode sha256 limbs mhash salt = Some EM"
    and "length EM = 8 * limbs" and "emsa_pss_verify H (8 * limbs) mhash EM" and "hd EM AND 0x80 = 0"
proof -
  define n where "n = 8 * limbs - 33"
  define db where "db = replicate (8 * limbs - 66) (0::u8) @ [1] @ salt"
  define h where "h = H (replicate 8 0 @ mhash @ salt)"
  define em where "em = masked_upto H h n db"
  define M where "M = em[0 := em ! 0 AND 0x7f]"
  have a: "\<And>x. length (H x) = 32" and len: "length salt = 32" "length mhash = 32" "9 \<le> limbs" "limbs \<le> 64"
    using assms(1) by (auto simp: pss_args_def)
  note E = pss_encode_eq [OF assms(1), folded n_def db_def h_def, folded em_def, folded M_def]
  have n: "0 < n" "n - 33 = 8 * limbs - 66" "n - 32 = Suc (8 * limbs - 66)" "8 * limbs = n + 33" "33 \<le> n"
    using len by (simp_all add: n_def)
  have h: "length h = 32" by (simp add: h_def a)
  have M: "length M = n" using E(3) by (simp add: M_def)
  have parts: "take n (M @ h @ [0xbc]) = M" "take 32 (drop n (M @ h @ [0xbc])) = h"
    using M h by simp_all
  have d0: "db ! 0 AND 0x7f = db ! 0"
    by (cases "8 * limbs - 66") (simp_all add: db_def)
  have hd: "hd (M @ h @ [0xbc]) AND 0x80 = 0"
  proof -
    have "hd (M @ h @ [0xbc]) = em ! 0 AND 0x7f" using n(1) E(3) by (simp add: M_def hd_conv_nth nth_append)
    moreover have "(x AND 0x7f) AND 0x80 = (0::u8)" for x by (simp add: and.assoc)
    ultimately show ?thesis by simp
  qed
  define r where "r = map2 (XOR) M (map (mask_byte H h) [0..<n])"
  have r: "r[0 := r ! 0 AND 0x7f] = db"
    unfolding r_def M_def em_def by (rule unmask_masked [OF E(2) n(1) d0])
  have dbs: "take (n - 33) db = replicate (n - 33) 0" "db ! (n - 33) = 1" "drop (n - 32) db = salt"
    unfolding n(2,3) by (simp_all add: db_def nth_append)
  have "emsa_pss_verify H (8 * limbs) mhash (M @ h @ [0xbc])"
    unfolding emsa_pss_verify_def Let_def n_def [symmetric] parts mgf1_bytes [OF a] r_def [symmetric] r dbs
    using M h hd len n(5) by (simp add: n(4) h_def)
  with that [OF E(1)] M h hd n(4) show thesis by simp
qed

lemma be_val_top_bit:
  assumes "length EM = 8 * k" and "0 < k" and "hd EM AND 0x80 = (0::u8)"
  shows "be_val EM < 2 ^ (64 * k - 1)"
proof -
  obtain b bs where EM: "EM = b # bs" using assms(1,2) by (cases EM) auto
  have l: "length bs = 8 * k - 1" using assms(1) by (simp add: EM)
  have "b AND 0x80 = 0" using assms(3) by (simp add: EM)
  then have nb: "\<not> bit b 7" by (auto simp: bit_eq_iff bit_simps dest: spec [of _ 7])
  have "b = b AND mask 7"
    by (rule bit_eqI) (use nb in \<open>auto simp: bit_simps less_Suc_eq numeral_eq_Suc\<close>)
  then have "uint b = uint b mod 2 ^ 7" using uint_and_mask [of b 7] by simp
  then have "uint b \<le> 2 ^ 7 - 1" by (metis pos_mod_bound zle_diff1_eq zero_less_numeral zero_less_power)
  then have "uint b * 2 ^ (8 * length bs) \<le> (2 ^ 7 - 1) * 2 ^ (8 * length bs)" by (intro mult_right_mono) simp_all
  moreover have "be_val bs < 2 ^ (8 * length bs)" using le_val_less [of "rev bs"] by (simp add: be_val_def)
  moreover have "be_val EM = uint b * 2 ^ (8 * length bs) + be_val bs"
    using be_val_append [of "[b]" bs] by (simp add: EM be_val_def)
  ultimately have "be_val EM < (2 ^ 7 - 1) * 2 ^ (8 * length bs) + 2 ^ (8 * length bs)" by linarith
  also have "\<dots> = 2 ^ 7 * 2 ^ (8 * length bs)" by simp
  also have "\<dots> = 2 ^ (64 * k - 1)"
    unfolding power_add [symmetric] using assms(2) l by (intro arg_cong [of _ _ "power 2"]) simp
  finally show ?thesis .
qed

lemma pss_signs:
  assumes "pss_args sha256 H (key_limbs key) mhash salt" and "rsa_key_wf key" and "key_ok key"
    and "2 ^ (64 * key_limbs key - 1) \<le> le_val (key_n key)"
  shows "\<exists>sig key' EM. viltrum_rsa_pss_sha256 sha256 key mhash salt = Some (0, Some sig, key') \<and>
    rsa_key_wf key' \<and> length sig = 8 * key_limbs key \<and> length EM = 8 * key_limbs key \<and>
    be_val EM = be_val sig ^ unat (key_e key) mod le_val (key_n key) \<and>
    emsa_pss_verify H (8 * key_limbs key) mhash EM"
proof -
  from assms(1) obtain EM where EM: "pss_encode sha256 (key_limbs key) mhash salt = Some EM"
    "length EM = 8 * key_limbs key" "emsa_pss_verify H (8 * key_limbs key) mhash EM" "hd EM AND 0x80 = 0"
    by (rule pss_encode_verifies)
  have "be_val EM < 2 ^ (64 * key_limbs key - 1)"
    using EM(2,4) assms(1) by (intro be_val_top_bit) (simp_all add: pss_args_def)
  then have "be_val EM < le_val (key_n key)" using assms(4) by linarith
  from viltrum_rsa_private_correct [OF assms(2) EM(2) this] EM assms(3) show ?thesis
    unfolding viltrum_rsa_pss_sha256_def by fastforce
qed

text \<open>Whatever SHA-256 does, signing returns, keeps the key well-formed and fills the whole signature.\<close>

lemma length_mgf1_xor: "mgf1_xor sha256 hash c off em = Some em' \<Longrightarrow> length em' = length em"
proof (induction sha256 hash c off em rule: mgf1_xor.induct)
  case (1 sha256 hash c off em)
  show ?case
  proof (cases "off < length em")
    case True
    then obtain msk where "sha256 (hash @ counter_bytes c) = Some msk"
      using "1.prems" by (subst (asm) mgf1_xor.simps) (auto split: option.splits)
    then show ?thesis
      using True 1 by (subst (asm) (2) mgf1_xor.simps) simp
  next
    case False
    then show ?thesis
      using "1.prems" by (subst (asm) mgf1_xor.simps) simp
  qed
qed

lemma length_pss_encode:
  assumes "\<And>m d. sha256 m = Some d \<Longrightarrow> length d = 32" "length salt = 32" "9 \<le> limbs"
    and "pss_encode sha256 limbs mhash salt = Some em"
  shows "length em = 8 * limbs"
  using assms by (auto simp: pss_encode_def Let_def split: option.splits dest!: length_mgf1_xor)

lemma pss_returns:
  assumes "\<And>m d. sha256 m = Some d \<Longrightarrow> length d = 32" "length salt = 32" "rsa_key_wf key" "9 \<le> key_limbs key"
  shows "\<exists>ret sig key'. viltrum_rsa_pss_sha256 sha256 key mhash salt = Some (ret, sig, key') \<and> rsa_key_wf key' \<and>
    (ret = 0 \<longrightarrow> (\<exists>s. sig = Some s \<and> length s = 8 * key_limbs key))"
proof (cases "key_ok key \<and> pss_encode sha256 (key_limbs key) mhash salt \<noteq> None")
  case True
  then obtain em where em: "key_ok key" "pss_encode sha256 (key_limbs key) mhash salt = Some em"
    by auto
  have len: "length em = 8 * key_limbs key" "length (key_n key) = key_limbs key"
    using length_pss_encode [OF assms(1,2,4) em(2)] assms(3) rsa_key_staticD(2) by (auto simp: rsa_key_wf_def)
  show ?thesis
  proof (cases "be_val em < le_val (key_n key)")
    case True
    then show ?thesis
      using viltrum_rsa_private_correct [OF assms(3) len(1)] em by (fastforce simp: viltrum_rsa_pss_sha256_def)
  next
    case False
    then have "viltrum_rsa_private key em = Some (- 1, None, key)"
      using private_range [OF len(2,1)] by (simp add: viltrum_rsa_private_def Let_def case_prod_beta)
    then show ?thesis
      using em assms(3) by (simp add: viltrum_rsa_pss_sha256_def)
  qed
next
  case False
  then show ?thesis
    using assms(3) by (auto simp: viltrum_rsa_pss_sha256_def)
qed

section \<open>A library that can fail\<close>

text \<open>The digest where the library gives one.\<close>

definition digest :: "sha \<Rightarrow> u8 list \<Rightarrow> u8 list" where
  "digest sha256 x = (case sha256 x of None \<Rightarrow> replicate 32 0 | Some d \<Rightarrow> d)"

lemma length_digest: "(\<And>m d. sha256 m = Some d \<Longrightarrow> length d = 32) \<Longrightarrow> length (digest sha256 x) = 32"
  by (simp add: digest_def split: option.split)

text \<open>The calls of the library that an encoding needs.\<close>

definition pss_hashes :: "sha \<Rightarrow> nat \<Rightarrow> u8 list \<Rightarrow> u8 list \<Rightarrow> bool" where
  "pss_hashes sha256 limbs mhash salt \<longleftrightarrow> (\<exists>h. sha256 (replicate 8 0 @ mhash @ salt) = Some h \<and>
     (\<forall>c < (8 * limbs - 33 + 31) div 32. sha256 (h @ i2osp4 c) \<noteq> None))"

lemma blocks_upto: "32 * k < n \<longleftrightarrow> k < (n + 31) div (32 :: nat)"
  unfolding Suc_le_eq [symmetric] by (simp add: less_eq_div_iff_mult_less_eq mult.commute)

lemma mgf1_xor_partial:
  fixes sha256 :: sha
  assumes "length em + 32 < 2 ^ 32"
  shows "mgf1_xor sha256 seed (of_nat k) (32 * k) em =
    (if \<forall>c. k \<le> c \<and> 32 * c < length em \<longrightarrow> sha256 (seed @ i2osp4 c) \<noteq> None
     then mgf1_xor (\<lambda>x. Some (digest sha256 x)) seed (of_nat k) (32 * k) em else None)"
  using assms
proof (induction "length em - 32 * k" arbitrary: k em rule: less_induct)
  case less
  show ?case
  proof (cases "32 * k < length em")
    case True
    then have i: "counter_bytes (of_nat k) = i2osp4 k"
      using less.prems by (intro counter_bytes_i2osp4) simp
    have off: "32 * k + 32 = 32 * Suc k" "of_nat k + 1 = (of_nat (Suc k) :: u32)"
      by simp_all
    have split: "(\<forall>c. k \<le> c \<and> 32 * c < length em \<longrightarrow> sha256 (seed @ i2osp4 c) \<noteq> None) \<longleftrightarrow>
        sha256 (seed @ i2osp4 k) \<noteq> None \<and> (\<forall>c. Suc k \<le> c \<and> 32 * c < length em \<longrightarrow> sha256 (seed @ i2osp4 c) \<noteq> None)"
      using True by (metis Suc_leD Suc_leI le_neq_implies_less order_refl)
    have step: "mgf1_xor f seed (of_nat k) (32 * k) em = (case f (seed @ i2osp4 k) of None \<Rightarrow> None
        | Some msk \<Rightarrow> mgf1_xor f seed (of_nat (Suc k)) (32 * Suc k) (xor_at (32 * k) msk em))" for f
      using True by (subst mgf1_xor.simps) (simp only: i off if_True)
    show ?thesis
    proof (cases "sha256 (seed @ i2osp4 k)")
      case None
      then show ?thesis
        unfolding split by (simp add: step [of sha256])
    next
      case (Some msk)
      have "digest sha256 (seed @ i2osp4 k) = msk"
        using Some by (simp add: digest_def)
      moreover have "length em - 32 * Suc k < length em - 32 * k"
        using True by simp
      ultimately show ?thesis
        unfolding split using less.hyps [of "xor_at (32 * k) msk em" "Suc k"] less.prems Some
        by (auto simp add: step simp del: mult_Suc_right of_nat_Suc)
    qed
  next
    case False
    then show ?thesis
      by (simp add: mgf1_xor.simps [of _ seed "of_nat k" "32 * k" em])
  qed
qed

lemma pss_encode_partial:
  assumes "9 \<le> limbs" "limbs \<le> 64" "length salt = 32"
  shows "pss_encode sha256 limbs mhash salt =
    (if pss_hashes sha256 limbs mhash salt then pss_encode (\<lambda>x. Some (digest sha256 x)) limbs mhash salt else None)"
proof (cases "sha256 (replicate 8 0 @ mhash @ salt)")
  case None
  then show ?thesis
    by (simp add: pss_encode_def pss_hashes_def)
next
  case (Some h)
  let ?em = "replicate (limbs * 8 - 32 - 1 - 32 - 1) 0 @ [1] @ salt :: u8 list"
  have len: "length ?em = 8 * limbs - 33"
    using assms by simp
  have "pss_hashes sha256 limbs mhash salt \<longleftrightarrow> (\<forall>c. 0 \<le> c \<and> 32 * c < length ?em \<longrightarrow> sha256 (h @ i2osp4 c) \<noteq> None)"
    unfolding len blocks_upto by (simp add: pss_hashes_def Some del: not_None_eq)
  moreover have "length ?em + 32 < 2 ^ 32"
    unfolding len using assms by simp
  ultimately have "mgf1_xor sha256 h 0 0 ?em =
      (if pss_hashes sha256 limbs mhash salt then mgf1_xor (\<lambda>x. Some (digest sha256 x)) h 0 0 ?em else None)"
    using mgf1_xor_partial [of ?em sha256 h 0] by auto
  moreover have "digest sha256 (replicate 8 0 @ mhash @ salt) = h"
    using Some by (simp add: digest_def)
  ultimately show ?thesis
    by (simp add: pss_encode_def Some Let_def)
qed

section \<open>Properties\<close>

text \<open>
  The encoder is total and its output is accepted by the EMSA-PSS verifier of RFC 8017 for
  the same message hash; it has the modulus' length and its top bit is clear.
\<close>

theorem pss_encode_roundtrip:
  assumes "pss_args sha256 H limbs mhash salt"
  shows "\<exists>EM. pss_encode sha256 limbs mhash salt = Some EM \<and> length EM = 8 * limbs \<and>
    be_val EM < 2 ^ (64 * limbs - 1) \<and> emsa_pss_verify H (8 * limbs) mhash EM"
proof -
  from assms obtain EM where EM: "pss_encode sha256 limbs mhash salt = Some EM" "length EM = 8 * limbs"
    "emsa_pss_verify H (8 * limbs) mhash EM" "hd EM AND 0x80 = 0"
    by (rule pss_encode_verifies)
  moreover have "be_val EM < 2 ^ (64 * limbs - 1)"
    using EM(2,4) assms by (intro be_val_top_bit) (simp_all add: pss_args_def)
  ultimately show ?thesis by blast
qed

text \<open>A digest for the witnesses: any function with 32-byte values serves.\<close>

definition small_hash :: "u8 list \<Rightarrow> u8 list" where
  "small_hash x = replicate 31 (fold (+) x 0) @ [of_nat (length x)]"

theorem pss_encode_roundtrip_witness:
  "\<exists>EM. pss_encode (\<lambda>x. Some (small_hash x)) 16 (replicate 32 7) (replicate 32 9) = Some EM \<and>
    length EM = 128 \<and> be_val EM < 2 ^ 1023 \<and> emsa_pss_verify small_hash 128 (replicate 32 7) EM"
proof -
  have "pss_args (\<lambda>x. Some (small_hash x)) small_hash 16 (replicate 32 7) (replicate 32 9)"
    by (simp add: pss_args_def small_hash_def)
  from pss_encode_roundtrip [OF this] show ?thesis by simp
qed

text \<open>
  C10. A signature verifies: with a well-formed key whose modulus fills its limbs,
  \<^verbatim>\<open>viltrum_rsa_pss_sha256\<close> returns 0 and the signature's \<open>e\<close>-th power modulo \<open>n\<close> is an encoded
  message that RFC 8017's verifier accepts for the hash that was signed.
\<close>

theorem pss_signature_verifies:
  assumes "pss_args sha256 H (key_limbs key) mhash salt" and "rsa_key_wf key" and "key_ok key"
    and "2 ^ (64 * key_limbs key - 1) \<le> le_val (key_n key)"
  shows "\<exists>sig key' EM. viltrum_rsa_pss_sha256 sha256 key mhash salt = Some (0, Some sig, key') \<and>
    rsa_key_wf key' \<and> length sig = 8 * key_limbs key \<and> length EM = 8 * key_limbs key \<and>
    be_val EM = be_val sig ^ unat (key_e key) mod le_val (key_n key) \<and>
    emsa_pss_verify H (8 * key_limbs key) mhash EM"
  by (rule pss_signs [OF assms])

theorem pss_signature_verifies_witness:
  "\<exists>key sig key' EM. viltrum_rsa_load int_lib demo_pk [2] = Some ((0, key), []) \<and>
    viltrum_rsa_pss_sha256 (\<lambda>x. Some (small_hash x)) key (replicate 32 7) (replicate 32 9) = Some (0, Some sig, key') \<and>
    be_val EM = be_val sig ^ unat (key_e key) mod le_val (key_n key) \<and>
    emsa_pss_verify small_hash (8 * key_limbs key) (replicate 32 7) EM"
proof -
  obtain key where key: "viltrum_rsa_load int_lib demo_pk [2] = Some ((0, key), [])" using demo_load by blast
  from viltrum_rsa_load_correct [OF int_lib_spec demo_pk_valid this]
  have wf: "rsa_key_wf key" "key_ok key" "16 \<le> key_limbs key" "key_limbs key \<le> 64"
    "2 ^ (64 * key_limbs key - 1) \<le> le_val (key_n key)" by auto
  have "pss_args (\<lambda>x. Some (small_hash x)) small_hash (key_limbs key) (replicate 32 7) (replicate 32 9)"
    using wf(3,4) by (simp add: pss_args_def small_hash_def)
  from pss_signature_verifies [OF this wf(1,2,5)] key show ?thesis by blast
qed

text \<open>
  C27. Every way the call fails and no other: for a key as the load leaves it (well-formed if \<^verbatim>\<open>ok\<close>) and digests of 32
  bytes, the call signs exactly when the key is \<^verbatim>\<open>ok\<close>, SHA-256 of the salted message succeeds and so does each of the
  SHA-256 calls of MGF1, one for every 32 bytes of the data block. Whichever of them fails, the result is -1, there is no
  signature and the key is as before, blinding included.
\<close>

theorem pss_error_paths:
  assumes "key_ok key \<longrightarrow> rsa_key_wf key \<and> 9 \<le> key_limbs key \<and> key_limbs key \<le> 64 \<and> 2 ^ (64 * key_limbs key - 1) \<le> le_val (key_n key)"
    and "\<And>m d. sha256 m = Some d \<Longrightarrow> length d = 32" "length mhash = 32" "length salt = 32"
  shows "if key_ok key \<and> (\<exists>h. sha256 (replicate 8 0 @ mhash @ salt) = Some h \<and>
        (\<forall>c < (8 * key_limbs key - 33 + 31) div 32. sha256 (h @ i2osp4 c) \<noteq> None))
    then \<exists>sig key'. viltrum_rsa_pss_sha256 sha256 key mhash salt = Some (0, Some sig, key') \<and> length sig = 8 * key_limbs key
    else viltrum_rsa_pss_sha256 sha256 key mhash salt = Some (- 1, None, key)"
proof (cases "key_ok key")
  case True
  then have key: "rsa_key_wf key" "9 \<le> key_limbs key" "key_limbs key \<le> 64" "2 ^ (64 * key_limbs key - 1) \<le> le_val (key_n key)"
    using assms(1) by auto
  have args: "pss_args (\<lambda>x. Some (digest sha256 x)) (digest sha256) (key_limbs key) mhash salt"
    using assms(2-4) key by (simp add: pss_args_def length_digest)
  note enc = pss_encode_partial [of "key_limbs key" salt sha256 mhash, OF key(2,3) assms(4)]
  show ?thesis
  proof (cases "pss_hashes sha256 (key_limbs key) mhash salt")
    case ok: True
    then have "viltrum_rsa_pss_sha256 sha256 key mhash salt = viltrum_rsa_pss_sha256 (\<lambda>x. Some (digest sha256 x)) key mhash salt"
      using enc by (simp add: viltrum_rsa_pss_sha256_def)
    then show ?thesis
      using pss_signs [OF args key(1) True key(4)] True ok unfolding pss_hashes_def [symmetric] by auto
  next
    case False
    then show ?thesis
      using enc unfolding viltrum_rsa_pss_sha256_def pss_hashes_def [symmetric] by auto
  qed
qed (simp add: viltrum_rsa_pss_sha256_def)

text \<open>A library whose third hash of MGF1 fails.\<close>

definition failing_hash :: sha where
  "failing_hash x = (if length x = 36 \<and> last x = 2 then None else Some (small_hash x))"

theorem pss_error_paths_witness:
  "\<exists>key. viltrum_rsa_load int_lib demo_pk [2] = Some ((0, key), []) \<and>
    viltrum_rsa_pss_sha256 failing_hash key (replicate 32 7) (replicate 32 9) = Some (- 1, None, key) \<and>
    (\<exists>sig key'. viltrum_rsa_pss_sha256 (\<lambda>x. Some (small_hash x)) key (replicate 32 7) (replicate 32 9) = Some (0, Some sig, key'))"
proof -
  obtain key where key: "viltrum_rsa_load int_lib demo_pk [2] = Some ((0, key), [])" using demo_load by blast
  from viltrum_rsa_load_correct [OF int_lib_spec demo_pk_valid this]
  have wf: "rsa_key_wf key" "key_ok key" "16 \<le> key_limbs key" "key_limbs key \<le> 64"
    "2 ^ (64 * key_limbs key - 1) \<le> le_val (key_n key)" by auto
  have len: "failing_hash m = Some d \<Longrightarrow> length d = 32" "Some (small_hash m) = Some d \<Longrightarrow> length d = 32" for m d
    by (auto simp: failing_hash_def small_hash_def split: if_splits)
  have "i2osp4 2 = [0, 0, 0, 2]"
    using counter_bytes_i2osp4 [of 2] by (simp add: counter_bytes_def)
  then have "length h = 32 \<Longrightarrow> failing_hash (h @ i2osp4 2) = None" for h
    by (simp add: failing_hash_def)
  moreover have "2 < (8 * key_limbs key - 33 + 31) div 32"
    using wf(3) by simp
  ultimately have "\<not> (\<exists>h. failing_hash (replicate 8 0 @ replicate 32 7 @ replicate 32 9) = Some h \<and>
      (\<forall>c < (8 * key_limbs key - 33 + 31) div 32. failing_hash (h @ i2osp4 c) \<noteq> None))"
    using len(1) by blast
  then have "viltrum_rsa_pss_sha256 failing_hash key (replicate 32 7) (replicate 32 9) = Some (- 1, None, key)"
    using pss_error_paths [of key failing_hash "replicate 32 7" "replicate 32 9"] len(1) wf by simp
  moreover have "\<exists>sig key'. viltrum_rsa_pss_sha256 (\<lambda>x. Some (small_hash x)) key (replicate 32 7) (replicate 32 9) = Some (0, Some sig, key')"
    using pss_error_paths [of key "\<lambda>x. Some (small_hash x)" "replicate 32 7" "replicate 32 9"] len(2) wf by auto
  ultimately show ?thesis
    using key by blast
qed

end
