(* ===== verification/Fe25519.thy ===== *)
theory Fe25519
  imports Prelude
begin

unbundle bit_operations_syntax

text \<open>
  The field of X25519, \<^verbatim>\<open>src/engine/x25519.h\<close> up to \<^verbatim>\<open>viltrum_fe_cswap\<close>: an element is
  five 64-bit limbs of radix \<open>2 ^ 51\<close> (\<^verbatim>\<open>typedef uint64_t viltrum_fe[5]\<close>), products are formed
  in 128-bit sums. Every operation keeps the C widths, so a wrap-around would show. The
  lemmas say that under the limb bounds the ladder keeps (\<open>fe_tight\<close> after a product,
  \<open>fe_loose\<close> after a sum or a difference) nothing wraps and each operation computes the
  field operation modulo \<open>2 ^ 255 - 19\<close>.
\<close>

section \<open>Operations\<close>

datatype fe = Fe u64 u64 u64 u64 u64

definition VILTRUM_FE_MASK :: u64 where
  "VILTRUM_FE_MASK = 0x7ffffffffffff"

fun viltrum_fe_copy :: "fe \<Rightarrow> fe" where
  "viltrum_fe_copy (Fe a0 a1 a2 a3 a4) = Fe a0 a1 a2 a3 a4"

fun viltrum_fe_add :: "fe \<Rightarrow> fe \<Rightarrow> fe" where
  "viltrum_fe_add (Fe a0 a1 a2 a3 a4) (Fe b0 b1 b2 b3 b4) =
     Fe (a0 + b0) (a1 + b1) (a2 + b2) (a3 + b3) (a4 + b4)"

fun viltrum_fe_sub :: "fe \<Rightarrow> fe \<Rightarrow> fe" where
  "viltrum_fe_sub (Fe a0 a1 a2 a3 a4) (Fe b0 b1 b2 b3 b4) =
     Fe (a0 + 0xfffffffffffda - b0)
        (a1 + 0xffffffffffffe - b1)
        (a2 + 0xffffffffffffe - b2)
        (a3 + 0xffffffffffffe - b3)
        (a4 + 0xffffffffffffe - b4)"

definition viltrum_fe_carry :: "u128 \<Rightarrow> u128 \<Rightarrow> u128 \<Rightarrow> u128 \<Rightarrow> u128 \<Rightarrow> fe" where
  "viltrum_fe_carry t0 t1 t2 t3 t4 =
     (let t1 = t1 + wide (narrow (drop_bit 51 t0));
          t2 = t2 + wide (narrow (drop_bit 51 t1));
          t3 = t3 + wide (narrow (drop_bit 51 t2));
          t4 = t4 + wide (narrow (drop_bit 51 t3));
          r0 = narrow t0 AND VILTRUM_FE_MASK;
          r1 = narrow t1 AND VILTRUM_FE_MASK;
          r2 = narrow t2 AND VILTRUM_FE_MASK;
          r3 = narrow t3 AND VILTRUM_FE_MASK;
          r4 = narrow t4 AND VILTRUM_FE_MASK;
          r0 = r0 + narrow (drop_bit 51 t4) * 19;
          r1 = r1 + drop_bit 51 r0
      in Fe (r0 AND VILTRUM_FE_MASK) r1 r2 r3 r4)"

fun viltrum_fe_mul :: "fe \<Rightarrow> fe \<Rightarrow> fe" where
  "viltrum_fe_mul (Fe a0 a1 a2 a3 a4) (Fe b0 b1 b2 b3 b4) =
     (let c1 = b1 * 19; c2 = b2 * 19; c3 = b3 * 19; c4 = b4 * 19;
          t0 = wide a0 * wide b0 + wide a1 * wide c4 + wide a2 * wide c3
             + wide a3 * wide c2 + wide a4 * wide c1;
          t1 = wide a0 * wide b1 + wide a1 * wide b0 + wide a2 * wide c4
             + wide a3 * wide c3 + wide a4 * wide c2;
          t2 = wide a0 * wide b2 + wide a1 * wide b1 + wide a2 * wide b0
             + wide a3 * wide c4 + wide a4 * wide c3;
          t3 = wide a0 * wide b3 + wide a1 * wide b2 + wide a2 * wide b1
             + wide a3 * wide b0 + wide a4 * wide c4;
          t4 = wide a0 * wide b4 + wide a1 * wide b3 + wide a2 * wide b2
             + wide a3 * wide b1 + wide a4 * wide b0
      in viltrum_fe_carry t0 t1 t2 t3 t4)"

fun viltrum_fe_sq :: "fe \<Rightarrow> fe" where
  "viltrum_fe_sq (Fe a0 a1 a2 a3 a4) =
     (let d0 = a0 * 2; d1 = a1 * 2; d2 = a2 * 2 * 19; d3 = a3 * 19; d4 = a4 * 19;
          t0 = wide a0 * wide a0 + wide d1 * wide d4 + wide d2 * wide a3;
          t1 = wide d0 * wide a1 + wide d2 * wide a4 + wide a3 * wide d3;
          t2 = wide d0 * wide a2 + wide a1 * wide a1 + wide (a3 * 2) * wide d4;
          t3 = wide d0 * wide a3 + wide d1 * wide a2 + wide a4 * wide d4;
          t4 = wide d0 * wide a4 + wide d1 * wide a3 + wide a2 * wide a2
      in viltrum_fe_carry t0 t1 t2 t3 t4)"

text \<open>The loop squares once before it counts from 1, so \<open>n \<le> 1\<close> squares once.\<close>

definition viltrum_fe_sq_n :: "fe \<Rightarrow> nat \<Rightarrow> fe" where
  "viltrum_fe_sq_n a n = (viltrum_fe_sq ^^ (n - 1)) (viltrum_fe_sq a)"

fun viltrum_fe_mul_a24 :: "fe \<Rightarrow> fe" where
  "viltrum_fe_mul_a24 (Fe a0 a1 a2 a3 a4) =
     viltrum_fe_carry (wide a0 * 121665) (wide a1 * 121665) (wide a2 * 121665)
       (wide a3 * 121665) (wide a4 * 121665)"

fun viltrum_fe_cswap :: "fe \<Rightarrow> fe \<Rightarrow> u64 \<Rightarrow> fe \<times> fe" where
  "viltrum_fe_cswap (Fe a0 a1 a2 a3 a4) (Fe b0 b1 b2 b3 b4) swap =
     (let mask = 0 - swap;
          x0 = (a0 XOR b0) AND mask; x1 = (a1 XOR b1) AND mask; x2 = (a2 XOR b2) AND mask;
          x3 = (a3 XOR b3) AND mask; x4 = (a4 XOR b4) AND mask
      in (Fe (a0 XOR x0) (a1 XOR x1) (a2 XOR x2) (a3 XOR x3) (a4 XOR x4),
          Fe (b0 XOR x0) (b1 XOR x1) (b2 XOR x2) (b3 XOR x3) (b4 XOR x4)))"

section \<open>Values and bounds\<close>

definition p25519 :: int where
  "p25519 = 2 ^ 255 - 19"

fun fe_val :: "fe \<Rightarrow> int" where
  "fe_val (Fe a0 a1 a2 a3 a4) =
     uint a0 + 2 ^ 51 * uint a1 + 2 ^ 102 * uint a2 + 2 ^ 153 * uint a3 + 2 ^ 204 * uint a4"

fun fe_below :: "int \<Rightarrow> fe \<Rightarrow> bool" where
  "fe_below B (Fe a0 a1 a2 a3 a4) \<longleftrightarrow>
     uint a0 < B \<and> uint a1 < B \<and> uint a2 < B \<and> uint a3 < B \<and> uint a4 < B"

definition fe_tight :: "fe \<Rightarrow> bool" where
  "fe_tight a \<longleftrightarrow> fe_below (2 ^ 51 + 2 ^ 13) a"

definition fe_loose :: "fe \<Rightarrow> bool" where
  "fe_loose a \<longleftrightarrow> fe_below (2 ^ 54) a"

lemma fe_tight_loose [simp, intro]: "fe_tight a \<Longrightarrow> fe_loose a"
  by (cases a) (simp add: fe_tight_def fe_loose_def)

lemma fe_val_nonneg [simp]: "0 \<le> fe_val a"
  by (cases a) simp

lemma fe_mask_eq: "VILTRUM_FE_MASK = mask 51"
  by (simp add: VILTRUM_FE_MASK_def mask_numeral)

lemma uint_fe_mask [word_arith]: "uint (x AND VILTRUM_FE_MASK) = uint x mod 2251799813685248"
  using uint_and_mask [of x 51] by (simp add: fe_mask_eq)

lemma fe_mask_less: "uint (x AND VILTRUM_FE_MASK) < 2 ^ 51"
  by (simp add: uint_fe_mask)

lemma uint_narrow_mask [word_arith]:
  "uint (narrow x AND VILTRUM_FE_MASK) = uint x mod 2251799813685248"
  by (simp add: uint_fe_mask uint_narrow mod_mod_cancel)

lemma uint_drop_51 [word_arith]: "uint (drop_bit 51 (w :: 'a::len word)) = uint w div 2251799813685248"
  by (simp add: uint_drop_bit)

section \<open>Carrying\<close>

text \<open>
  One link of the carry chain: the high part of a column sum, cut to 64 bits, is added to
  the next column without loss.
\<close>

lemma uint_carry_link:
  assumes "uint s < 2 ^ 115" and "uint t < 2 ^ 114 + 2 ^ 113"
  shows "uint (t + wide (narrow (drop_bit 51 s))) = uint t + uint s div 2 ^ 51"
proof -
  have b: "uint s div 2 ^ 51 < 2 ^ 64" using assms by simp
  then have "uint (wide (narrow (drop_bit 51 s))) = uint s div 2 ^ 51"
    by (simp add: uint_wide uint_narrow_exact uint_drop_51)
  moreover have "uint t + uint s div 2 ^ 51 < 2 ^ 128"
    using assms b by simp
  ultimately show ?thesis by (subst uint_add_exact) simp_all
qed

lemma carry_link_bound:
  assumes "a < (2::int) ^ 114 + 2 ^ 113" and "0 \<le> b" and "b < 2 ^ 115"
  shows "a + b div 2 ^ 51 < 2 ^ 115"
  using assms by simp

text \<open>The chain as a sum: the carries telescope, and the last one is folded back times 19.\<close>

lemma carry_telescope_open:
  fixes M u0 u1 u2 u3 u4 x1 x2 x3 x4 :: int
  assumes "u1 = x1 + u0 div M" and "u2 = x2 + u1 div M" and "u3 = x3 + u2 div M"
    and "u4 = x4 + u3 div M"
  shows "u0 mod M + M * (u1 mod M) + M ^ 2 * (u2 mod M) + M ^ 3 * (u3 mod M) + M ^ 4 * u4
    = u0 + M * x1 + M ^ 2 * x2 + M ^ 3 * x3 + M ^ 4 * x4"
proof -
  have m: "u mod M = u - M * (u div M)" for u
    by (simp add: minus_mult_div_eq_mod)
  have "x1 = u1 - u0 div M" "x2 = u2 - u1 div M" "x3 = u3 - u2 div M" "x4 = u4 - u3 div M"
    using assms by simp_all
  then show ?thesis
    by (simp only: m) (simp add: algebra_simps power_numeral_reduce)
qed

lemma carry_telescope:
  fixes M u0 u1 u2 u3 u4 x1 x2 x3 x4 :: int
  assumes "u1 = x1 + u0 div M" and "u2 = x2 + u1 div M" and "u3 = x3 + u2 div M"
    and "u4 = x4 + u3 div M"
  shows "u0 mod M + M * (u1 mod M) + M ^ 2 * (u2 mod M) + M ^ 3 * (u3 mod M) + M ^ 4 * (u4 mod M)
      + u4 div M * f
    = u0 + M * x1 + M ^ 2 * x2 + M ^ 3 * x3 + M ^ 4 * x4 - u4 div M * (M ^ 5 - f)"
proof -
  have "M ^ 4 * (u4 mod M) = M ^ 4 * u4 - u4 div M * M ^ 5"
    by (simp add: minus_mult_div_eq_mod [symmetric] right_diff_distrib power_numeral_reduce algebra_simps)
  then show ?thesis
    using carry_telescope_open [OF assms] by (simp add: right_diff_distrib)
qed

lemma fe_carry_low:
  fixes s0 s1 s4 :: u128
  assumes "uint s4 < 2 ^ 110 + 2 ^ 109 + 2 ^ 65"
    and v0_def: "v0 = (narrow s0 AND VILTRUM_FE_MASK) + narrow (drop_bit 51 s4) * 19"
    and w1_def: "w1 = (narrow s1 AND VILTRUM_FE_MASK) + drop_bit 51 v0"
  shows "uint v0 = uint s0 mod 2 ^ 51 + uint s4 div 2 ^ 51 * 19"
    and "uint w1 = uint s1 mod 2 ^ 51 + uint v0 div 2 ^ 51" and "uint w1 < 2 ^ 51 + 2 ^ 13"
proof -
  have c4: "uint s4 div 2 ^ 51 < 2 ^ 59 + 2 ^ 58 + 2 ^ 15" using assms(1) by simp
  have "uint (narrow (drop_bit 51 s4) * 19) = uint s4 div 2 ^ 51 * 19"
    using c4 by (subst uint_mult_exact) (simp_all add: uint_narrow_exact uint_drop_51)
  then show v0: "uint v0 = uint s0 mod 2 ^ 51 + uint s4 div 2 ^ 51 * 19"
    unfolding v0_def using c4 by (subst uint_add_exact) (simp_all add: uint_narrow_mask)
  have bv0: "uint v0 div 2 ^ 51 < 2 ^ 13"
    using uint_64_less [of v0] by simp
  show w1: "uint w1 = uint s1 mod 2 ^ 51 + uint v0 div 2 ^ 51"
    unfolding w1_def using bv0
    by (subst uint_add_exact) (simp_all add: uint_narrow_mask uint_drop_51)
  show "uint w1 < 2 ^ 51 + 2 ^ 13"
    using bv0 by (simp add: w1)
qed

lemma viltrum_fe_carry_correct:
  assumes "uint t0 < 2 ^ 114 + 2 ^ 113" and "uint t1 < 2 ^ 114 + 2 ^ 113"
    and "uint t2 < 2 ^ 114 + 2 ^ 113" and "uint t3 < 2 ^ 114 + 2 ^ 113" and "uint t4 < 2 ^ 110 + 2 ^ 109"
  shows "fe_tight (viltrum_fe_carry t0 t1 t2 t3 t4)"
    and "\<exists>c. fe_val (viltrum_fe_carry t0 t1 t2 t3 t4) =
           uint t0 + 2 ^ 51 * uint t1 + 2 ^ 102 * uint t2 + 2 ^ 153 * uint t3 + 2 ^ 204 * uint t4
             - c * p25519"
proof -
  define s1 s2 s3 s4 where "s1 = t1 + wide (narrow (drop_bit 51 t0))"
    and "s2 = t2 + wide (narrow (drop_bit 51 s1))"
    and "s3 = t3 + wide (narrow (drop_bit 51 s2))"
    and "s4 = t4 + wide (narrow (drop_bit 51 s3))"
  define v0 where "v0 = (narrow t0 AND VILTRUM_FE_MASK) + narrow (drop_bit 51 s4) * 19"
  define w1 where "w1 = (narrow s1 AND VILTRUM_FE_MASK) + drop_bit 51 v0"
  have res: "viltrum_fe_carry t0 t1 t2 t3 t4 =
      Fe (v0 AND VILTRUM_FE_MASK) w1 (narrow s2 AND VILTRUM_FE_MASK)
        (narrow s3 AND VILTRUM_FE_MASK) (narrow s4 AND VILTRUM_FE_MASK)"
    by (simp add: viltrum_fe_carry_def Let_def s1_def s2_def s3_def s4_def v0_def w1_def)
  have u1: "uint s1 = uint t1 + uint t0 div 2 ^ 51"
    unfolding s1_def using assms by (intro uint_carry_link) simp_all
  then have b1: "uint s1 < 2 ^ 115" using assms carry_link_bound by simp
  have u2: "uint s2 = uint t2 + uint s1 div 2 ^ 51"
    unfolding s2_def using assms b1 by (intro uint_carry_link)
  then have b2: "uint s2 < 2 ^ 115" using assms b1 carry_link_bound by simp
  have u3: "uint s3 = uint t3 + uint s2 div 2 ^ 51"
    unfolding s3_def using assms b2 by (intro uint_carry_link)
  then have b3: "uint s3 < 2 ^ 115" using assms b2 carry_link_bound by simp
  have u4: "uint s4 = uint t4 + uint s3 div 2 ^ 51"
    unfolding s4_def using assms b3 by (intro uint_carry_link) simp_all
  then have b4: "uint s4 < 2 ^ 110 + 2 ^ 109 + 2 ^ 65" using assms b3 by simp
  note low = fe_carry_low [OF b4 v0_def w1_def]
  show "fe_tight (viltrum_fe_carry t0 t1 t2 t3 t4)"
    using low(3) by (auto simp: res fe_tight_def intro: less_trans [OF fe_mask_less])
  have "fe_val (viltrum_fe_carry t0 t1 t2 t3 t4) = uint v0 mod 2 ^ 51
      + 2 ^ 51 * (uint s1 mod 2 ^ 51 + uint v0 div 2 ^ 51) + (2 ^ 51) ^ 2 * (uint s2 mod 2 ^ 51)
      + (2 ^ 51) ^ 3 * (uint s3 mod 2 ^ 51) + (2 ^ 51) ^ 4 * (uint s4 mod 2 ^ 51)"
    using low(2) by (simp add: res uint_fe_mask uint_narrow mod_mod_cancel)
  also have "\<dots> = uint t0 mod 2 ^ 51 + 2 ^ 51 * (uint s1 mod 2 ^ 51)
      + (2 ^ 51) ^ 2 * (uint s2 mod 2 ^ 51) + (2 ^ 51) ^ 3 * (uint s3 mod 2 ^ 51)
      + (2 ^ 51) ^ 4 * (uint s4 mod 2 ^ 51) + uint s4 div 2 ^ 51 * 19"
    using mult_div_mod_eq [of "2 ^ 51" "uint v0"] low(1) by (simp only: distrib_left)
  also have "\<dots> = uint t0 + 2 ^ 51 * uint t1 + (2 ^ 51) ^ 2 * uint t2 + (2 ^ 51) ^ 3 * uint t3
      + (2 ^ 51) ^ 4 * uint t4 - uint s4 div 2 ^ 51 * ((2 ^ 51) ^ 5 - 19)"
    by (rule carry_telescope) (fact u1 u2 u3 u4)+
  finally show "\<exists>c. fe_val (viltrum_fe_carry t0 t1 t2 t3 t4) =
           uint t0 + 2 ^ 51 * uint t1 + 2 ^ 102 * uint t2 + 2 ^ 153 * uint t3 + 2 ^ 204 * uint t4
             - c * p25519"
    by (intro exI [of _ "uint s4 div 2 ^ 51"]) (simp add: p25519_def)
qed

lemma viltrum_fe_carry_mod:
  assumes "uint t0 < 2 ^ 114 + 2 ^ 113" and "uint t1 < 2 ^ 114 + 2 ^ 113"
    and "uint t2 < 2 ^ 114 + 2 ^ 113" and "uint t3 < 2 ^ 114 + 2 ^ 113" and "uint t4 < 2 ^ 110 + 2 ^ 109"
  shows "fe_val (viltrum_fe_carry t0 t1 t2 t3 t4) mod p25519 =
      (uint t0 + 2 ^ 51 * uint t1 + 2 ^ 102 * uint t2 + 2 ^ 153 * uint t3 + 2 ^ 204 * uint t4)
        mod p25519"
  using viltrum_fe_carry_correct(2) [OF assms] by (elim exE) (simp only: mod_sub_mult)

section \<open>Field operations\<close>

lemma limb_scale:
  fixes b :: u64
  assumes "uint b < 2 ^ 54"
  shows "uint (b * 19) = uint b * 19" and "uint (b * 2) = uint b * 2"
    and "uint (b * 38) = uint b * 38"
  using assms by (subst uint_mult_exact; simp)+

lemma wide_scale:
  fixes b :: u64
  assumes "uint b < 2 ^ 54"
  shows "wide (b * 19) = wide b * 19" and "wide (b * 2) = wide b * 2"
    and "wide (b * 38) = wide b * 38"
proof -
  have "wide (b * k) = wide b * wide k" if "uint (b * k) = uint b * uint k" for k
    using that by (simp add: word_uint_eq_iff uint_wide_mult uint_wide)
  note * = this [of 19] this [of 2] this [of 38]
  show "wide (b * 19) = wide b * 19" "wide (b * 2) = wide b * 2" "wide (b * 38) = wide b * 38"
    using * limb_scale [OF assms] by (simp_all add: wide_def)
qed

text \<open>A column of a product: five 128-bit products that add up without wrap-around.\<close>

lemma uint_sum5:
  fixes p1 p2 p3 p4 p5 :: u128
  assumes "uint p1 < 2 ^ 125" and "uint p2 < 2 ^ 125" and "uint p3 < 2 ^ 125"
    and "uint p4 < 2 ^ 125" and "uint p5 < 2 ^ 125"
  shows "uint (p1 + p2 + p3 + p4 + p5) = uint p1 + uint p2 + uint p3 + uint p4 + uint p5"
proof -
  have "uint (p1 + p2) = uint p1 + uint p2"
    using assms by (intro uint_add_exact) simp
  moreover from this have "uint (p1 + p2 + p3) = uint p1 + uint p2 + uint p3"
    using assms by (subst uint_add_exact) simp_all
  moreover from this have "uint (p1 + p2 + p3 + p4) = uint p1 + uint p2 + uint p3 + uint p4"
    using assms by (subst uint_add_exact) simp_all
  ultimately show ?thesis
    using assms by (subst uint_add_exact) simp_all
qed

lemma fe_column:
  assumes x: "uint x0 < 2 ^ 54" "uint x1 < 2 ^ 54" "uint x2 < 2 ^ 54" "uint x3 < 2 ^ 54" "uint x4 < 2 ^ 54"
    and y: "uint y0 < B" "uint y1 < B" "uint y2 < B" "uint y3 < B" "uint y4 < B"
    and B: "B \<le> 2 ^ 60"
  defines "t \<equiv> wide x0 * wide y0 + wide x1 * wide y1 + wide x2 * wide y2 + wide x3 * wide y3
      + wide x4 * wide y4"
  shows "uint t = uint x0 * uint y0 + uint x1 * uint y1 + uint x2 * uint y2 + uint x3 * uint y3
      + uint x4 * uint y4"
    and "uint t < 5 * (2 ^ 54 * B)"
proof -
  have m: "uint u * uint v < 2 ^ 54 * B" if "uint u < 2 ^ 54" "uint v < B" for u v :: u64
    using that order_le_less_trans [OF uint_nonneg_less(1) that(2)] by (intro mult_strict_mono) simp_all
  note prods = m [OF x(1) y(1)] m [OF x(2) y(2)] m [OF x(3) y(3)] m [OF x(4) y(4)] m [OF x(5) y(5)]
  show eq: "uint t = uint x0 * uint y0 + uint x1 * uint y1 + uint x2 * uint y2 + uint x3 * uint y3
      + uint x4 * uint y4"
    unfolding t_def using prods B by (subst uint_sum5) (simp_all add: uint_wide_mult)
  show "uint t < 5 * (2 ^ 54 * B)"
    using prods by (simp add: eq)
qed

text \<open>Schoolbook multiplication in radix \<open>2 ^ 51\<close>, the high columns folded with factor 19.\<close>

lemma fe_product_columns:
  fixes a0 a1 a2 a3 a4 b0 b1 b2 b3 b4 :: int
  shows "(a0 * b0 + a1 * (b4 * 19) + a2 * (b3 * 19) + a3 * (b2 * 19) + a4 * (b1 * 19))
    + 2 ^ 51 * (a0 * b1 + a1 * b0 + a2 * (b4 * 19) + a3 * (b3 * 19) + a4 * (b2 * 19))
    + 2 ^ 102 * (a0 * b2 + a1 * b1 + a2 * b0 + a3 * (b4 * 19) + a4 * (b3 * 19))
    + 2 ^ 153 * (a0 * b3 + a1 * b2 + a2 * b1 + a3 * b0 + a4 * (b4 * 19))
    + 2 ^ 204 * (a0 * b4 + a1 * b3 + a2 * b2 + a3 * b1 + a4 * b0)
    = (a0 + 2 ^ 51 * a1 + 2 ^ 102 * a2 + 2 ^ 153 * a3 + 2 ^ 204 * a4)
      * (b0 + 2 ^ 51 * b1 + 2 ^ 102 * b2 + 2 ^ 153 * b3 + 2 ^ 204 * b4)
    - (a1 * b4 + a2 * b3 + a3 * b2 + a4 * b1 + 2 ^ 51 * (a2 * b4 + a3 * b3 + a4 * b2)
       + 2 ^ 102 * (a3 * b4 + a4 * b3) + 2 ^ 153 * (a4 * b4)) * p25519"
  by (simp add: p25519_def algebra_simps)

lemma viltrum_fe_mul_correct:
  assumes "fe_loose a" and "fe_loose b"
  shows "fe_tight (viltrum_fe_mul a b)"
    and "fe_val (viltrum_fe_mul a b) mod p25519 = (fe_val a * fe_val b) mod p25519"
proof -
  obtain a0 a1 a2 a3 a4 where a: "a = Fe a0 a1 a2 a3 a4" by (cases a)
  obtain b0 b1 b2 b3 b4 where b: "b = Fe b0 b1 b2 b3 b4" by (cases b)
  have ba: "uint a0 < 2 ^ 54" "uint a1 < 2 ^ 54" "uint a2 < 2 ^ 54" "uint a3 < 2 ^ 54" "uint a4 < 2 ^ 54"
    and bb: "uint b0 < 2 ^ 54" "uint b1 < 2 ^ 54" "uint b2 < 2 ^ 54" "uint b3 < 2 ^ 54" "uint b4 < 2 ^ 54"
    using assms by (simp_all add: a b fe_loose_def)
  note sc = limb_scale(1) [OF bb(2)] limb_scale(1) [OF bb(3)] limb_scale(1) [OF bb(4)]
    limb_scale(1) [OF bb(5)]
  have y: "uint b0 < 19 * 2 ^ 54" "uint b1 < 19 * 2 ^ 54" "uint b2 < 19 * 2 ^ 54"
    "uint b3 < 19 * 2 ^ 54" "uint (b1 * 19) < 19 * 2 ^ 54" "uint (b2 * 19) < 19 * 2 ^ 54"
    "uint (b3 * 19) < 19 * 2 ^ 54" "uint (b4 * 19) < 19 * 2 ^ 54"
    using bb by (simp_all add: sc)
  have B: "19 * 2 ^ 54 \<le> (2::int) ^ 60" "2 ^ 54 \<le> (2::int) ^ 60" by simp_all
  note cols = fe_column [OF ba y(1,8,7,6,5) B(1)] fe_column [OF ba y(2,1,8,7,6) B(1)]
    fe_column [OF ba y(3,2,1,8,7) B(1)] fe_column [OF ba y(4,3,2,1,8) B(1)]
    fe_column [OF ba bb(5,4,3,2,1) B(2)]
  have mul: "viltrum_fe_mul a b = viltrum_fe_carry
     (wide a0 * wide b0 + wide a1 * wide (b4 * 19) + wide a2 * wide (b3 * 19) + wide a3 * wide (b2 * 19) + wide a4 * wide (b1 * 19))
     (wide a0 * wide b1 + wide a1 * wide b0 + wide a2 * wide (b4 * 19) + wide a3 * wide (b3 * 19) + wide a4 * wide (b2 * 19))
     (wide a0 * wide b2 + wide a1 * wide b1 + wide a2 * wide b0 + wide a3 * wide (b4 * 19) + wide a4 * wide (b3 * 19))
     (wide a0 * wide b3 + wide a1 * wide b2 + wide a2 * wide b1 + wide a3 * wide b0 + wide a4 * wide (b4 * 19))
     (wide a0 * wide b4 + wide a1 * wide b3 + wide a2 * wide b2 + wide a3 * wide b1 + wide a4 * wide b0)"
    by (simp add: a b Let_def)
  note bounds = cols(2,4,6,8,10) [THEN order_less_le_trans]
  show "fe_tight (viltrum_fe_mul a b)"
    unfolding mul by (intro viltrum_fe_carry_correct(1) bounds) simp_all
  show "fe_val (viltrum_fe_mul a b) mod p25519 = (fe_val a * fe_val b) mod p25519"
    unfolding mul unfolding a b fe_val.simps
    by (subst viltrum_fe_carry_mod, (intro bounds, simp)+)
      (simp only: cols(1,3,5,7,9) sc fe_product_columns mod_sub_mult)
qed

text \<open>
  The square with its doubled cross products is the product of the element with itself,
  word for word.
\<close>

lemma viltrum_fe_sq_eq_mul: "fe_loose a \<Longrightarrow> viltrum_fe_sq a = viltrum_fe_mul a a"
  by (cases a) (simp add: fe_loose_def Let_def wide_scale algebra_simps)

lemma viltrum_fe_sq_correct:
  assumes "fe_loose a"
  shows "fe_tight (viltrum_fe_sq a)"
    and "fe_val (viltrum_fe_sq a) mod p25519 = (fe_val a) ^ 2 mod p25519"
  using viltrum_fe_mul_correct [OF assms assms]
  by (simp_all add: viltrum_fe_sq_eq_mul assms power2_eq_square)

lemma fe_sq_funpow:
  assumes "fe_tight a"
  shows "fe_tight ((viltrum_fe_sq ^^ n) a) \<and>
    fe_val ((viltrum_fe_sq ^^ n) a) mod p25519 = fe_val a ^ (2 ^ n) mod p25519"
proof (induction n)
  case 0
  then show ?case using assms by simp
next
  case (Suc n)
  let ?b = "(viltrum_fe_sq ^^ n) a"
  have "fe_val (viltrum_fe_sq ?b) mod p25519 = fe_val ?b ^ 2 mod p25519"
    using Suc.IH by (intro viltrum_fe_sq_correct) auto
  also have "\<dots> = (fe_val a ^ (2 ^ n)) ^ 2 mod p25519"
    using Suc.IH by (intro mod_power_eqI) simp
  also have "(fe_val a ^ (2 ^ n)) ^ 2 = fe_val a ^ (2 ^ Suc n)"
    by (simp add: power_mult [symmetric] mult.commute)
  finally show ?case using Suc.IH viltrum_fe_sq_correct(1) by auto
qed

lemma viltrum_fe_sq_n_correct:
  assumes "fe_tight a" and "0 < n"
  shows "fe_tight (viltrum_fe_sq_n a n)"
    and "fe_val (viltrum_fe_sq_n a n) mod p25519 = fe_val a ^ (2 ^ n) mod p25519"
proof -
  have "viltrum_fe_sq_n a n = (viltrum_fe_sq ^^ n) a"
    using assms(2) by (cases n) (simp_all add: viltrum_fe_sq_n_def funpow_swap1)
  then show "fe_tight (viltrum_fe_sq_n a n)"
    "fe_val (viltrum_fe_sq_n a n) mod p25519 = fe_val a ^ (2 ^ n) mod p25519"
    using fe_sq_funpow [OF assms(1), of n] by simp_all
qed

lemma viltrum_fe_mul_a24_correct:
  assumes "fe_loose a"
  shows "fe_tight (viltrum_fe_mul_a24 a)"
    and "fe_val (viltrum_fe_mul_a24 a) mod p25519 = (121665 * fe_val a) mod p25519"
proof -
  obtain a0 a1 a2 a3 a4 where a: "a = Fe a0 a1 a2 a3 a4" by (cases a)
  have u: "uint (wide x * 121665) = uint x * 121665" for x
    using uint_wide_mult [of x 121665] by (simp add: wide_def)
  have b: "uint a0 < 2 ^ 54" "uint a1 < 2 ^ 54" "uint a2 < 2 ^ 54" "uint a3 < 2 ^ 54"
    "uint a4 < 2 ^ 54"
    using assms by (simp_all add: a fe_loose_def)
  show "fe_tight (viltrum_fe_mul_a24 a)"
    unfolding a viltrum_fe_mul_a24.simps
    using b by (intro viltrum_fe_carry_correct(1)) (simp_all add: u)
  show "fe_val (viltrum_fe_mul_a24 a) mod p25519 = (121665 * fe_val a) mod p25519"
    unfolding a viltrum_fe_mul_a24.simps
    using b by (subst viltrum_fe_carry_mod) (simp_all add: u algebra_simps)
qed

text \<open>Sums and differences of tight elements are loose; a difference is offset by \<open>2 * p\<close>.\<close>

lemma viltrum_fe_add_correct:
  assumes "fe_tight a" and "fe_tight b"
  shows "fe_loose (viltrum_fe_add a b)" and "fe_val (viltrum_fe_add a b) = fe_val a + fe_val b"
proof -
  obtain a0 a1 a2 a3 a4 where a: "a = Fe a0 a1 a2 a3 a4" by (cases a)
  obtain b0 b1 b2 b3 b4 where b: "b = Fe b0 b1 b2 b3 b4" by (cases b)
  have u: "uint (x + y) = uint x + uint y"
    if "uint x < 2251799813693440" "uint y < 2251799813693440" for x y :: u64
    using that by (intro uint_add_exact) simp
  show "fe_loose (viltrum_fe_add a b)" "fe_val (viltrum_fe_add a b) = fe_val a + fe_val b"
    using assms by (simp_all add: a b fe_tight_def fe_loose_def u algebra_simps)
qed

lemma uint_limb_sub:
  fixes x y c :: u64
  assumes "uint x < 2 ^ 54" and "uint y \<le> uint c" and "uint c < 2 ^ 52"
  shows "uint (x + c - y) = uint x + uint c - uint y"
proof -
  have "uint (x + c) = uint x + uint c"
    using assms by (intro uint_add_exact) simp
  then show ?thesis
    using assms by (subst uint_sub_exact) (simp_all add: add_increasing)
qed

lemma viltrum_fe_sub_correct:
  assumes "fe_tight a" and "fe_tight b"
  shows "fe_loose (viltrum_fe_sub a b)"
    and "fe_val (viltrum_fe_sub a b) = fe_val a - fe_val b + 2 * p25519"
proof -
  obtain a0 a1 a2 a3 a4 where a: "a = Fe a0 a1 a2 a3 a4" by (cases a)
  obtain b0 b1 b2 b3 b4 where b: "b = Fe b0 b1 b2 b3 b4" by (cases b)
  have u: "uint (x + 0xfffffffffffda - y) = uint x + 0xfffffffffffda - uint y"
    "uint (x + 0xffffffffffffe - y) = uint x + 0xffffffffffffe - uint y"
    if "uint x < 2251799813693440" "uint y < 2251799813693440" for x y :: u64
    using that uint_limb_sub [of x y "0xfffffffffffda"] uint_limb_sub [of x y "0xffffffffffffe"]
    by simp_all
  have l: "x + 0xfffffffffffda - y < 18014398509481984" "x + 0xffffffffffffe - y < 18014398509481984"
    if "x < 2251799813693440" "0 \<le> y" for x y :: int
    using that by simp_all
  show "fe_loose (viltrum_fe_sub a b)"
    using assms by (simp add: a b fe_tight_def fe_loose_def u l)
  show "fe_val (viltrum_fe_sub a b) = fe_val a - fe_val b + 2 * p25519"
    using assms by (simp add: a b fe_tight_def u p25519_def algebra_simps)
qed

lemma viltrum_fe_sub_mod:
  assumes "fe_tight a" and "fe_tight b"
  shows "fe_val (viltrum_fe_sub a b) mod p25519 = (fe_val a - fe_val b) mod p25519"
  using viltrum_fe_sub_correct [OF assms] by simp

lemma viltrum_fe_cswap_correct:
  assumes "swap = 0 \<or> swap = 1"
  shows "viltrum_fe_cswap a b swap = (if swap = 1 then (b, a) else (a, b))"
proof -
  have x: "x XOR (x XOR y) = y" "y XOR (x XOR y) = x" for x y :: u64
    by (simp_all add: xor.assoc [symmetric]) (simp add: xor.commute xor.left_commute)
  show ?thesis
    using assms by (cases a; cases b) (auto simp: Let_def x)
qed

section \<open>The interface of the field\<close>

text \<open>
  What the inversion chain and the ladder rely on: representations with two bounds, where
  sums and differences of tight elements are loose, products of loose elements are tight,
  and each operation is the field operation on residues.
\<close>

locale residue_field =
  fixes val :: "'f \<Rightarrow> int" and p :: int and tight loose :: "'f \<Rightarrow> bool"
    and add sub mul :: "'f \<Rightarrow> 'f \<Rightarrow> 'f" and sq :: "'f \<Rightarrow> 'f" and sqn :: "'f \<Rightarrow> nat \<Rightarrow> 'f"
    and scale :: "'f \<Rightarrow> 'f" and c :: int
  assumes tight_loose: "tight a \<Longrightarrow> loose a"
    and add_law: "tight a \<Longrightarrow> tight b \<Longrightarrow> residue_of val p loose (add a b) (val a + val b)"
    and sub_law: "tight a \<Longrightarrow> tight b \<Longrightarrow> residue_of val p loose (sub a b) (val a - val b)"
    and mul_law: "loose a \<Longrightarrow> loose b \<Longrightarrow> residue_of val p tight (mul a b) (val a * val b)"
    and sq_law: "loose a \<Longrightarrow> residue_of val p tight (sq a) (val a ^ 2)"
    and sqn_law: "tight a \<Longrightarrow> 0 < n \<Longrightarrow> residue_of val p tight (sqn a n) (val a ^ (2 ^ n))"
    and scale_law: "loose a \<Longrightarrow> residue_of val p tight (scale a) (c * val a)"
begin

lemma rep_loose: "residue_of val p tight a u \<Longrightarrow> residue_of val p loose a u"
  by (simp add: residue_of_def tight_loose)

lemma rep_add:
  "residue_of val p tight a u \<Longrightarrow> residue_of val p tight b v \<Longrightarrow>
   residue_of val p loose (add a b) (u + v)"
  using add_law [of a b] by (auto simp: residue_of_def intro!: mod_add_eqI)

lemma rep_sub:
  "residue_of val p tight a u \<Longrightarrow> residue_of val p tight b v \<Longrightarrow>
   residue_of val p loose (sub a b) (u - v)"
  using sub_law [of a b] by (auto simp: residue_of_def intro!: mod_diff_cong)

lemma rep_mul:
  "residue_of val p loose a u \<Longrightarrow> residue_of val p loose b v \<Longrightarrow>
   residue_of val p tight (mul a b) (u * v)"
  using mul_law [of a b] by (auto simp: residue_of_def intro!: mod_mult_eqI)

lemma rep_sq: "residue_of val p loose a u \<Longrightarrow> residue_of val p tight (sq a) (u ^ 2)"
  using sq_law [of a] by (auto simp: residue_of_def intro!: mod_power_eqI)

lemma rep_scale: "residue_of val p loose a u \<Longrightarrow> residue_of val p tight (scale a) (c * u)"
  using scale_law [of a] by (auto simp: residue_of_def intro!: mod_mult_eqI)

lemma rep_sqn:
  "residue_of val p tight a u \<Longrightarrow> 0 < n \<Longrightarrow> residue_of val p tight (sqn a n) (u ^ (2 ^ n))"
  using sqn_law [of a n] by (auto simp: residue_of_def intro!: mod_power_eqI)

text \<open>Powers of one element: an addition chain adds exponents.\<close>

lemma pow_mul:
  "residue_of val p tight a (v ^ m) \<Longrightarrow> residue_of val p tight b (v ^ n) \<Longrightarrow> m + n = k \<Longrightarrow>
   residue_of val p tight (mul a b) (v ^ k)"
  using rep_mul [OF rep_loose rep_loose, of a "v ^ m" b "v ^ n"] by (simp add: power_add [symmetric])

lemma pow_sq:
  "residue_of val p tight a (v ^ m) \<Longrightarrow> m * 2 = k \<Longrightarrow> residue_of val p tight (sq a) (v ^ k)"
  using rep_sq [OF rep_loose, of a "v ^ m"] by (simp add: power_mult [symmetric])

lemma pow_sqn:
  "residue_of val p tight a (v ^ m) \<Longrightarrow> 0 < n \<Longrightarrow> m * 2 ^ n = k \<Longrightarrow>
   residue_of val p tight (sqn a n) (v ^ k)"
  using rep_sqn [of a "v ^ m" n] by (simp add: power_mult [symmetric])

text \<open>One combined doubling and differential addition of the Montgomery ladder.\<close>

lemma rep_double_add:
  assumes x1: "residue_of val p tight x1 u"
    and x2: "residue_of val p tight x2 X2" and z2: "residue_of val p tight z2 Z2"
    and x3: "residue_of val p tight x3 X3" and z3: "residue_of val p tight z3 Z3"
  defines "a \<equiv> add x2 z2" and "b \<equiv> sub x2 z2" and "e \<equiv> sub (sq (add x2 z2)) (sq (sub x2 z2))"
    and "da \<equiv> mul (sub x3 z3) (add x2 z2)" and "cb \<equiv> mul (add x3 z3) (sub x2 z2)"
    and "AA \<equiv> (X2 + Z2) ^ 2" and "BB \<equiv> (X2 - Z2) ^ 2"
    and "DA \<equiv> (X3 - Z3) * (X2 + Z2)" and "CB \<equiv> (X3 + Z3) * (X2 - Z2)"
  shows "residue_of val p tight (mul (sq a) (sq b)) (AA * BB)"
    and "residue_of val p tight (mul e (add (sq a) (scale e))) ((AA - BB) * (AA + c * (AA - BB)))"
    and "residue_of val p tight (sq (add da cb)) ((DA + CB) ^ 2)"
    and "residue_of val p tight (mul x1 (sq (sub da cb))) (u * (DA - CB) ^ 2)"
  unfolding a_def b_def e_def da_def cb_def AA_def BB_def DA_def CB_def
  by (intro rep_mul rep_sq rep_add rep_sub rep_scale rep_loose assms)+

end

interpretation fe: residue_field fe_val p25519 fe_tight fe_loose viltrum_fe_add viltrum_fe_sub
  viltrum_fe_mul viltrum_fe_sq viltrum_fe_sq_n viltrum_fe_mul_a24 121665
  by unfold_locales
    (simp_all add: residue_of_def viltrum_fe_add_correct viltrum_fe_sub_correct(1) viltrum_fe_sub_mod
      viltrum_fe_mul_correct viltrum_fe_sq_correct viltrum_fe_sq_n_correct viltrum_fe_mul_a24_correct)

section \<open>Properties of the field arithmetic\<close>

text \<open>
  \<^verbatim>\<open>viltrum_fe_mul\<close> multiplies modulo \<open>2\<^sup>2\<^sup>5\<^sup>5 - 19\<close> with no intermediate overflow: for limbs below
  \<open>2\<^sup>5\<^sup>4\<close> the result's limbs are below \<open>2\<^sup>5\<^sup>1 + 2\<^sup>1\<^sup>3\<close>, ready for the next operation.
\<close>

theorem fe_mul_reduces:
  assumes "fe_loose a" and "fe_loose b"
  shows "fe_tight (viltrum_fe_mul a b) \<and>
    fe_val (viltrum_fe_mul a b) mod p25519 = (fe_val a * fe_val b) mod p25519"
  using viltrum_fe_mul_correct [OF assms] by simp

theorem fe_mul_reduces_witness:
  "fe_tight (viltrum_fe_mul (Fe 2 0 0 0 0) (Fe 0 0 0 0 0x3fffffffffffff)) \<and>
    fe_val (viltrum_fe_mul (Fe 2 0 0 0 0) (Fe 0 0 0 0 0x3fffffffffffff)) mod p25519 =
      (fe_val (Fe 2 0 0 0 0) * fe_val (Fe 0 0 0 0 0x3fffffffffffff)) mod p25519"
  by (rule fe_mul_reduces) (simp_all add: fe_loose_def)

text \<open>The specialised squaring \<^verbatim>\<open>viltrum_fe_sq\<close> gives the same limbs as \<^verbatim>\<open>viltrum_fe_mul\<close>.\<close>

theorem fe_sq_equals_mul: "fe_loose a \<Longrightarrow> viltrum_fe_sq a = viltrum_fe_mul a a"
  by (rule viltrum_fe_sq_eq_mul)

theorem fe_sq_equals_mul_witness: "viltrum_fe_sq (Fe 1 2 3 4 5) = viltrum_fe_mul (Fe 1 2 3 4 5) (Fe 1 2 3 4 5)"
  by (rule fe_sq_equals_mul) (simp add: fe_loose_def)

text \<open>The limbs as integers, and the limbs of \<open>2p\<close> that a subtraction adds.\<close>

fun fe_limbs :: "fe \<Rightarrow> int list" where
  "fe_limbs (Fe a0 a1 a2 a3 a4) = [uint a0, uint a1, uint a2, uint a3, uint a4]"

definition limbs_2p :: "int list" where
  "limbs_2p = [2 ^ 52 - 38, 2 ^ 52 - 2, 2 ^ 52 - 2, 2 ^ 52 - 2, 2 ^ 52 - 2]"

lemma limbs_2p_value: "(\<Sum>i < 5. limbs_2p ! i * 2 ^ (51 * i)) = 2 * p25519"
  by (simp add: limbs_2p_def p25519_def lessThan_nat_numeral)

text \<open>One limb: the difference, and \<open>2\<^sup>6\<^sup>4\<close> more where it wraps around.\<close>

lemma uint_limb_sub_wrap:
  fixes x y c :: u64
  assumes "uint x < 2 ^ 63" "uint c < 2 ^ 52"
  shows "uint (x + c - y) = uint x + uint c - uint y + (if uint y \<le> uint x + uint c then 0 else 2 ^ 64)"
proof -
  have s: "uint (x + c) = uint x + uint c"
    using assms by (intro uint_add_exact) simp
  show ?thesis
  proof (cases "uint y \<le> uint x + uint c")
    case True
    then show ?thesis
      using s by (subst uint_sub_exact) simp_all
  next
    case False
    have bounds: "0 \<le> uint x" "0 \<le> uint c" "uint y < 2 ^ 64"
      using uint_lt2p [of y] by simp_all
    have "uint (x + c - y) = (uint x + uint c - uint y) mod 2 ^ 64"
      by (simp add: uint_word_ariths mod_simps)
    also have "\<dots> = (uint x + uint c - uint y + 2 ^ 64) mod 2 ^ 64"
      by simp
    also have "\<dots> = uint x + uint c - uint y + 2 ^ 64"
      using False bounds by (intro mod_pos_pos_trivial) linarith+
    finally show ?thesis
      using False by simp
  qed
qed

text \<open>Wrapped limbs never cancel modulo \<open>p\<close>.\<close>

lemma wrapped_mod_p:
  "(of_bool w0 * 2 ^ 64 + of_bool w1 * 2 ^ 115 + of_bool w2 * 2 ^ 166 + of_bool w3 * 2 ^ 217 + of_bool w4 * 2 ^ 268 :: int) mod p25519 = 0 \<longleftrightarrow>
    \<not> w0 \<and> \<not> w1 \<and> \<not> w2 \<and> \<not> w3 \<and> \<not> w4"
  by (cases w0; cases w1; cases w2; cases w3; cases w4) (simp_all add: p25519_def)

text \<open>
  C28. Exactly where \<^verbatim>\<open>viltrum_fe_sub\<close> subtracts: for any limbs of \<open>a\<close> below \<open>2\<^sup>6\<^sup>3\<close> and any limbs of \<open>b\<close>, the result is
  \<open>a - b\<close> modulo \<open>p\<close> if and only if no limb of \<open>b\<close> exceeds the limb of \<open>a\<close> by more than that of \<open>2p\<close>, that is, if and
  only if no limb wraps around. The low limb of \<open>2p\<close> is \<open>2\<^sup>5\<^sup>2 - 38\<close>, so that limbs of \<open>b\<close> below \<open>2\<^sup>5\<^sup>2\<close>, as the
  comment has it, are not quite enough.
\<close>

theorem fe_sub_exact_iff:
  assumes "list_all (\<lambda>x. x < 2 ^ 63) (fe_limbs a)"
  shows "fe_val (viltrum_fe_sub a b) mod p25519 = (fe_val a - fe_val b) mod p25519 \<longleftrightarrow>
    list_all2 (\<le>) (fe_limbs b) (map2 (+) (fe_limbs a) limbs_2p)"
proof -
  obtain a0 a1 a2 a3 a4 where a: "a = Fe a0 a1 a2 a3 a4" by (cases a)
  obtain b0 b1 b2 b3 b4 where b: "b = Fe b0 b1 b2 b3 b4" by (cases b)
  have u: "uint (x + 0xfffffffffffda - y) = uint x + 0xfffffffffffda - uint y + of_bool (uint x + 0xfffffffffffda < uint y) * 2 ^ 64"
    "uint (x + 0xffffffffffffe - y) = uint x + 0xffffffffffffe - uint y + of_bool (uint x + 0xffffffffffffe < uint y) * 2 ^ 64"
    if "uint x < 2 ^ 63" for x y :: u64
    using that uint_limb_sub_wrap [of x "0xfffffffffffda" y] uint_limb_sub_wrap [of x "0xffffffffffffe" y]
    by (simp_all add: not_less [symmetric])
  let ?w = "\<lambda>x c y. of_bool (uint x + c < uint y) :: int"
  let ?D = "?w a0 0xfffffffffffda b0 * 2 ^ 64 + ?w a1 0xffffffffffffe b1 * 2 ^ 115 + ?w a2 0xffffffffffffe b2 * 2 ^ 166 +
    ?w a3 0xffffffffffffe b3 * 2 ^ 217 + ?w a4 0xffffffffffffe b4 * 2 ^ 268"
  have "fe_val (viltrum_fe_sub a b) = fe_val a - fe_val b + 2 * p25519 + ?D"
    using assms by (simp add: a b u p25519_def algebra_simps)
  then have "fe_val (viltrum_fe_sub a b) mod p25519 = (fe_val a - fe_val b) mod p25519 \<longleftrightarrow> ?D mod p25519 = 0"
    by (simp add: mod_eq_dvd_iff dvd_add_right_iff mod_eq_0_iff_dvd algebra_simps)
  also have "\<dots> \<longleftrightarrow> list_all2 (\<le>) (fe_limbs b) (map2 (+) (fe_limbs a) limbs_2p)"
    unfolding wrapped_mod_p by (simp add: a b limbs_2p_def not_less)
  finally show ?thesis .
qed

theorem fe_sub_exact_iff_witness:
  "fe_val (viltrum_fe_sub (Fe 0 0 0 0 0) (Fe 0xfffffffffffda 0 0 0 0)) mod p25519 = (- 0xfffffffffffda) mod p25519 \<and>
   fe_val (viltrum_fe_sub (Fe 0 0 0 0 0) (Fe 0xfffffffffffdb 0 0 0 0)) mod p25519 \<noteq> (- 0xfffffffffffdb) mod p25519"
  using fe_sub_exact_iff [of "Fe 0 0 0 0 0" "Fe 0xfffffffffffda 0 0 0 0"] fe_sub_exact_iff [of "Fe 0 0 0 0 0" "Fe 0xfffffffffffdb 0 0 0 0"]
  by (simp add: limbs_2p_def)

end
