(* ===== verification/X25519.thy ===== *)
theory X25519
  imports Fe25519
begin

unbundle bit_operations_syntax

text \<open>
  X25519, the rest of \<^verbatim>\<open>src/engine/x25519.h\<close>: the byte encodings, the inversion chain and the
  Montgomery ladder.
\<close>

section \<open>Operations\<close>

text \<open>\<^verbatim>\<open>for (i = 7; i >= 0; i--) v = (v << 8) | p[i]\<close> over the bytes from \<open>p\<close> on.\<close>

fun load64_loop :: "u8 list \<Rightarrow> nat \<Rightarrow> u64 \<Rightarrow> u64" where
  "load64_loop p 0 v = v"
| "load64_loop p (Suc i) v = load64_loop p i (push_bit 8 v OR ucast (p ! i))"

definition viltrum_load64_le :: "u8 list \<Rightarrow> u64" where
  "viltrum_load64_le p = load64_loop p 8 0"

definition viltrum_fe_frombytes :: "u8 list \<Rightarrow> fe" where
  "viltrum_fe_frombytes s =
     Fe (viltrum_load64_le s AND VILTRUM_FE_MASK)
        (drop_bit 3 (viltrum_load64_le (drop 6 s)) AND VILTRUM_FE_MASK)
        (drop_bit 6 (viltrum_load64_le (drop 12 s)) AND VILTRUM_FE_MASK)
        (drop_bit 1 (viltrum_load64_le (drop 19 s)) AND VILTRUM_FE_MASK)
        (drop_bit 12 (viltrum_load64_le (drop 24 s)) AND VILTRUM_FE_MASK)"

text \<open>
  The carry passes of \<^verbatim>\<open>viltrum_fe_tobytes\<close>: the chain from limb 0 to limb 4, and the fold of
  the top carry into limb 0.
\<close>

fun fe_chain :: "fe \<Rightarrow> fe" where
  "fe_chain (Fe t0 t1 t2 t3 t4) =
     (let t1 = t1 + drop_bit 51 t0; t0 = t0 AND VILTRUM_FE_MASK;
          t2 = t2 + drop_bit 51 t1; t1 = t1 AND VILTRUM_FE_MASK;
          t3 = t3 + drop_bit 51 t2; t2 = t2 AND VILTRUM_FE_MASK;
          t4 = t4 + drop_bit 51 t3; t3 = t3 AND VILTRUM_FE_MASK
      in Fe t0 t1 t2 t3 t4)"

fun fe_fold_top :: "fe \<Rightarrow> fe" where
  "fe_fold_top (Fe t0 t1 t2 t3 t4) =
     Fe (t0 + drop_bit 51 t4 * 19) t1 t2 t3 (t4 AND VILTRUM_FE_MASK)"

fun fe_add_19 :: "fe \<Rightarrow> fe" where
  "fe_add_19 (Fe t0 t1 t2 t3 t4) = Fe (t0 + 19) t1 t2 t3 t4"

fun fe_add_2p255_19 :: "fe \<Rightarrow> fe" where
  "fe_add_2p255_19 (Fe t0 t1 t2 t3 t4) =
     Fe (t0 + (0x8000000000000 - 19)) (t1 + (0x8000000000000 - 1)) (t2 + (0x8000000000000 - 1))
        (t3 + (0x8000000000000 - 1)) (t4 + (0x8000000000000 - 1))"

fun fe_drop_top :: "fe \<Rightarrow> fe" where
  "fe_drop_top (Fe t0 t1 t2 t3 t4) = Fe t0 t1 t2 t3 (t4 AND VILTRUM_FE_MASK)"

fun fe_pack :: "fe \<Rightarrow> u64 list" where
  "fe_pack (Fe t0 t1 t2 t3 t4) =
     [t0 OR push_bit 51 t1,
      drop_bit 13 t1 OR push_bit 38 t2,
      drop_bit 26 t2 OR push_bit 25 t3,
      drop_bit 39 t3 OR push_bit 12 t4]"

definition store_words_le :: "u64 list \<Rightarrow> u8 list" where
  "store_words_le w = concat (map (\<lambda>x. map (\<lambda>j. ucast (drop_bit (8 * j) x)) [0..<8]) w)"

definition viltrum_fe_tobytes :: "fe \<Rightarrow> u8 list" where
  "viltrum_fe_tobytes a =
     (let t = viltrum_fe_copy a;
          t = fe_fold_top (fe_chain t);
          t = fe_fold_top (fe_chain t);
          t = fe_fold_top (fe_chain (fe_add_19 t));
          t = fe_drop_top (fe_chain (fe_add_2p255_19 t))
      in store_words_le (fe_pack t))"

definition viltrum_fe_invert :: "fe \<Rightarrow> fe" where
  "viltrum_fe_invert z =
     (let z2 = viltrum_fe_sq z;
          t = viltrum_fe_sq_n z2 2;
          z9 = viltrum_fe_mul t z;
          z11 = viltrum_fe_mul z9 z2;
          t = viltrum_fe_sq z11;
          z2_5_0 = viltrum_fe_mul t z9;
          t = viltrum_fe_sq_n z2_5_0 5;
          z2_10_0 = viltrum_fe_mul t z2_5_0;
          t = viltrum_fe_sq_n z2_10_0 10;
          z2_20_0 = viltrum_fe_mul t z2_10_0;
          t = viltrum_fe_sq_n z2_20_0 20;
          t = viltrum_fe_mul t z2_20_0;
          t = viltrum_fe_sq_n t 10;
          z2_50_0 = viltrum_fe_mul t z2_10_0;
          t = viltrum_fe_sq_n z2_50_0 50;
          z2_100_0 = viltrum_fe_mul t z2_50_0;
          t = viltrum_fe_sq_n z2_100_0 100;
          t = viltrum_fe_mul t z2_100_0;
          t = viltrum_fe_sq_n t 50;
          t = viltrum_fe_mul t z2_50_0;
          t = viltrum_fe_sq_n t 5
      in viltrum_fe_mul t z11)"

text \<open>The ladder's live variables between two iterations.\<close>

record ladder =
  lx2 :: fe
  lz2 :: fe
  lx3 :: fe
  lz3 :: fe
  lswap :: u64

definition clamp_scalar :: "u8 list \<Rightarrow> u8 list" where
  "clamp_scalar scalar =
     (let k = scalar[0 := scalar ! 0 AND 248];
          k = k[31 := k ! 31 AND 127]
      in k[31 := k ! 31 OR 64])"

definition scalar_bit :: "u8 list \<Rightarrow> nat \<Rightarrow> u64" where
  "scalar_bit k pos = ucast (drop_bit (pos mod 8) (k ! (pos div 8))) AND 1"

definition ladder_step :: "u8 list \<Rightarrow> fe \<Rightarrow> nat \<Rightarrow> ladder \<Rightarrow> ladder" where
  "ladder_step k x1 pos s =
     (let b' = scalar_bit k pos;
          swap = lswap s XOR b';
          (x2, x3) = viltrum_fe_cswap (lx2 s) (lx3 s) swap;
          (z2, z3) = viltrum_fe_cswap (lz2 s) (lz3 s) swap;
          swap = b';
          a = viltrum_fe_add x2 z2;
          aa = viltrum_fe_sq a;
          b = viltrum_fe_sub x2 z2;
          bb = viltrum_fe_sq b;
          e = viltrum_fe_sub aa bb;
          c = viltrum_fe_add x3 z3;
          d = viltrum_fe_sub x3 z3;
          da = viltrum_fe_mul d a;
          cb = viltrum_fe_mul c b;
          t = viltrum_fe_add da cb;
          x3 = viltrum_fe_sq t;
          t = viltrum_fe_sub da cb;
          t = viltrum_fe_sq t;
          z3 = viltrum_fe_mul x1 t;
          x2 = viltrum_fe_mul aa bb;
          t = viltrum_fe_mul_a24 e;
          t = viltrum_fe_add aa t;
          z2 = viltrum_fe_mul e t
      in \<lparr>lx2 = x2, lz2 = z2, lx3 = x3, lz3 = z3, lswap = swap\<rparr>)"

text \<open>\<^verbatim>\<open>for (pos = 254; pos >= 0; pos--)\<close>: \<open>n\<close> positions are left, the next is \<open>n - 1\<close>.\<close>

fun ladder_loop :: "u8 list \<Rightarrow> fe \<Rightarrow> nat \<Rightarrow> ladder \<Rightarrow> ladder" where
  "ladder_loop k x1 0 s = s"
| "ladder_loop k x1 (Suc pos) s = ladder_loop k x1 pos (ladder_step k x1 pos s)"

definition viltrum_x25519 :: "u8 list \<Rightarrow> u8 list \<Rightarrow> u8 list" where
  "viltrum_x25519 scalar point =
     (let k = clamp_scalar scalar;
          x1 = viltrum_fe_frombytes point;
          s = ladder_loop k x1 255
                \<lparr>lx2 = Fe 1 0 0 0 0, lz2 = Fe 0 0 0 0 0, lx3 = viltrum_fe_copy x1,
                 lz3 = Fe 1 0 0 0 0, lswap = 0\<rparr>;
          (x2, x3) = viltrum_fe_cswap (lx2 s) (lx3 s) (lswap s);
          (z2, z3) = viltrum_fe_cswap (lz2 s) (lz3 s) (lswap s);
          z2 = viltrum_fe_invert z2;
          x2 = viltrum_fe_mul x2 z2
      in viltrum_fe_tobytes x2)"

definition viltrum_x25519_base :: "u8 list \<Rightarrow> u8 list" where
  "viltrum_x25519_base scalar = viltrum_x25519 scalar (9 # replicate 31 0)"

section \<open>Byte encodings\<close>

lemma uint_load_step:
  fixes v :: u64 and b :: u8
  assumes "uint v < 2 ^ 56"
  shows "uint (push_bit 8 v OR ucast b) = uint b + 2 ^ 8 * uint v"
proof -
  have "uint (push_bit 8 v) = 2 ^ 8 * uint v"
    using assms by (simp add: uint_push_bit)
  moreover have "uint (ucast b :: u64) = uint b"
    by (rule uint_ucast_widen) simp
  moreover have "uint b < 2 ^ 8"
    using uint_lt2p [of b] by simp
  ultimately show ?thesis
    using uint_or_disjoint [of "ucast b :: u64" 8 "push_bit 8 v"] by (simp add: or.commute)
qed

lemma uint_load64_loop:
  assumes "i \<le> length p" and "i + j = 8" and "uint v < 2 ^ (8 * j)"
  shows "uint (load64_loop p i v) = le_val (take i p) + 2 ^ (8 * i) * uint v"
  using assms
proof (induction i arbitrary: j v)
  case 0
  then show ?case by simp
next
  case (Suc i)
  let ?v = "push_bit 8 v OR ucast (p ! i) :: u64"
  have "(2::int) ^ (8 * j) \<le> 2 ^ 56" using Suc.prems(2) by (intro power_increasing) simp_all
  then have v: "uint ?v = uint (p ! i) + 2 ^ 8 * uint v"
    using Suc.prems by (intro uint_load_step) simp
  have "uint (p ! i) < 2 ^ 8" using uint_lt2p [of "p ! i"] by simp
  then have "uint ?v < 2 ^ 8 * 2 ^ (8 * j)"
    using Suc.prems(3) v by simp
  then have "uint ?v < 2 ^ (8 * Suc j)" by (simp add: power_add)
  then have "uint (load64_loop p i ?v) = le_val (take i p) + 2 ^ (8 * i) * uint ?v"
    using Suc.prems by (intro Suc.IH [of "Suc j"]) simp_all
  moreover have "le_val (take (Suc i) p) = le_val (take i p) + 2 ^ (8 * i) * uint (p ! i)"
    using Suc.prems(1) by (simp add: take_Suc_conv_app_nth le_val_append min_absorb2)
  ultimately show ?case
    by (simp add: v algebra_simps power_add)
qed

lemma uint_viltrum_load64_le:
  assumes "8 \<le> length p"
  shows "uint (viltrum_load64_le p) = le_val p mod 2 ^ 64"
  using uint_load64_loop [of 8 p 0 0] assms
  by (simp add: viltrum_load64_le_def le_val_take)

lemma uint_load_field:
  assumes "length s = 32" and "n \<le> 24"
  shows "uint (drop_bit m (viltrum_load64_le (drop n s)) AND VILTRUM_FE_MASK) =
    le_val s div 2 ^ (8 * n) mod 2 ^ 64 div 2 ^ m mod 2 ^ 51"
  using assms by (simp add: uint_fe_mask uint_drop_bit uint_viltrum_load64_le le_val_drop)

lemma radix51:
  "B mod 2 ^ 255 = B mod 2 ^ 51 + 2 ^ 51 * (B div 2 ^ 51 mod 2 ^ 51)
     + 2 ^ 102 * (B div 2 ^ 102 mod 2 ^ 51) + 2 ^ 153 * (B div 2 ^ 153 mod 2 ^ 51)
     + 2 ^ 204 * (B div 2 ^ 204 mod (2 ^ 51 :: int))"
proof -
  have horner: "a + X * (b + X * (c + X * (d + X * e)))
      = a + X * b + X ^ 2 * c + X ^ 3 * d + X ^ 4 * e" for X a b c d e :: int
    by (simp add: algebra_simps power_numeral_reduce)
  have "B mod 2 ^ (51 + (51 + (51 + (51 + 51)))) = B mod 2 ^ 51 + 2 ^ 51 * (B div 2 ^ 51 mod 2 ^ 51
     + 2 ^ 51 * (B div 2 ^ (51 + 51) mod 2 ^ 51 + 2 ^ 51 * (B div 2 ^ (51 + 51 + 51) mod 2 ^ 51
     + 2 ^ 51 * (B div 2 ^ (51 + 51 + 51 + 51) mod 2 ^ 51))))"
    by (simp only: field_split div_div_power)
  then show ?thesis
    unfolding horner power_mult [symmetric] by simp
qed

lemma viltrum_fe_frombytes_correct:
  assumes "length s = 32"
  shows "fe_below (2 ^ 51) (viltrum_fe_frombytes s)"
    and "fe_val (viltrum_fe_frombytes s) = le_val s mod 2 ^ 255"
proof -
  show "fe_below (2 ^ 51) (viltrum_fe_frombytes s)"
    by (simp add: viltrum_fe_frombytes_def fe_mask_less [simplified])
  have f: "uint (drop_bit m (viltrum_load64_le (drop n s)) AND VILTRUM_FE_MASK) =
      le_val s div 2 ^ (8 * n + m) mod 2 ^ 51" if "n \<le> 24" "m \<le> 13" for n m
    using that assms field_of_field [of m 51 64 "le_val s div 2 ^ (8 * n)"]
    by (simp add: uint_load_field div_div_power)
  have "uint (viltrum_load64_le s AND VILTRUM_FE_MASK) = le_val s mod 2 ^ 51"
    using f [of 0 0] by simp
  moreover have "8 * 6 + 3 = (51::nat)" "8 * 12 + 6 = (102::nat)" "8 * 19 + 1 = (153::nat)"
    "8 * 24 + 12 = (204::nat)" by simp_all
  moreover note f [of 6 3] f [of 12 6] f [of 19 1] f [of 24 12]
  ultimately show "fe_val (viltrum_fe_frombytes s) = le_val s mod 2 ^ 255"
    by (simp only: viltrum_fe_frombytes_def fe_val.simps radix51)
qed

text \<open>The carry passes on values: a chain keeps the value, a fold trades \<open>2 ^ 255\<close> for 19.\<close>

lemma fe_chain_correct:
  assumes "fe_below (2 ^ 60) (Fe t0 t1 t2 t3 t4)"
  obtains s0 s1 s2 s3 s4 where "fe_chain (Fe t0 t1 t2 t3 t4) = Fe s0 s1 s2 s3 s4"
    and "fe_val (Fe s0 s1 s2 s3 s4) = fe_val (Fe t0 t1 t2 t3 t4)"
    and "uint s4 < 2 ^ 60 + 2 ^ 13"
    and "uint s0 < 2 ^ 51" and "uint s1 < 2 ^ 51" and "uint s2 < 2 ^ 51" and "uint s3 < 2 ^ 51"
proof -
  have link: "uint (t + drop_bit 51 s) = uint t + uint s div 2 ^ 51"
    if "uint t < 2 ^ 60" for s t :: u64
    using that uint_64_less [of s] by (subst uint_add_exact) (simp_all add: uint_drop_51)
  define u1 u2 u3 u4 where "u1 = t1 + drop_bit 51 t0" and "u2 = t2 + drop_bit 51 u1"
    and "u3 = t3 + drop_bit 51 u2" and "u4 = t4 + drop_bit 51 u3"
  have u: "uint u1 = uint t1 + uint t0 div 2 ^ 51" "uint u2 = uint t2 + uint u1 div 2 ^ 51"
    "uint u3 = uint t3 + uint u2 div 2 ^ 51" "uint u4 = uint t4 + uint u3 div 2 ^ 51"
    using assms by (simp_all only: u1_def u2_def u3_def u4_def link fe_below.simps)
  have "fe_chain (Fe t0 t1 t2 t3 t4) = Fe (t0 AND VILTRUM_FE_MASK) (u1 AND VILTRUM_FE_MASK)
      (u2 AND VILTRUM_FE_MASK) (u3 AND VILTRUM_FE_MASK) u4"
    by (simp add: Let_def u1_def u2_def u3_def u4_def)
  moreover have "fe_val (Fe (t0 AND VILTRUM_FE_MASK) (u1 AND VILTRUM_FE_MASK)
      (u2 AND VILTRUM_FE_MASK) (u3 AND VILTRUM_FE_MASK) u4) = fe_val (Fe t0 t1 t2 t3 t4)"
    using carry_telescope_open [OF u] by (simp add: uint_fe_mask)
  moreover have "uint t4 < 2 ^ 60" "uint u3 div 2 ^ 51 < 2 ^ 13"
    using assms uint_64_less [of u3] by simp_all
  then have "uint u4 < 2 ^ 60 + 2 ^ 13"
    by (simp add: u(4))
  ultimately show thesis
    by (rule that) (simp_all add: fe_mask_less [simplified])
qed

lemma low_limbs_div_mod:
  fixes s0 s1 s2 s3 s4 :: int
  assumes "0 \<le> s0" "s0 < 2 ^ 51" "0 \<le> s1" "s1 < 2 ^ 51" "0 \<le> s2" "s2 < 2 ^ 51" "0 \<le> s3" "s3 < 2 ^ 51"
  defines "V \<equiv> s0 + 2 ^ 51 * s1 + 2 ^ 102 * s2 + 2 ^ 153 * s3 + 2 ^ 204 * s4"
  shows "V mod 2 ^ 255 = s0 + 2 ^ 51 * s1 + 2 ^ 102 * s2 + 2 ^ 153 * s3 + 2 ^ 204 * (s4 mod 2 ^ 51)"
    and "V div 2 ^ 255 = s4 div 2 ^ 51"
proof -
  define L where "L = s0 + 2 ^ 51 * s1 + 2 ^ 102 * s2 + 2 ^ 153 * s3"
  have L: "0 \<le> L" "L < 2 ^ 204"
    using assms(1-8) by (simp_all add: L_def)
  define q r where "q = s4 div 2 ^ 51" and "r = s4 mod 2 ^ 51"
  have s4: "s4 = 2 ^ 51 * q + r" by (simp add: q_def r_def)
  have r: "0 \<le> r" "r < 2 ^ 51" by (simp_all add: r_def)
  have V: "V = (L + 2 ^ 204 * r) + 2 ^ 255 * q"
    by (simp add: V_def L_def s4 algebra_simps)
  have b: "0 \<le> L + 2 ^ 204 * r" "L + 2 ^ 204 * r < 2 ^ 255"
    using L r by simp_all
  show "V mod 2 ^ 255 = s0 + 2 ^ 51 * s1 + 2 ^ 102 * s2 + 2 ^ 153 * s3 + 2 ^ 204 * (s4 mod 2 ^ 51)"
    using b by (simp only: V mod_mult_self2 mod_pos_pos_trivial) (simp add: L_def r_def)
  show "V div 2 ^ 255 = s4 div 2 ^ 51"
    unfolding V using b by (subst div_mult_self2) (simp_all add: q_def)
qed

lemma fe_pass_correct:
  assumes "fe_below (2 ^ 60) t"
  defines "t' \<equiv> fe_fold_top (fe_chain t)"
  shows "fe_below (2 ^ 59) t'"
    and "fe_val t' = fe_val t mod 2 ^ 255 + 19 * (fe_val t div 2 ^ 255)"
proof -
  obtain t0 t1 t2 t3 t4 where t: "t = Fe t0 t1 t2 t3 t4" by (cases t)
  obtain s0 s1 s2 s3 s4 where s: "fe_chain t = Fe s0 s1 s2 s3 s4"
    and v: "fe_val (Fe s0 s1 s2 s3 s4) = fe_val t" and b4: "uint s4 < 2 ^ 60 + 2 ^ 13"
    and b: "uint s0 < 2 ^ 51" "uint s1 < 2 ^ 51" "uint s2 < 2 ^ 51" "uint s3 < 2 ^ 51"
    by (rule fe_chain_correct [of t0 t1 t2 t3 t4, folded t, OF assms(1)])
  have c: "uint s4 div 2 ^ 51 < 2 ^ 10" using b4 by simp
  have m: "uint (drop_bit 51 s4 * 19) = uint s4 div 2 ^ 51 * 19"
    using c by (subst uint_mult_exact) (simp_all add: uint_drop_51)
  then have u: "uint (s0 + drop_bit 51 s4 * 19) = uint s0 + uint s4 div 2 ^ 51 * 19"
    using c b(1) by (subst uint_add_exact) simp_all
  show "fe_below (2 ^ 59) t'"
    using b c u fe_mask_less [of s4] by (simp add: t'_def s)
  note nn = uint_nonneg_less(1)
  note dm = low_limbs_div_mod [OF nn b(1) nn b(2) nn b(3) nn b(4), of "uint s4"]
  show "fe_val t' = fe_val t mod 2 ^ 255 + 19 * (fe_val t div 2 ^ 255)"
    unfolding v [symmetric] t'_def s fe_fold_top.simps fe_val.simps u fe_mask_eq uint_and_mask dm
    by (simp only: mult.commute [of _ 19] add.commute add.left_commute add.assoc)
qed

text \<open>
  The passes on integers: two folds bring the value below \<open>2 ^ 255\<close>, and the last two
  passes subtract the prime exactly when the value has reached it.
\<close>

lemma fold_255:
  fixes v :: int
  assumes "0 \<le> v" and "v < 2 ^ 256"
  shows "v mod 2 ^ 255 + 19 * (v div 2 ^ 255) = (if v < 2 ^ 255 then v else v - p25519)"
proof (cases "v < 2 ^ 255")
  case False
  then have "v mod 2 ^ 255 = v - 2 ^ 255" "v div 2 ^ 255 = 1"
    using assms int_div_pos_eq [of v "2 ^ 255" 1 "v - 2 ^ 255"] int_mod_pos_eq [of v "2 ^ 255" 1 "v - 2 ^ 255"]
    by simp_all
  with False show ?thesis by (simp add: p25519_def)
qed (use assms in simp)

lemma canonical_residue:
  fixes V :: int
  assumes "0 \<le> V" and "V < 2 ^ 265"
  defines "f \<equiv> \<lambda>v::int. v mod 2 ^ 255 + 19 * (v div 2 ^ 255)"
  shows "(f (f (f V) + 19) + 2 ^ 255 - 19) mod 2 ^ 255 = V mod p25519"
proof -
  have fold: "f v = (if v < 2 ^ 255 then v else v - p25519)" if "0 \<le> v" "v < 2 ^ 256" for v
    unfolding f_def using that by (rule fold_255)
  have "f V = V - V div 2 ^ 255 * p25519"
    by (simp add: f_def p25519_def minus_mult_div_eq_mod [symmetric] algebra_simps)
  then have m1: "f V mod p25519 = V mod p25519" by (simp only: mod_sub_mult)
  have "0 \<le> V div 2 ^ 255" "V div 2 ^ 255 < 2 ^ 10" "0 \<le> V mod 2 ^ 255" "V mod 2 ^ 255 < 2 ^ 255"
    using assms by (simp_all add: pos_imp_zdiv_nonneg_iff)
  then have f1: "0 \<le> f V" "f V < 2 ^ 255 + 2 ^ 15" unfolding f_def by simp_all
  define W where "W = f (f V)"
  have "W = (if f V < 2 ^ 255 then f V else f V - p25519)"
    unfolding W_def using f1 by (intro fold) simp_all
  then have W: "0 \<le> W" "W < 2 ^ 255" "W mod p25519 = V mod p25519"
    using f1 m1 mod_sub_mult [of "f V" 1 p25519] by (auto simp: p25519_def split: if_splits)
  have "(f (W + 19) + 2 ^ 255 - 19) mod 2 ^ 255 = (if W < p25519 then W else W - p25519)"
    using W fold [of "W + 19"] mod_mult_self1 [of W 1 "2 ^ 255"] mod_mult_self1 [of "W - p25519" 1 "2 ^ 255"]
    by (auto simp: p25519_def)
  also have "\<dots> = W mod p25519"
    using W(1,2) int_mod_pos_eq [of W p25519 1 "W - p25519"] by (auto simp: p25519_def)
  finally show ?thesis using W by (simp add: W_def)
qed

lemma uint_pack:
  fixes a b :: u64
  assumes "uint a < 2 ^ n" and "n \<le> 64"
  shows "uint (a OR push_bit n b) = uint a + 2 ^ n * (uint b mod 2 ^ (64 - n))"
proof -
  have eq: "(2::int) ^ 64 = 2 ^ n * 2 ^ (64 - n)"
    using assms(2) by (simp only: power_add [symmetric]) simp
  have "uint (push_bit n b) = 2 ^ n * uint b mod 2 ^ 64"
    by (simp add: uint_push_bit mult.commute)
  also have "\<dots> = 2 ^ n * (uint b mod 2 ^ (64 - n))"
    unfolding eq by (rule mod_mult_mult1)
  finally have "uint (push_bit n b) = 2 ^ n * (uint b mod 2 ^ (64 - n))" .
  then show ?thesis using uint_or_disjoint [OF assms(1), of "push_bit n b"] by simp
qed

lemma le_val_fe_pack:
  assumes "fe_below (2 ^ 51) t"
  shows "le_val (fe_pack t) = fe_val t"
proof -
  obtain t0 t1 t2 t3 t4 where t: "t = Fe t0 t1 t2 t3 t4" by (cases t)
  have b: "uint t0 < 2 ^ 51" "uint (drop_bit 13 t1) < 2 ^ 38" "uint (drop_bit 26 t2) < 2 ^ 25"
    "uint (drop_bit 39 t3) < 2 ^ 12" "uint t4 < 2 ^ 52"
    using assms by (auto simp: t uint_drop_bit)
  have r: "uint t1 = 2 ^ 13 * (uint t1 div 2 ^ 13) + uint t1 mod 2 ^ 13"
    "uint t2 = 2 ^ 26 * (uint t2 div 2 ^ 26) + uint t2 mod 2 ^ 26"
    "uint t3 = 2 ^ 39 * (uint t3 div 2 ^ 39) + uint t3 mod 2 ^ 39"
    by simp_all
  define q1 r1 q2 r2 q3 r3 where "q1 = uint t1 div 2 ^ 13" and "r1 = uint t1 mod 2 ^ 13"
    and "q2 = uint t2 div 2 ^ 26" and "r2 = uint t2 mod 2 ^ 26"
    and "q3 = uint t3 div 2 ^ 39" and "r3 = uint t3 mod 2 ^ 39"
  note qr = q1_def [symmetric] r1_def [symmetric] q2_def [symmetric] r2_def [symmetric]
    q3_def [symmetric] r3_def [symmetric]
  have w0: "uint (t0 OR push_bit 51 t1) = uint t0 + 2 ^ 51 * r1"
    using uint_pack [OF b(1), of t1] by (simp add: r1_def)
  have w1: "uint (drop_bit 13 t1 OR push_bit 38 t2) = q1 + 2 ^ 38 * r2"
    using uint_pack [OF b(2), of t2] by (simp add: uint_drop_bit q1_def r2_def)
  have w2: "uint (drop_bit 26 t2 OR push_bit 25 t3) = q2 + 2 ^ 25 * r3"
    using uint_pack [OF b(3), of t3] by (simp add: uint_drop_bit q2_def r3_def)
  have w3: "uint (drop_bit 39 t3 OR push_bit 12 t4) = q3 + 2 ^ 12 * uint t4"
    using uint_pack [OF b(4), of t4] b(5) by (simp add: uint_drop_bit q3_def)
  have "fe_val t = uint t0 + 2 ^ 51 * (2 ^ 13 * q1 + r1) + 2 ^ 102 * (2 ^ 26 * q2 + r2)
      + 2 ^ 153 * (2 ^ 39 * q3 + r3) + 2 ^ 204 * uint t4"
    using r by (simp only: t fe_val.simps qr)
  then show ?thesis by (simp add: t w0 w1 w2 w3)
qed

lemma store_words_le_correct:
  "length (store_words_le w) = 8 * length w" "le_val (store_words_le w) = le_val w"
proof -
  have *: "store_words_le w = concat (map (\<lambda>x. le_digits 8 (uint x)) w)"
    by (simp only: store_words_le_def bytes_of_word)
  show "length (store_words_le w) = 8 * length w"
    unfolding * by (induction w) simp_all
  show "le_val (store_words_le w) = le_val w"
    unfolding * by (induction w) (simp_all add: le_val_append le_val_le_digits uint_64_less)
qed

lemma fe_val_less:
  assumes "fe_below (2 ^ 59) t"
  shows "fe_val t < 2 ^ 265"
  using assms by (cases t) auto

lemma fe_add_19_correct:
  assumes "fe_below (2 ^ 59) t"
  shows "fe_below (2 ^ 60) (fe_add_19 t)" and "fe_val (fe_add_19 t) = fe_val t + 19"
proof -
  obtain t0 t1 t2 t3 t4 where t: "t = Fe t0 t1 t2 t3 t4" by (cases t)
  have "uint (t0 + 19) = uint t0 + 19"
    using assms by (subst uint_add_exact) (simp_all add: t)
  then show "fe_below (2 ^ 60) (fe_add_19 t)" "fe_val (fe_add_19 t) = fe_val t + 19"
    using assms by (simp_all add: t)
qed

lemma fe_add_2p255_19_correct:
  assumes "fe_below (2 ^ 59) t"
  shows "fe_below (2 ^ 60) (fe_add_2p255_19 t)"
    and "fe_val (fe_add_2p255_19 t) = fe_val t + 2 ^ 255 - 19"
proof -
  obtain t0 t1 t2 t3 t4 where t: "t = Fe t0 t1 t2 t3 t4" by (cases t)
  have u: "uint (x + 0x7ffffffffffed) = uint x + 0x7ffffffffffed"
    "uint (x + 0x7ffffffffffff) = uint x + 0x7ffffffffffff"
    if "uint x < 576460752303423488" for x :: u64
    using that by (subst uint_add_exact; simp)+
  show "fe_below (2 ^ 60) (fe_add_2p255_19 t)" "fe_val (fe_add_2p255_19 t) = fe_val t + 2 ^ 255 - 19"
    using assms by (simp_all add: t u)
qed

lemma fe_drop_pass_correct:
  assumes "fe_below (2 ^ 60) t"
  shows "fe_below (2 ^ 51) (fe_drop_top (fe_chain t))"
    and "fe_val (fe_drop_top (fe_chain t)) = fe_val t mod 2 ^ 255"
proof -
  obtain t0 t1 t2 t3 t4 where t: "t = Fe t0 t1 t2 t3 t4" by (cases t)
  obtain s0 s1 s2 s3 s4 where s: "fe_chain t = Fe s0 s1 s2 s3 s4"
    and v: "fe_val (Fe s0 s1 s2 s3 s4) = fe_val t" and b4: "uint s4 < 2 ^ 60 + 2 ^ 13"
    and b: "uint s0 < 2 ^ 51" "uint s1 < 2 ^ 51" "uint s2 < 2 ^ 51" "uint s3 < 2 ^ 51"
    by (rule fe_chain_correct [of t0 t1 t2 t3 t4, folded t, OF assms(1)])
  note nn = uint_nonneg_less(1)
  note dm = low_limbs_div_mod(1) [OF nn b(1) nn b(2) nn b(3) nn b(4), of "uint s4"]
  show "fe_below (2 ^ 51) (fe_drop_top (fe_chain t))"
    using b fe_mask_less [of s4] by (simp add: s)
  show "fe_val (fe_drop_top (fe_chain t)) = fe_val t mod 2 ^ 255"
    unfolding v [symmetric] s fe_drop_top.simps fe_val.simps fe_mask_eq uint_and_mask dm ..
qed

lemma fe_below_mono: "fe_below A t \<Longrightarrow> A \<le> B \<Longrightarrow> fe_below B t"
  by (cases t) auto

lemma viltrum_fe_tobytes_correct:
  assumes "fe_loose a"
  shows "length (viltrum_fe_tobytes a) = 32"
    and "le_val (viltrum_fe_tobytes a) = fe_val a mod p25519"
proof -
  have a: "fe_below (2 ^ 59) a"
    using assms unfolding fe_loose_def by (rule fe_below_mono) simp
  define f where "f = (\<lambda>v::int. v mod 2 ^ 255 + 19 * (v div 2 ^ 255))"
  have pass: "fe_below (2 ^ 59) (fe_fold_top (fe_chain t)) \<and> fe_val (fe_fold_top (fe_chain t)) = f (fe_val t)"
    if "fe_below (2 ^ 60) t" for t
    using fe_pass_correct [OF that] by (simp add: f_def)
  have up: "fe_below (2 ^ 60) t" if "fe_below (2 ^ 59) t" for t
    using that by (rule fe_below_mono) simp
  define t1 t2 t3 t4 where "t1 = fe_fold_top (fe_chain a)" and "t2 = fe_fold_top (fe_chain t1)"
    and "t3 = fe_fold_top (fe_chain (fe_add_19 t2))"
    and "t4 = fe_drop_top (fe_chain (fe_add_2p255_19 t3))"
  have t1: "fe_below (2 ^ 59) t1" "fe_val t1 = f (fe_val a)"
    using pass [OF up [OF a]] by (simp_all add: t1_def)
  have t2: "fe_below (2 ^ 59) t2" "fe_val t2 = f (fe_val t1)"
    using pass [OF up [OF t1(1)]] by (simp_all add: t2_def)
  have t3: "fe_below (2 ^ 59) t3" "fe_val t3 = f (fe_val t2 + 19)"
    using pass [OF fe_add_19_correct(1) [OF t2(1)]] fe_add_19_correct(2) [OF t2(1)]
    by (simp_all add: t3_def)
  have t4: "fe_below (2 ^ 51) t4" "fe_val t4 = (fe_val t3 + 2 ^ 255 - 19) mod 2 ^ 255"
    using fe_drop_pass_correct [OF fe_add_2p255_19_correct(1) [OF t3(1)]]
      fe_add_2p255_19_correct(2) [OF t3(1)]
    by (simp_all only: t4_def)
  have "viltrum_fe_tobytes a = store_words_le (fe_pack t4)"
    by (cases a) (simp add: viltrum_fe_tobytes_def Let_def t1_def t2_def t3_def t4_def
      del: fe_chain.simps fe_fold_top.simps fe_drop_top.simps fe_pack.simps fe_add_19.simps fe_add_2p255_19.simps)
  moreover have "length (fe_pack t4) = 4" by (cases t4) simp
  moreover have "fe_val t4 = fe_val a mod p25519"
    unfolding t4(2) t3(2) t2(2) t1(2) f_def
    by (intro canonical_residue fe_val_nonneg fe_val_less a)
  ultimately show "length (viltrum_fe_tobytes a) = 32" "le_val (viltrum_fe_tobytes a) = fe_val a mod p25519"
    by (simp_all add: store_words_le_correct le_val_fe_pack [OF t4(1)])
qed

section \<open>Inversion\<close>

lemma viltrum_fe_invert_rep:
  assumes "residue_of fe_val p25519 fe_tight z v"
  shows "residue_of fe_val p25519 fe_tight (viltrum_fe_invert z) (v ^ (2 ^ 255 - 21))"
proof -
  note pow = fe.pow_mul fe.pow_sq fe.pow_sqn
  have z1: "residue_of fe_val p25519 fe_tight z (v ^ 1)" using assms by simp
  show ?thesis
    unfolding viltrum_fe_invert_def Let_def
    by (rule pow z1 | simp)+
qed

section \<open>Specification: the Montgomery ladder on residues\<close>

text \<open>
  RFC 7748 section 5 with the conditional swaps resolved: \<open>P\<close> and \<open>Q\<close> are projective
  u-coordinates of \<open>m * U\<close> and \<open>(m + 1) * U\<close> for the bits \<open>m\<close> of the scalar read so far. A zero
  bit doubles \<open>P\<close>, a one bit doubles \<open>Q\<close>, and the other becomes their sum.
\<close>

fun x25519_dbladd :: "int \<Rightarrow> int \<times> int \<Rightarrow> int \<times> int \<Rightarrow> (int \<times> int) \<times> (int \<times> int)" where
  "x25519_dbladd u (x2, z2) (x3, z3) =
     (let aa = (x2 + z2) ^ 2; bb = (x2 - z2) ^ 2; e = aa - bb;
          da = (x3 - z3) * (x2 + z2); cb = (x3 + z3) * (x2 - z2)
      in ((aa * bb mod p25519, e * (aa + 121665 * e) mod p25519),
          ((da + cb) ^ 2 mod p25519, u * (da - cb) ^ 2 mod p25519)))"

declare x25519_dbladd.simps [simp del]

text \<open>The pairs of the ladder are \<open>(P, Q)\<close>; \<open>x25519_dbladd u P Q\<close> is \<open>(2 * P, P + Q)\<close>.\<close>

fun x25519_ladder :: "int \<Rightarrow> int \<Rightarrow> nat \<Rightarrow> int \<times> int \<Rightarrow> int \<times> int \<Rightarrow> (int \<times> int) \<times> (int \<times> int)" where
  "x25519_ladder u k 0 P Q = (P, Q)"
| "x25519_ladder u k (Suc t) P Q =
     (if bit k t
      then x25519_ladder u k t (snd (x25519_dbladd u Q P)) (fst (x25519_dbladd u Q P))
      else x25519_ladder u k t (fst (x25519_dbladd u P Q)) (snd (x25519_dbladd u P Q)))"

definition x25519_clamp :: "int \<Rightarrow> int" where
  "x25519_clamp k = 8 * (k div 8 mod 2 ^ 251) + 2 ^ 254"

definition x25519_spec :: "int \<Rightarrow> int \<Rightarrow> int" where
  "x25519_spec k u =
     (case x25519_ladder u k 255 (1, 0) (u, 1) of ((x2, z2), _) \<Rightarrow>
        x2 * z2 ^ (2 ^ 255 - 21) mod p25519)"

section \<open>The ladder implements the specification\<close>

definition fe_point :: "fe \<Rightarrow> fe \<Rightarrow> int \<times> int \<Rightarrow> bool" where
  "fe_point x z P \<longleftrightarrow>
     residue_of fe_val p25519 fe_tight x (fst P) \<and> residue_of fe_val p25519 fe_tight z (snd P)"

definition ladder_rel :: "ladder \<Rightarrow> int \<times> int \<Rightarrow> int \<times> int \<Rightarrow> bool" where
  "ladder_rel s P Q \<longleftrightarrow>
     (lswap s = 0 \<and> fe_point (lx2 s) (lz2 s) P \<and> fe_point (lx3 s) (lz3 s) Q) \<or>
     (lswap s = 1 \<and> fe_point (lx2 s) (lz2 s) Q \<and> fe_point (lx3 s) (lz3 s) P)"

lemma fe_double_add:
  assumes "residue_of fe_val p25519 fe_tight x1 u" and "fe_point x2 z2 P" and "fe_point x3 z3 Q"
    and "x25519_dbladd u P Q = (D, S)"
  defines "a \<equiv> viltrum_fe_add x2 z2" and "b \<equiv> viltrum_fe_sub x2 z2"
  defines "e \<equiv> viltrum_fe_sub (viltrum_fe_sq a) (viltrum_fe_sq b)"
    and "da \<equiv> viltrum_fe_mul (viltrum_fe_sub x3 z3) a" and "cb \<equiv> viltrum_fe_mul (viltrum_fe_add x3 z3) b"
  shows "fe_point (viltrum_fe_mul (viltrum_fe_sq a) (viltrum_fe_sq b))
           (viltrum_fe_mul e (viltrum_fe_add (viltrum_fe_sq a) (viltrum_fe_mul_a24 e))) D"
    and "fe_point (viltrum_fe_sq (viltrum_fe_add da cb))
           (viltrum_fe_mul x1 (viltrum_fe_sq (viltrum_fe_sub da cb))) S"
proof -
  obtain X2 Z2 X3 Z3 where PQ: "P = (X2, Z2)" "Q = (X3, Z3)" by (cases P; cases Q)
  note * = fe.rep_double_add [of x1 u x2 X2 z2 Z2 x3 X3 z3 Z3]
  show "fe_point (viltrum_fe_mul (viltrum_fe_sq a) (viltrum_fe_sq b))
           (viltrum_fe_mul e (viltrum_fe_add (viltrum_fe_sq a) (viltrum_fe_mul_a24 e))) D"
    "fe_point (viltrum_fe_sq (viltrum_fe_add da cb))
           (viltrum_fe_mul x1 (viltrum_fe_sq (viltrum_fe_sub da cb))) S"
    using assms(1-4) * unfolding a_def b_def e_def da_def cb_def
    by (auto simp: fe_point_def PQ Let_def x25519_dbladd.simps)
qed

lemma scalar_bit_eq:
  assumes "length k = 32" and "pos < 256"
  shows "scalar_bit k pos = of_bool (bit (le_val k) pos)"
proof -
  have "bit (le_val k) pos \<longleftrightarrow> bit (k ! (pos div 8)) (pos mod 8)"
    using bit_le_val [of pos k] assms by simp
  moreover have "scalar_bit k pos = of_bool (bit (k ! (pos div 8)) (pos mod 8))"
    by (rule bit_word_eqI) (auto simp: scalar_bit_def bit_simps)
  ultimately show ?thesis by simp
qed

lemma ladder_step_rel:
  assumes "length k = 32" and "pos < 256" and "residue_of fe_val p25519 fe_tight x1 u"
    and "ladder_rel s P Q"
  shows "if bit (le_val k) pos
    then ladder_rel (ladder_step k x1 pos s) (snd (x25519_dbladd u Q P)) (fst (x25519_dbladd u Q P))
    else ladder_rel (ladder_step k x1 pos s) (fst (x25519_dbladd u P Q)) (snd (x25519_dbladd u P Q))"
proof -
  obtain D S where pq: "x25519_dbladd u P Q = (D, S)" by (cases "x25519_dbladd u P Q")
  obtain D' S' where qp: "x25519_dbladd u Q P = (D', S')" by (cases "x25519_dbladd u Q P")
  note da = fe_double_add [OF assms(3) _ _ pq] fe_double_add [OF assms(3) _ _ qp]
  show ?thesis
    using assms(4) da
    by (auto simp: ladder_rel_def ladder_step_def scalar_bit_eq [OF assms(1,2)] viltrum_fe_cswap_correct Let_def pq qp)
qed

lemma ladder_loop_rel:
  assumes "length k = 32" and "residue_of fe_val p25519 fe_tight x1 u"
  shows "n \<le> 256 \<Longrightarrow> ladder_rel s P Q \<Longrightarrow>
    ladder_rel (ladder_loop k x1 n s) (fst (x25519_ladder u (le_val k) n P Q))
      (snd (x25519_ladder u (le_val k) n P Q))"
proof (induction n arbitrary: s P Q)
  case 0
  then show ?case by simp
next
  case (Suc n)
  then have "n < 256" "n \<le> 256" by simp_all
  with ladder_step_rel [OF assms(1) _ assms(2) Suc.prems(2)] show ?case
    by (auto intro: Suc.IH split: if_splits)
qed

lemma fe_tight_of_below: "fe_below (2 ^ 51) a \<Longrightarrow> fe_tight a"
  unfolding fe_tight_def by (erule fe_below_mono) simp

lemma length_clamp_scalar [simp]: "length (clamp_scalar scalar) = length scalar"
  by (simp add: clamp_scalar_def Let_def)

lemma uint_clamp_low: "uint (b AND 248 :: u8) = 8 * (uint b div 8)"
proof -
  have "b AND NOT (mask 3) = push_bit 3 (drop_bit 3 b)"
    by (rule bit_word_eqI) (auto simp: bit_simps)
  moreover have "(248::u8) = NOT (mask 3)" by code_simp
  moreover have "uint b div 8 * 8 < 256" "0 \<le> uint b div 8"
    using uint_lt2p [of b] by (simp_all add: pos_imp_zdiv_nonneg_iff)
  ultimately show ?thesis
    by (simp add: uint_push_bit uint_drop_bit)
qed

lemma uint_clamp_high: "uint ((b AND 127) OR 64 :: u8) = uint b mod 64 + 64"
proof -
  have "(b AND 127) OR 64 = (b AND mask 6) OR 64"
    by (rule bit_word_eqI) (auto simp: bit_simps less_Suc_eq numeral_eq_Suc elim!: less_SucE)
  moreover have "uint (b AND mask 6) = uint b mod 64"
    using uint_and_mask [of b 6] by simp
  ultimately show ?thesis
    using uint_or_disjoint [of "b AND mask 6" 6 64] by simp
qed

lemma le_val_clamp_scalar:
  assumes "length scalar = 32"
  shows "le_val (clamp_scalar scalar) = x25519_clamp (le_val scalar)"
proof -
  obtain b0 mid b31 where sc: "scalar = b0 # mid @ [b31]" and mid: "length mid = 30"
    using assms by (cases scalar; cases "tl scalar" rule: rev_cases) auto
  define M where "M = le_val mid"
  have M: "0 \<le> M" "M < 2 ^ 240" using le_val_less [of mid] mid by (simp_all add: M_def)
  have "clamp_scalar scalar = (b0 AND 248) # mid @ [(b31 AND 127) OR 64]"
    using mid by (simp add: clamp_scalar_def sc nth_append list_update_append Let_def)
  then have v: "le_val (clamp_scalar scalar) = 8 * (uint b0 div 8) + 2 ^ 8 * M + 2 ^ 248 * (uint b31 mod 64 + 64)"
    using mid by (simp add: le_val_append M_def uint_clamp_low uint_clamp_high algebra_simps)
  have b0: "0 \<le> uint b0 div 8" "uint b0 div 8 < 2 ^ 5" "0 \<le> uint b0 mod 8" "uint b0 mod 8 < 8"
    using uint_lt2p [of b0] by (simp_all add: pos_imp_zdiv_nonneg_iff)
  define q r where "q = uint b31 div 64" and "r = uint b31 mod 64"
  have b31: "uint b31 = 64 * q + r" by (simp add: q_def r_def)
  define X where "X = uint b0 div 8 + 2 ^ 5 * M + 2 ^ 245 * r"
  have "uint b0 = 8 * (uint b0 div 8) + uint b0 mod 8" by simp
  then have "le_val scalar = 8 * (X + 2 ^ 251 * q) + uint b0 mod 8"
    using mid by (simp add: sc le_val_append M_def [symmetric] X_def b31)
  then have "le_val scalar div 8 = X + 2 ^ 251 * q"
    using b0 by simp
  moreover have "0 \<le> r" "r \<le> 63"
    by (simp_all add: r_def)
  then have "0 \<le> X" "X < 2 ^ 251"
    using b0 M by (simp_all add: X_def)
  ultimately have "le_val scalar div 8 mod 2 ^ 251 = X"
    by (simp only: mod_mult_self2 mod_pos_pos_trivial)
  then show ?thesis
    by (simp add: v x25519_clamp_def X_def r_def)
qed

lemma viltrum_x25519_val:
  assumes "length scalar = 32" and "length point = 32"
  shows "length (viltrum_x25519 scalar point) = 32"
    and "le_val (viltrum_x25519 scalar point) =
      x25519_spec (x25519_clamp (le_val scalar)) (le_val point mod 2 ^ 255)"
proof -
  define k where "k = clamp_scalar scalar"
  define x1 where "x1 = viltrum_fe_frombytes point"
  define u where "u = le_val point mod 2 ^ 255"
  have k: "length k = 32" "le_val k = x25519_clamp (le_val scalar)"
    using assms by (simp_all add: k_def le_val_clamp_scalar)
  have x1: "residue_of fe_val p25519 fe_tight x1 u"
    using viltrum_fe_frombytes_correct [OF assms(2)]
    by (simp add: residue_of_def fe_tight_of_below x1_def u_def)
  define s0 where "s0 = \<lparr>lx2 = Fe 1 0 0 0 0, lz2 = Fe 0 0 0 0 0, lx3 = viltrum_fe_copy x1,
      lz3 = Fe 1 0 0 0 0, lswap = 0\<rparr>"
  have "viltrum_fe_copy x1 = x1" by (cases x1) simp
  then have "ladder_rel s0 (1, 0) (u, 1)"
    using x1 by (simp add: ladder_rel_def s0_def fe_point_def residue_of_def fe_tight_def)
  then have rel: "ladder_rel (ladder_loop k x1 255 s0) (fst (x25519_ladder u (le_val k) 255 (1, 0) (u, 1)))
      (snd (x25519_ladder u (le_val k) 255 (1, 0) (u, 1)))"
    by (intro ladder_loop_rel k x1) simp
  obtain X2 Z2 X3 Z3 where L: "x25519_ladder u (le_val k) 255 (1, 0) (u, 1) = ((X2, Z2), (X3, Z3))"
    by (metis surj_pair)
  define s where "s = ladder_loop k x1 255 s0"
  obtain x2 z2 x3 z3 where sw: "viltrum_fe_cswap (lx2 s) (lx3 s) (lswap s) = (x2, x3)"
    "viltrum_fe_cswap (lz2 s) (lz3 s) (lswap s) = (z2, z3)"
    by (metis surj_pair)
  have xz: "residue_of fe_val p25519 fe_tight x2 X2" "residue_of fe_val p25519 fe_tight z2 Z2"
    using rel sw unfolding L s_def [symmetric]
    by (auto simp: ladder_rel_def fe_point_def viltrum_fe_cswap_correct)
  have res: "residue_of fe_val p25519 fe_tight (viltrum_fe_mul x2 (viltrum_fe_invert z2))
      (X2 * Z2 ^ (2 ^ 255 - 21))"
    by (intro fe.rep_mul fe.rep_loose xz viltrum_fe_invert_rep)
  have eq: "viltrum_x25519 scalar point = viltrum_fe_tobytes (viltrum_fe_mul x2 (viltrum_fe_invert z2))"
    using sw by (simp add: viltrum_x25519_def Let_def k_def [symmetric] x1_def [symmetric]
        s0_def [symmetric] s_def [symmetric])
  have "x25519_spec (le_val k) u = X2 * Z2 ^ (2 ^ 255 - 21) mod p25519"
    by (simp only: x25519_spec_def L prod.case)
  then show "length (viltrum_x25519 scalar point) = 32"
    "le_val (viltrum_x25519 scalar point) = x25519_spec (x25519_clamp (le_val scalar)) (le_val point mod 2 ^ 255)"
    using viltrum_fe_tobytes_correct [of "viltrum_fe_mul x2 (viltrum_fe_invert z2)"] res
    by (auto simp: eq residue_of_def k(2) u_def)
qed

section \<open>Properties\<close>

text \<open>
  C3. X25519: for every 32-byte scalar and point, \<^verbatim>\<open>viltrum_x25519\<close> (64-bit limbs, 128-bit
  products, masked swaps, lazy reductions) returns the 32-byte little-endian encoding of the
  result of RFC 7748's ladder over the integers modulo \<open>2 ^ 255 - 19\<close>, on the clamped scalar and
  the point with its top bit ignored. In particular no intermediate wraps around, and the
  result is the canonical encoding.
\<close>

theorem x25519_implements_ladder:
  assumes "length scalar = 32" and "length point = 32"
  shows "viltrum_x25519 scalar point =
    le_digits 32 (x25519_spec (x25519_clamp (le_val scalar)) (le_val point mod 2 ^ 255))"
  using viltrum_x25519_val [OF assms] by (metis le_digits_le_val)

theorem x25519_implements_ladder_witness:
  "viltrum_x25519 (replicate 32 1) (9 # replicate 31 0) =
    le_digits 32 (x25519_spec (x25519_clamp (le_val (replicate 32 (1::u8))))
      (le_val (9 # replicate 31 (0::u8)) mod 2 ^ 255))"
  by (rule x25519_implements_ladder) simp_all

text \<open>
  \<^verbatim>\<open>viltrum_x25519_base\<close> computes the public key: the ladder on the base point 9.
\<close>

theorem x25519_base_point:
  assumes "length scalar = 32"
  shows "viltrum_x25519_base scalar = le_digits 32 (x25519_spec (x25519_clamp (le_val scalar)) 9)"
proof -
  have "length (9 # replicate 31 (0::u8)) = 32" by simp
  note v = viltrum_x25519_val [OF assms this]
  moreover have "le_val (9 # replicate 31 (0::u8)) mod 2 ^ 255 = 9" by simp
  ultimately show ?thesis
    unfolding viltrum_x25519_base_def by (metis le_digits_le_val)
qed

theorem x25519_base_point_witness:
  "viltrum_x25519_base (replicate 32 5) = le_digits 32 (x25519_spec (x25519_clamp (le_val (replicate 32 (5::u8)))) 9)"
  by (rule x25519_base_point) simp

text \<open>
  C24. Encoding is canonical and decoding inverts it: \<^verbatim>\<open>viltrum_fe_tobytes\<close> writes 32 bytes whose
  value is the residue in \<open>[0, p)\<close>, and \<^verbatim>\<open>viltrum_fe_frombytes\<close> reads the same residue back.
\<close>

theorem fe_bytes_roundtrip:
  assumes "fe_loose a"
  shows "length (viltrum_fe_tobytes a) = 32 \<and> le_val (viltrum_fe_tobytes a) < p25519 \<and>
    fe_val (viltrum_fe_frombytes (viltrum_fe_tobytes a)) = fe_val a mod p25519"
proof -
  note t = viltrum_fe_tobytes_correct [OF assms]
  have p: "p25519 < 2 ^ 255" "0 < p25519" by (simp_all add: p25519_def)
  then have "fe_val a mod p25519 < 2 ^ 255" using less_trans [OF pos_mod_bound] by blast
  then have "le_val (viltrum_fe_tobytes a) mod 2 ^ 255 = fe_val a mod p25519"
    unfolding t(2) using p(2) by (intro mod_pos_pos_trivial) simp_all
  then show ?thesis using viltrum_fe_frombytes_correct(2) [OF t(1)] t p(2) by simp
qed

theorem fe_bytes_roundtrip_witness:
  "le_val (viltrum_fe_tobytes (Fe 0x3fffffffffffff 0 0 0 7)) < p25519 \<and>
   fe_val (viltrum_fe_frombytes (viltrum_fe_tobytes (Fe 0x3fffffffffffff 0 0 0 7))) =
     fe_val (Fe 0x3fffffffffffff 0 0 0 7) mod p25519"
  using fe_bytes_roundtrip [of "Fe 0x3fffffffffffff 0 0 0 7"] by (simp add: fe_loose_def)

end
