(* ===== verification/Hs13Flight.thy ===== *)
theory Hs13Flight
  imports Hs13Msg Pss X25519
begin

unbundle bit_operations_syntax

text \<open>
  The key schedule and the server flight of \<^verbatim>\<open>src/engine/hs13.h\<close>. A call that can fail with a nonzero result is
  an inner option, an access outside a buffer an outer \<open>None\<close>. \<^verbatim>\<open>viltrum_hs13_flight_with\<close> is the list of its
  steps on a record of its local and output variables: each step goes on or leaves for \<^verbatim>\<open>done\<close>. A small logic of
  such lists (\<open>wp\<close>) carries the proofs.
\<close>

section \<open>The key schedule\<close>

definition and_then :: "'a option option \<Rightarrow> ('a \<Rightarrow> 'b option option) \<Rightarrow> 'b option option" where
  "and_then x k = (case x of None \<Rightarrow> None | Some None \<Rightarrow> Some None | Some (Some y) \<Rightarrow> k y)"

definition viltrum_hs13_schedule ::
  "'c mbed \<Rightarrow> u8 list \<Rightarrow> u8 list \<Rightarrow> (u8 list \<times> u8 list \<times> u8 list) option option" where
  "viltrum_hs13_schedule L shared th =
     (let zeros = replicate 32 0 in
      and_then (Some (md_sha256 L [])) (\<lambda>empty_hash.
      and_then (Some (hkdf_extract L zeros zeros)) (\<lambda>early.
      and_then (viltrum_hs13_expand L early ''derived'' empty_hash 32) (\<lambda>derived.
      and_then (Some (hkdf_extract L derived shared)) (\<lambda>hs_secret.
      and_then (viltrum_hs13_expand L hs_secret ''c hs traffic'' th 32) (\<lambda>c_hs.
      and_then (viltrum_hs13_expand L hs_secret ''s hs traffic'' th 32) (\<lambda>s_hs.
      and_then (viltrum_hs13_expand L hs_secret ''derived'' empty_hash 32) (\<lambda>derived.
      and_then (Some (hkdf_extract L derived zeros)) (\<lambda>master.
      Some (Some (c_hs, s_hs, master)))))))))))"

definition viltrum_hs13_traffic :: "'c mbed \<Rightarrow> u8 list \<Rightarrow> (u8 list \<times> u8 list) option option" where
  "viltrum_hs13_traffic L secret =
     and_then (viltrum_hs13_expand L secret ''key'' [] 16) (\<lambda>key.
     and_then (viltrum_hs13_expand L secret ''iv'' [] 12) (\<lambda>iv. Some (Some (key, iv))))"

definition viltrum_hs13_finished_mac :: "'c mbed \<Rightarrow> u8 list \<Rightarrow> u8 list \<Rightarrow> u8 list option option" where
  "viltrum_hs13_finished_mac L secret th =
     and_then (viltrum_hs13_expand L secret ''finished'' [] 32) (\<lambda>fin_key. Some (md_hmac L fin_key th))"

definition viltrum_hs13_app :: "'c mbed \<Rightarrow> u8 list \<Rightarrow> u8 list \<Rightarrow> (u8 list \<times> u8 list) option option" where
  "viltrum_hs13_app L master th =
     and_then (viltrum_hs13_expand L master ''c ap traffic'' th 32) (\<lambda>c_ap.
     and_then (viltrum_hs13_expand L master ''s ap traffic'' th 32) (\<lambda>s_ap. Some (Some (c_ap, s_ap))))"

section \<open>The server flight\<close>

text \<open>The arguments of \<^verbatim>\<open>viltrum_hs13_flight_with\<close>, and its variables.\<close>

record 'c hs13_args =
  a_lib :: "'c mbed"
  a_rnd :: "u8 list"
  a_ch :: "u8 list"
  a_hello :: viltrum_hs13_hello
  a_cert :: "u8 list"
  a_key :: viltrum_rsa
  a_tx :: viltrum_gcm
  a_out :: "u8 list"
  a_cap :: nat
  a_keys :: viltrum_hs13_keys

record 'c flight =
  f_out :: "u8 list"
  f_n :: nat
  f_seq :: u64
  f_run :: 'c
  f_pub :: "u8 list"
  f_shared :: "u8 list"
  f_th :: "u8 list"
  f_c_hs :: "u8 list"
  f_s_hs :: "u8 list"
  f_master :: "u8 list"
  f_s_key :: "u8 list"
  f_s_iv :: "u8 list"
  f_msg :: "u8 list"
  f_tx :: viltrum_gcm
  f_rsa :: viltrum_rsa
  f_keys :: viltrum_hs13_keys

type_synonym 'c flight_step = "'c flight \<Rightarrow> (bool \<times> 'c flight) option"

text \<open>\<^verbatim>\<open>if (a || b || ...) goto done\<close>: the steps of a list in turn, up to the first that fails.\<close>

fun steps :: "'c flight_step list \<Rightarrow> 'c flight_step" where
  "steps [] f = Some (True, f)"
| "steps (s # ss) f = do { (ok, f) \<leftarrow> s f; if ok then steps ss f else Some (False, f) }"

text \<open>A result of a fallible call stored into the variables.\<close>

definition store :: "'a option option \<Rightarrow> ('a \<Rightarrow> 'c flight) \<Rightarrow> 'c flight \<Rightarrow> (bool \<times> 'c flight) option" where
  "store x upd f = (case x of None \<Rightarrow> None | Some None \<Rightarrow> Some (False, f) | Some (Some y) \<Rightarrow> Some (True, upd y))"

definition check_args :: "nat \<Rightarrow> 'c flight_step" where
  "check_args cap f =
     (let sig_len = key_limbs (f_rsa f) * 8
      in Some (\<not> (\<not> key_ok (f_rsa f) \<or> 512 < sig_len \<or> cap < 5 + 128 + 6), f))"

definition key_exchange :: "u8 list \<Rightarrow> viltrum_hs13_hello \<Rightarrow> 'c flight_step" where
  "key_exchange rnd h f =
     (let priv = take 32 (drop 32 rnd);
          shared = viltrum_x25519 priv (h_share h);
          acc = fold (\<lambda>i acc. acc OR shared ! i) [0..<32] 0
      in Some (acc \<noteq> 0, f\<lparr>f_pub := viltrum_x25519_base priv, f_shared := shared\<rparr>))"

definition write_server_hello :: "u8 list \<Rightarrow> viltrum_hs13_hello \<Rightarrow> 'c flight_step" where
  "write_server_hello rnd h f = do {
     sh \<leftarrow> viltrum_hs13_server_hello h rnd (f_pub f);
     out \<leftarrow> put (f_out f) 5 sh;
     out \<leftarrow> put out 0 ([22, 3, 3] @ bytes16 (length sh));
     Some (True, f\<lparr>f_out := out, f_n := 5 + length sh\<rparr>) }"

definition hash_starts :: "'c mbed \<Rightarrow> 'c flight_step" where
  "hash_starts L f = store (Some (sha256_starts L (f_run f))) (\<lambda>c. f\<lparr>f_run := c\<rparr>) f"

definition hash_update :: "'c mbed \<Rightarrow> ('c flight \<Rightarrow> u8 list) \<Rightarrow> 'c flight_step" where
  "hash_update L m f = store (Some (sha256_update L (f_run f) (m f))) (\<lambda>c. f\<lparr>f_run := c\<rparr>) f"

definition hash_now :: "'c mbed \<Rightarrow> 'c flight_step" where
  "hash_now L f = store (Some (viltrum_hs13_hash_now L (f_run f))) (\<lambda>th. f\<lparr>f_th := th\<rparr>) f"

definition write_ccs :: "viltrum_hs13_hello \<Rightarrow> 'c flight_step" where
  "write_ccs h f =
     (if 0 < h_session_id_len h
      then do { out \<leftarrow> put (f_out f) (f_n f) [20, 3, 3, 0, 1, 1]; Some (True, f\<lparr>f_out := out, f_n := f_n f + 6\<rparr>) }
      else Some (True, f))"

definition derive_secrets :: "'c mbed \<Rightarrow> 'c flight_step" where
  "derive_secrets L f =
     store (viltrum_hs13_schedule L (f_shared f) (f_th f))
       (\<lambda>(c_hs, s_hs, master). f\<lparr>f_c_hs := c_hs, f_s_hs := s_hs, f_master := master\<rparr>) f"

definition server_traffic :: "'c mbed \<Rightarrow> 'c flight_step" where
  "server_traffic L f =
     store (viltrum_hs13_traffic L (f_s_hs f)) (\<lambda>(key, iv). f\<lparr>f_s_key := key, f_s_iv := iv\<rparr>) f"

definition client_traffic :: "'c mbed \<Rightarrow> 'c flight_step" where
  "client_traffic L f =
     store (viltrum_hs13_traffic L (f_c_hs f))
       (\<lambda>(key, iv). f\<lparr>f_keys := (f_keys f)\<lparr>k_c_key := key, k_c_iv := iv\<rparr>\<rparr>) f"

definition init_tx :: "'c flight_step" where
  "init_tx f = (case viltrum_gcm_init (f_tx f) (f_s_key f) 16 of (ret, g) \<Rightarrow> Some (ret = 0, f\<lparr>f_tx := g\<rparr>))"

text \<open>The buffer \<^verbatim>\<open>msg\<close> holds 520 bytes.\<close>

definition set_msg :: "u8 list \<Rightarrow> 'c flight \<Rightarrow> 'c flight option" where
  "set_msg m f = (if length m \<le> 4 + 4 + 512 then Some (f\<lparr>f_msg := m\<rparr>) else None)"

definition alpn_ext :: "viltrum_hs13_hello \<Rightarrow> u8 list" where
  "alpn_ext h =
     (if h_alpn h = 2 then [0, 16, 0, 5, 0, 3, 2] @ chars ''h2''
      else if h_alpn h = 1 then [0, 16, 0, 11, 0, 9, 8] @ chars ''http/1.1''
      else [])"

definition make_extensions :: "viltrum_hs13_hello \<Rightarrow> 'c flight_step" where
  "make_extensions h f = do {
     f \<leftarrow> set_msg ([8, 0, 0, of_nat (2 + length (alpn_ext h)), 0, of_nat (length (alpn_ext h))] @ alpn_ext h) f;
     Some (True, f) }"

definition seal_msg :: "nat \<Rightarrow> ('c flight \<Rightarrow> u8 list) \<Rightarrow> 'c flight_step" where
  "seal_msg cap m f = do {
     (ret, out, n, seq) \<leftarrow> viltrum_hs13_seal (f_tx f) (f_s_iv f) (f_seq f) (m f) (f_out f) cap (f_n f);
     Some (ret = 0, f\<lparr>f_out := out, f_n := n, f_seq := seq\<rparr>) }"

definition verify_content :: "u8 list \<Rightarrow> u8 list" where
  "verify_content th = replicate 64 0x20 @ chars ''TLS 1.3, server CertificateVerify'' @ [0] @ th"

definition make_verify :: "'c mbed \<Rightarrow> u8 list \<Rightarrow> 'c flight_step" where
  "make_verify L rnd f =
     (let sig_len = key_limbs (f_rsa f) * 8
      in case md_sha256 L (verify_content (f_th f)) of
           None \<Rightarrow> Some (False, f)
         | Some mhash \<Rightarrow> do {
             (ret, sig, key) \<leftarrow> viltrum_rsa_pss_sha256 (md_sha256 L) (f_rsa f) mhash (drop 64 rnd);
             let f = f\<lparr>f_rsa := key\<rparr>;
             if ret \<noteq> 0 then Some (False, f)
             else do {
               sig \<leftarrow> sig;
               f \<leftarrow> set_msg ([15] @ bytes24 (4 + sig_len) @
                 [ucast (drop_bit 8 VILTRUM_HS13_SIG_PSS_SHA256), ucast (VILTRUM_HS13_SIG_PSS_SHA256 AND 0xff)] @
                 bytes16 sig_len @ sig) f;
               Some (True, f) } })"

definition make_finished :: "'c mbed \<Rightarrow> 'c flight_step" where
  "make_finished L f =
     (case viltrum_hs13_finished_mac L (f_s_hs f) (f_th f) of
        None \<Rightarrow> None
      | Some None \<Rightarrow> Some (False, f)
      | Some (Some mac) \<Rightarrow> do { f \<leftarrow> set_msg ([20, 0, 0, 32] @ mac) f; Some (True, f) })"

definition app_secrets :: "'c mbed \<Rightarrow> 'c flight_step" where
  "app_secrets L f =
     store (viltrum_hs13_app L (f_master f) (f_th f))
       (\<lambda>(c_ap, s_ap). f\<lparr>f_keys := (f_keys f)\<lparr>k_c_ap := c_ap, k_s_ap := s_ap\<rparr>\<rparr>) f"

definition client_finished :: "'c mbed \<Rightarrow> 'c flight_step" where
  "client_finished L f =
     store (viltrum_hs13_finished_mac L (f_c_hs f) (f_th f)) (\<lambda>mac. f\<lparr>f_keys := (f_keys f)\<lparr>k_c_fin := mac\<rparr>\<rparr>) f"

definition keep_iv :: "'c flight_step" where
  "keep_iv f = Some (True, f\<lparr>f_keys := (f_keys f)\<lparr>k_s_iv := take 12 (f_s_iv f), k_s_seq := f_seq f\<rparr>\<rparr>)"

definition flight_start :: "'c hs13_args \<Rightarrow> 'c flight_step list" where
  "flight_start a = (let L = a_lib a; h = a_hello a in
     [check_args (a_cap a), key_exchange (a_rnd a) h, write_server_hello (a_rnd a) h,
      hash_starts L, hash_update L (\<lambda>_. a_ch a), hash_update L (\<lambda>f. take (f_n f - 5) (drop 5 (f_out f))), hash_now L,
      write_ccs h])"

definition flight_secrets :: "'c hs13_args \<Rightarrow> 'c flight_step list" where
  "flight_secrets a = (let L = a_lib a in [derive_secrets L, server_traffic L, client_traffic L, init_tx])"

definition flight_certificate :: "'c hs13_args \<Rightarrow> 'c flight_step list" where
  "flight_certificate a = (let L = a_lib a in
     [make_extensions (a_hello a),
      hash_update L f_msg, hash_update L (\<lambda>_. a_cert a), seal_msg (a_cap a) f_msg, seal_msg (a_cap a) (\<lambda>_. a_cert a),
      hash_now L])"

definition flight_verify :: "'c hs13_args \<Rightarrow> 'c flight_step list" where
  "flight_verify a = (let L = a_lib a in
     [make_verify L (a_rnd a), hash_update L f_msg, seal_msg (a_cap a) f_msg, hash_now L])"

definition flight_finished :: "'c hs13_args \<Rightarrow> 'c flight_step list" where
  "flight_finished a = (let L = a_lib a in
     [make_finished L, hash_update L f_msg, seal_msg (a_cap a) f_msg, hash_now L,
      app_secrets L, client_finished L, keep_iv])"

definition flight_init :: "'c hs13_args \<Rightarrow> 'c flight" where
  "flight_init a =
     \<lparr>f_out = a_out a, f_n = 0, f_seq = 0, f_run = sha256_init (a_lib a), f_pub = [], f_shared = [], f_th = [],
      f_c_hs = [], f_s_hs = [], f_master = [], f_s_key = [], f_s_iv = [], f_msg = [],
      f_tx = a_tx a, f_rsa = a_key a, f_keys = a_keys a\<rparr>"

text \<open>
  The result: the return value, \<^verbatim>\<open>*out_len\<close>, the buffer, the keys, and the two states that were used. The wipes of
  local secrets at \<^verbatim>\<open>done\<close> have no value to return.
\<close>

record flight_result =
  r_ret :: int
  r_out_len :: nat
  r_out :: "u8 list"
  r_keys :: viltrum_hs13_keys
  r_tx :: viltrum_gcm
  r_key :: viltrum_rsa

definition viltrum_hs13_flight_with :: "'c hs13_args \<Rightarrow> flight_result option" where
  "viltrum_hs13_flight_with a = do {
     (ok, f) \<leftarrow> steps (flight_start a @ flight_secrets a @ flight_certificate a @ flight_verify a @ flight_finished a)
       (flight_init a);
     Some \<lparr>r_ret = (if ok then 0 else - 1), r_out_len = (if ok then f_n f else 0), r_out = f_out f,
       r_keys = (if ok then f_keys f else keys_wipe (f_keys f)), r_tx = f_tx f, r_key = f_rsa f\<rparr> }"

text \<open>
  \<^verbatim>\<open>viltrum_hs13_flight\<close>: \<open>drbg\<close> is what the generator returned, \<open>None\<close> for an error; then \<^verbatim>\<open>*out_len\<close> and the
  keys are left as the caller set them.
\<close>

definition viltrum_hs13_flight :: "u8 list option \<Rightarrow> nat \<Rightarrow> 'c hs13_args \<Rightarrow> flight_result option" where
  "viltrum_hs13_flight drbg out_len a =
     (case drbg of
        None \<Rightarrow> Some \<lparr>r_ret = - 1, r_out_len = out_len, r_out = a_out a, r_keys = a_keys a, r_tx = a_tx a, r_key = a_key a\<rparr>
      | Some rnd \<Rightarrow> viltrum_hs13_flight_with (a\<lparr>a_rnd := rnd\<rparr>))"

definition viltrum_hs13_supported :: "bool \<Rightarrow> bool \<Rightarrow> bool \<Rightarrow> bool" where
  "viltrum_hs13_supported aesgcm x25519 rsa \<longleftrightarrow> aesgcm \<and> x25519 \<and> rsa"

section \<open>What is relied on and what is promised\<close>

primrec feed :: "'c mbed \<Rightarrow> 'c \<Rightarrow> u8 list list \<Rightarrow> 'c option" where
  "feed L c [] = Some c"
| "feed L c (m # ms) = do { c \<leftarrow> sha256_update L c m; feed L c ms }"

definition hashed :: "'c mbed \<Rightarrow> u8 list list \<Rightarrow> 'c \<Rightarrow> bool" where
  "hashed L ms c \<longleftrightarrow> (\<exists>c0. sha256_starts L (sha256_init L) = Some c0 \<and> feed L c0 ms = Some c)"

text \<open>
  The documented behaviour of mbedtls: a digest that is returned is SHA-256 (\<open>H\<close>) of the data, whole or fed in
  parts, and every output has the length asked for. \<open>mbed_total\<close> says that no call fails.
\<close>

definition mbed_spec :: "'c mbed \<Rightarrow> (u8 list \<Rightarrow> u8 list) \<Rightarrow> bool" where
  "mbed_spec L H \<longleftrightarrow>
     (\<forall>m. length (H m) = 32) \<and> (\<forall>m d. md_sha256 L m = Some d \<longrightarrow> d = H m) \<and>
     (\<forall>ms c d. hashed L ms c \<longrightarrow> sha256_finish L (sha256_clone L c) = Some d \<longrightarrow> d = H (concat ms)) \<and>
     (\<forall>s k d. hkdf_extract L s k = Some d \<longrightarrow> length d = 32) \<and>
     (\<forall>s i n d. hkdf_expand L s i n = Some d \<longrightarrow> length d = n) \<and>
     (\<forall>k m d. md_hmac L k m = Some d \<longrightarrow> length d = 32)"

definition mbed_total :: "'c mbed \<Rightarrow> bool" where
  "mbed_total L \<longleftrightarrow>
     (\<forall>c. sha256_starts L c \<noteq> None \<and> sha256_finish L c \<noteq> None) \<and> (\<forall>c m. sha256_update L c m \<noteq> None) \<and>
     (\<forall>m. md_sha256 L m \<noteq> None) \<and> (\<forall>s k. hkdf_extract L s k \<noteq> None) \<and>
     (\<forall>s i n. n \<le> 255 * 32 \<longrightarrow> hkdf_expand L s i n \<noteq> None) \<and> (\<forall>k m. md_hmac L k m \<noteq> None)"

text \<open>RFC 8446, 7.1: the secrets, and 7.3 and 4.4.4: traffic keys and Finished.\<close>

definition expand_label :: "'c mbed \<Rightarrow> u8 list \<Rightarrow> string \<Rightarrow> u8 list \<Rightarrow> nat \<Rightarrow> u8 list option" where
  "expand_label L secret label ctx n = hkdf_expand L secret (hkdf_label label ctx n) n"

definition key_schedule :: "'c mbed \<Rightarrow> u8 list \<Rightarrow> u8 list \<Rightarrow> (u8 list \<times> u8 list \<times> u8 list) option" where
  "key_schedule L shared th = do {
     empty \<leftarrow> md_sha256 L [];
     early \<leftarrow> hkdf_extract L (replicate 32 0) (replicate 32 0);
     derived \<leftarrow> expand_label L early ''derived'' empty 32;
     hs \<leftarrow> hkdf_extract L derived shared;
     c_hs \<leftarrow> expand_label L hs ''c hs traffic'' th 32;
     s_hs \<leftarrow> expand_label L hs ''s hs traffic'' th 32;
     derived \<leftarrow> expand_label L hs ''derived'' empty 32;
     master \<leftarrow> hkdf_extract L derived (replicate 32 0);
     Some (c_hs, s_hs, master) }"

definition traffic_keys :: "'c mbed \<Rightarrow> u8 list \<Rightarrow> (u8 list \<times> u8 list) option" where
  "traffic_keys L secret = do {
     key \<leftarrow> expand_label L secret ''key'' [] 16; iv \<leftarrow> expand_label L secret ''iv'' [] 12; Some (key, iv) }"

definition verify_data :: "'c mbed \<Rightarrow> u8 list \<Rightarrow> u8 list \<Rightarrow> u8 list option" where
  "verify_data L secret th = do { k \<leftarrow> expand_label L secret ''finished'' [] 32; md_hmac L k th }"

definition app_keys :: "'c mbed \<Rightarrow> u8 list \<Rightarrow> u8 list \<Rightarrow> (u8 list \<times> u8 list) option" where
  "app_keys L master th = do {
     c \<leftarrow> expand_label L master ''c ap traffic'' th 32; s \<leftarrow> expand_label L master ''s ap traffic'' th 32; Some (c, s) }"

lemma and_then_simps [simp]:
  "and_then (Some x) k = (case x of None \<Rightarrow> Some None | Some y \<Rightarrow> k y)"
  by (simp add: and_then_def split: option.split)

lemma expand_label_eq [simp]:
  "length label \<le> 32 \<Longrightarrow> length ctx \<le> 64 \<Longrightarrow> viltrum_hs13_expand L secret label ctx n = Some (expand_label L secret label ctx n)"
  by (simp add: expand_eq expand_info_eq expand_label_def)

lemma mbed_specD:
  assumes "mbed_spec L H"
  shows "length (H m) = 32" "md_sha256 L m = Some d \<Longrightarrow> d = H m"
    "hashed L ms c \<Longrightarrow> sha256_finish L (sha256_clone L c) = Some d \<Longrightarrow> d = H (concat ms)"
    "hkdf_extract L s k = Some d \<Longrightarrow> length d = 32" "expand_label L s l x n = Some d \<Longrightarrow> length d = n"
    "md_hmac L k m = Some d \<Longrightarrow> length d = 32"
  using assms unfolding mbed_spec_def expand_label_def by blast+

lemma schedule_eq:
  assumes "mbed_spec L H" "length th = 32"
  shows "viltrum_hs13_schedule L shared th = Some (key_schedule L shared th)"
proof (cases "md_sha256 L []")
  case (Some e)
  then have "length e = 32"
    using mbed_specD(1,2) [OF assms(1)] by metis
  then show ?thesis
    using assms(2) by (auto simp: viltrum_hs13_schedule_def key_schedule_def Some Let_def split: option.split bind_splits)
qed (simp add: viltrum_hs13_schedule_def key_schedule_def Let_def)

lemma traffic_eq: "viltrum_hs13_traffic L secret = Some (traffic_keys L secret)"
  by (simp add: viltrum_hs13_traffic_def traffic_keys_def split: option.split bind_splits)

lemma finished_mac_eq: "viltrum_hs13_finished_mac L secret th = Some (verify_data L secret th)"
  by (simp add: viltrum_hs13_finished_mac_def verify_data_def split: option.split bind_splits)

lemma app_eq: "length th = 32 \<Longrightarrow> viltrum_hs13_app L master th = Some (app_keys L master th)"
  by (simp add: viltrum_hs13_app_def app_keys_def split: option.split bind_splits)

section \<open>A logic of steps\<close>

text \<open>
  \<open>wp T I s Q f\<close>: from \<open>f\<close> the step makes no access outside a buffer, keeps \<open>I\<close>, does not fail if \<open>T\<close>, and
  reaches \<open>Q\<close> if it does not fail.
\<close>

definition wp :: "bool \<Rightarrow> ('c flight \<Rightarrow> bool) \<Rightarrow> 'c flight_step \<Rightarrow> ('c flight \<Rightarrow> bool) \<Rightarrow> 'c flight \<Rightarrow> bool" where
  "wp T I s Q f \<longleftrightarrow> (\<exists>ok f'. s f = Some (ok, f') \<and> I f' \<and> (T \<longrightarrow> ok) \<and> (ok \<longrightarrow> Q f'))"

lemma wp_Nil: "I f \<Longrightarrow> Q f \<Longrightarrow> wp T I (steps []) Q f"
  by (auto simp: wp_def)

lemma wp_Cons: "wp T I s (wp T I (steps ss) Q) f \<Longrightarrow> wp T I (steps (s # ss)) Q f"
  by (fastforce simp: wp_def)

lemma steps_append: "steps (as @ bs) f = do { (ok, f) \<leftarrow> steps as f; if ok then steps bs f else Some (False, f) }"
  by (induction as arbitrary: f) (auto split: bind_splits)

lemma wp_append: "wp T I (steps as) (wp T I (steps bs) Q) f \<Longrightarrow> wp T I (steps (as @ bs)) Q f"
  by (fastforce simp: wp_def steps_append)

lemma wp_mono: "wp T I s P f \<Longrightarrow> (\<And>f. I f \<Longrightarrow> P f \<Longrightarrow> Q f) \<Longrightarrow> wp T I s Q f"
  by (auto simp: wp_def)

lemma wp_ok: "s f = Some (True, f') \<Longrightarrow> I f' \<Longrightarrow> Q f' \<Longrightarrow> wp T I s Q f"
  by (auto simp: wp_def)

lemma wp_store:
  assumes "s f = store (Some x) upd f" "I f" "T \<Longrightarrow> x \<noteq> None" "\<And>y. x = Some y \<Longrightarrow> I (upd y) \<and> Q (upd y)"
  shows "wp T I s Q f"
  using assms by (cases x) (auto simp: wp_def store_def)

section \<open>The flight\<close>

text \<open>The messages of the flight, RFC 8446, 4.1.3, 4.3.1, 4.4.3 and 4.4.4, and the plaintext records before them.\<close>

abbreviation a_priv :: "'c hs13_args \<Rightarrow> u8 list" where
  "a_priv a \<equiv> take 32 (drop 32 (a_rnd a))"

definition a_shared :: "'c hs13_args \<Rightarrow> u8 list" where
  "a_shared a = viltrum_x25519 (a_priv a) (h_share (a_hello a))"

definition a_sid :: "'c hs13_args \<Rightarrow> u8 list" where
  "a_sid a = take (h_session_id_len (a_hello a)) (h_session_id (a_hello a))"

definition sh_msg :: "'c hs13_args \<Rightarrow> u8 list" where
  "sh_msg a = enc_server_hello (take 32 (a_rnd a)) (a_sid a) (viltrum_x25519_base (a_priv a))"

definition ee_msg :: "'c hs13_args \<Rightarrow> u8 list" where
  "ee_msg a = enc_handshake 8 (vec16 (
     if h_alpn (a_hello a) = 2 then enc16 16 @ vec16 (vec16 (vec8 proto_h2))
     else if h_alpn (a_hello a) = 1 then enc16 16 @ vec16 (vec16 (vec8 proto_http11))
     else []))"

definition cv_msg :: "u8 list \<Rightarrow> u8 list" where
  "cv_msg sig = enc_handshake 15 (enc16 0x0804 @ vec16 sig)"

definition fin_msg :: "u8 list \<Rightarrow> u8 list" where
  "fin_msg mac = enc_handshake 20 mac"

definition plain_record :: "u8 \<Rightarrow> u8 list \<Rightarrow> u8 list" where
  "plain_record t m = [t] @ enc16 0x0303 @ vec16 m"

definition flight_head :: "'c hs13_args \<Rightarrow> u8 list" where
  "flight_head a = plain_record 22 (sh_msg a) @ (if a_sid a = [] then [] else plain_record 20 [1])"

text \<open>What the caller provides, and what holds whenever the flight is left.\<close>

definition keys_shape :: "viltrum_hs13_keys \<Rightarrow> bool" where
  "keys_shape k \<longleftrightarrow> length (k_c_key k) = 16 \<and> length (k_c_iv k) = 12 \<and> length (k_c_fin k) = 32 \<and>
     length (k_c_ap k) = 32 \<and> length (k_s_ap k) = 32 \<and> length (k_s_iv k) = 12"

definition args_ok :: "'c hs13_args \<Rightarrow> bool" where
  "args_ok a \<longleftrightarrow> length (a_rnd a) = 96 \<and> length (h_session_id (a_hello a)) = 32 \<and> h_session_id_len (a_hello a) \<le> 32 \<and>
     length (h_share (a_hello a)) = 32 \<and> rsa_key_wf (a_key a) \<and> 9 \<le> key_limbs (a_key a) \<and> gcm_shape (a_tx a) \<and>
     a_cap a \<le> length (a_out a) \<and> keys_shape (a_keys a)"

definition flight_inv :: "'c hs13_args \<Rightarrow> 'c flight \<Rightarrow> bool" where
  "flight_inv a f \<longleftrightarrow> kept_outside 0 (a_cap a) (a_out a) (f_out f) \<and> rsa_key_wf (f_rsa f) \<and> keys_shape (f_keys f)"

text \<open>When nothing fails: a working library, a usable key, a share that is not of small order, and enough room.\<close>

definition flight_size :: "'c hs13_args \<Rightarrow> nat" where
  "flight_size a = length (flight_head a) + records_size (length (ee_msg a)) + records_size (length (a_cert a)) +
     records_size (8 + 8 * key_limbs (a_key a)) + records_size 36"

definition flight_good :: "'c hs13_args \<Rightarrow> bool" where
  "flight_good a \<longleftrightarrow> mbed_total (a_lib a) \<and> key_ok (a_key a) \<and> key_limbs (a_key a) \<le> 64 \<and>
     2 ^ (64 * key_limbs (a_key a) - 1) \<le> le_val (key_n (a_key a)) \<and> a_shared a \<noteq> replicate 32 0 \<and> flight_size a \<le> a_cap a"

definition started :: "(u8 list \<Rightarrow> u8 list) \<Rightarrow> 'c hs13_args \<Rightarrow> 'c flight \<Rightarrow> bool" where
  "started H a f \<longleftrightarrow> key_ok (a_key a) \<and> key_limbs (a_key a) \<le> 64 \<and> a_shared a \<noteq> replicate 32 0 \<and>
     f_shared f = a_shared a \<and> f_rsa f = a_key a \<and> f_tx f = a_tx a \<and> f_seq f = 0 \<and>
     hashed (a_lib a) [a_ch a, sh_msg a] (f_run f) \<and> f_th f = H (a_ch a @ sh_msg a) \<and>
     f_n f = length (flight_head a) \<and> take (f_n f) (f_out f) = flight_head a \<and> f_n f \<le> a_cap a"

lemma length_x25519: "length s = 32 \<Longrightarrow> length p = 32 \<Longrightarrow> length (viltrum_x25519 s p) = 32"
  using viltrum_x25519_val by metis

lemma length_x25519_base: "length s = 32 \<Longrightarrow> length (viltrum_x25519_base s) = 32"
  by (simp add: viltrum_x25519_base_def length_x25519)

lemma a_sid_Nil: "args_ok a \<Longrightarrow> a_sid a = [] \<longleftrightarrow> h_session_id_len (a_hello a) = 0"
  by (auto simp: args_ok_def a_sid_def)

definition ccs_bytes :: "viltrum_hs13_hello \<Rightarrow> u8 list" where
  "ccs_bytes h = (if 0 < h_session_id_len h then [20, 3, 3, 0, 1, 1] else [])"

lemma head_eq:
  "args_ok a \<Longrightarrow> flight_head a = ([22, 3, 3] @ bytes16 (length (sh_msg a)) @ sh_msg a) @ ccs_bytes (a_hello a)"
  using a_sid_Nil [of a] by (auto simp: ccs_bytes_def flight_head_def plain_record_def bytes16_enc16 vec16_def enc16_def)

lemma length_sh_msg: "args_ok a \<Longrightarrow> length (sh_msg a) = 90 + h_session_id_len (a_hello a)"
  by (simp add: sh_msg_def args_ok_def a_sid_def length_enc_server_hello length_x25519_base)

lemma server_hello_sh_msg:
  assumes "args_ok a"
  shows "viltrum_hs13_server_hello (a_hello a) (a_rnd a) (viltrum_x25519_base (a_priv a)) = Some (sh_msg a)"
proof -
  have "viltrum_hs13_server_hello (a_hello a) (a_rnd a) p = viltrum_hs13_server_hello (a_hello a) (take 32 (a_rnd a)) p" for p
    using assms by (simp add: viltrum_hs13_server_hello_def args_ok_def)
  then show ?thesis
    using assms by (simp add: server_hello_eq sh_msg_def a_sid_def args_ok_def length_x25519_base)
qed

lemma shared_zero:
  assumes "args_ok a"
  shows "fold (\<lambda>i acc. acc OR a_shared a ! i) [0..<32] 0 = 0 \<longleftrightarrow> a_shared a = replicate 32 0"
proof -
  have "length (a_shared a) = 32"
    using assms by (simp add: a_shared_def args_ok_def length_x25519)
  then show ?thesis
    by (auto simp: fold_or_zero list_eq_iff_nth_eq)
qed

lemma wp_check:
  "I f \<Longrightarrow> (T \<Longrightarrow> key_ok (f_rsa f) \<and> key_limbs (f_rsa f) \<le> 64 \<and> 139 \<le> cap) \<Longrightarrow>
    (key_ok (f_rsa f) \<Longrightarrow> key_limbs (f_rsa f) \<le> 64 \<Longrightarrow> 139 \<le> cap \<Longrightarrow> Q f) \<Longrightarrow> wp T I (check_args cap) Q f"
  by (auto simp: wp_def check_args_def Let_def)

lemma wp_exchange:
  assumes "args_ok a" "T \<Longrightarrow> a_shared a \<noteq> replicate 32 0"
    and "I (f\<lparr>f_pub := viltrum_x25519_base (a_priv a), f_shared := a_shared a\<rparr>)"
    and "a_shared a \<noteq> replicate 32 0 \<Longrightarrow> Q (f\<lparr>f_pub := viltrum_x25519_base (a_priv a), f_shared := a_shared a\<rparr>)"
  shows "wp T I (key_exchange (a_rnd a) (a_hello a)) Q f"
proof -
  let ?f = "f\<lparr>f_pub := viltrum_x25519_base (a_priv a), f_shared := a_shared a\<rparr>"
  have "key_exchange (a_rnd a) (a_hello a) f = Some (a_shared a \<noteq> replicate 32 0, ?f)"
    unfolding key_exchange_def Let_def a_shared_def [symmetric] shared_zero [OF assms(1)] by (rule refl)
  then show ?thesis
    using assms(2-4) by (simp add: wp_def)
qed

definition sh_out :: "'c hs13_args \<Rightarrow> u8 list \<Rightarrow> u8 list" where
  "sh_out a out = ([22, 3, 3] @ bytes16 (length (sh_msg a)) @ sh_msg a) @ drop (5 + length (sh_msg a)) out"

lemma wp_write_hello:
  assumes "args_ok a" "f_pub f = viltrum_x25519_base (a_priv a)" "139 \<le> length (f_out f)"
    and "I (f\<lparr>f_out := sh_out a (f_out f), f_n := 5 + length (sh_msg a)\<rparr>)"
    and "Q (f\<lparr>f_out := sh_out a (f_out f), f_n := 5 + length (sh_msg a)\<rparr>)"
  shows "wp T I (write_server_hello (a_rnd a) (a_hello a)) Q f"
proof -
  have len: "length (sh_msg a) \<le> 122"
    using assms(1) by (simp add: length_sh_msg args_ok_def)
  let ?out = "take 5 (f_out f) @ sh_msg a @ drop (5 + length (sh_msg a)) (f_out f)"
  have "put (f_out f) 5 (sh_msg a) = Some ?out"
    using len assms(3) by simp
  moreover have "put ?out 0 ([22, 3, 3] @ bytes16 (length (sh_msg a))) = Some (sh_out a (f_out f))"
    using len assms(3) by (simp add: sh_out_def)
  ultimately show ?thesis
    using assms by (auto simp: wp_def write_server_hello_def server_hello_sh_msg)
qed

definition ccs_out :: "viltrum_hs13_hello \<Rightarrow> 'c flight \<Rightarrow> 'c flight" where
  "ccs_out h f = f\<lparr>f_out := take (f_n f) (f_out f) @ ccs_bytes h @ drop (f_n f + length (ccs_bytes h)) (f_out f),
     f_n := f_n f + length (ccs_bytes h)\<rparr>"

lemma wp_ccs:
  assumes "f_n f + length (ccs_bytes h) \<le> length (f_out f)" "I (ccs_out h f)" "Q (ccs_out h f)"
  shows "wp T I (write_ccs h) Q f"
proof (rule wp_ok [where f' = "ccs_out h f"])
  show "I (ccs_out h f)" "Q (ccs_out h f)"
    by (rule assms)+
  show "write_ccs h f = Some (True, ccs_out h f)"
  proof (cases "0 < h_session_id_len h")
    case True
    then have e: "ccs_bytes h = [20, 3, 3, 0, 1, 1]"
      by (simp add: ccs_bytes_def)
    then show ?thesis
      using put_fits [OF assms(1)] True by (simp add: write_ccs_def ccs_out_def)
  qed (simp add: write_ccs_def ccs_out_def ccs_bytes_def)
qed

lemma hashed_start: "sha256_starts L (sha256_init L) = Some c \<Longrightarrow> hashed L [] c"
  by (simp add: hashed_def)

lemma feed_append: "feed L c (ms @ ns) = do { c \<leftarrow> feed L c ms; feed L c ns }"
  by (induction ms arbitrary: c) (auto split: bind_splits)

lemma hashed_update: "hashed L ms c \<Longrightarrow> sha256_update L c m = Some c' \<Longrightarrow> hashed L (ms @ [m]) c'"
  by (auto simp: hashed_def feed_append)

lemma mbed_totalD:
  assumes "mbed_total L"
  shows "sha256_starts L c \<noteq> None" "sha256_finish L c \<noteq> None" "sha256_update L c m \<noteq> None" "md_sha256 L m \<noteq> None"
    "hkdf_extract L s k \<noteq> None" "n \<le> 8160 \<Longrightarrow> expand_label L s l x n \<noteq> None" "md_hmac L k m \<noteq> None"
  using assms unfolding mbed_total_def expand_label_def by simp_all

lemma flight_good_total: "flight_good a \<Longrightarrow> mbed_total (a_lib a)"
  by (simp add: flight_good_def)

lemma hash_now_th:
  "mbed_spec L H \<Longrightarrow> hashed L ms c \<Longrightarrow> viltrum_hs13_hash_now L c = Some th \<Longrightarrow> th = H (concat ms)"
  by (simp add: viltrum_hs13_hash_now_def mbed_specD(3))

lemma hash_now_total: "mbed_total L \<Longrightarrow> viltrum_hs13_hash_now L c \<noteq> None"
  by (simp add: viltrum_hs13_hash_now_def mbed_totalD(2) del: not_None_eq)

lemma wp_hash_starts:
  assumes "I f" "T \<Longrightarrow> mbed_total L" "f_run f = sha256_init L"
    and "\<And>c. hashed L [] c \<Longrightarrow> I (f\<lparr>f_run := c\<rparr>) \<and> Q (f\<lparr>f_run := c\<rparr>)"
  shows "wp T I (hash_starts L) Q f"
  using assms by (intro wp_store [where s = "hash_starts L", OF hash_starts_def]) (simp_all add: hashed_start mbed_totalD del: not_None_eq)

lemma wp_hash_update:
  assumes "I f" "T \<Longrightarrow> mbed_total L" "hashed L ms (f_run f)"
    and "\<And>c. hashed L (ms @ [m f]) c \<Longrightarrow> I (f\<lparr>f_run := c\<rparr>) \<and> Q (f\<lparr>f_run := c\<rparr>)"
  shows "wp T I (hash_update L m) Q f"
  using assms by (intro wp_store [where s = "hash_update L m", OF hash_update_def]) (simp_all add: hashed_update mbed_totalD del: not_None_eq)

lemma wp_hash_now:
  assumes "mbed_spec L H" "I f" "T \<Longrightarrow> mbed_total L" "hashed L ms (f_run f)"
    and "I (f\<lparr>f_th := H (concat ms)\<rparr>)" "Q (f\<lparr>f_th := H (concat ms)\<rparr>)"
  shows "wp T I (hash_now L) Q f"
  using assms hash_now_th [OF assms(1,4)]
  by (intro wp_store [where s = "hash_now L", OF hash_now_def]) (auto simp: hash_now_total simp del: not_None_eq)

lemma flight_inv_update [simp]:
  "flight_inv a (f\<lparr>f_run := c\<rparr>) = flight_inv a f" "flight_inv a (f\<lparr>f_th := th\<rparr>) = flight_inv a f"
  "flight_inv a (f\<lparr>f_pub := p\<rparr>) = flight_inv a f" "flight_inv a (f\<lparr>f_shared := p\<rparr>) = flight_inv a f"
  "flight_inv a (f\<lparr>f_c_hs := p\<rparr>) = flight_inv a f" "flight_inv a (f\<lparr>f_s_hs := p\<rparr>) = flight_inv a f"
  "flight_inv a (f\<lparr>f_master := p\<rparr>) = flight_inv a f" "flight_inv a (f\<lparr>f_s_key := p\<rparr>) = flight_inv a f"
  "flight_inv a (f\<lparr>f_s_iv := p\<rparr>) = flight_inv a f" "flight_inv a (f\<lparr>f_msg := p\<rparr>) = flight_inv a f"
  "flight_inv a (f\<lparr>f_tx := g\<rparr>) = flight_inv a f" "flight_inv a (f\<lparr>f_n := n\<rparr>) = flight_inv a f"
  "flight_inv a (f\<lparr>f_seq := q\<rparr>) = flight_inv a f"
  by (simp_all add: flight_inv_def)

lemma front_cut:
  assumes "length h = k" "k \<le> length out"
  shows "length (h @ drop k out) = length out" "take k (h @ drop k out) = h" "k \<le> cap \<Longrightarrow> drop cap (h @ drop k out) = drop cap out"
  using assms by auto

lemma sh_out_simps:
  assumes "args_ok a" "139 \<le> length out"
  shows "length (sh_out a out) = length out"
    "take (5 + length (sh_msg a)) (sh_out a out) = [22, 3, 3] @ bytes16 (length (sh_msg a)) @ sh_msg a"
    "take (length (sh_msg a)) (drop 5 (sh_out a out)) = sh_msg a" "139 \<le> cap \<Longrightarrow> drop cap (sh_out a out) = drop cap out"
proof -
  let ?h = "[22, 3, 3] @ bytes16 (length (sh_msg a)) @ sh_msg a"
  have len: "length ?h = 5 + length (sh_msg a)" "5 + length (sh_msg a) \<le> 127"
    using length_sh_msg [OF assms(1)] assms(1) by (simp_all add: args_ok_def)
  note cut = front_cut [OF len(1), of out, folded sh_out_def]
  show "length (sh_out a out) = length out" "take (5 + length (sh_msg a)) (sh_out a out) = ?h"
    "139 \<le> cap \<Longrightarrow> drop cap (sh_out a out) = drop cap out"
    using cut len(2) assms(2) by simp_all
  show "take (length (sh_msg a)) (drop 5 (sh_out a out)) = sh_msg a"
    by (simp add: sh_out_def)
qed

lemma start_hash:
  assumes "mbed_spec (a_lib a) H" "args_ok a" "key_ok (a_key a)" "key_limbs (a_key a) \<le> 64" "139 \<le> a_cap a"
    and "a_shared a \<noteq> replicate 32 0" "flight_inv a f" "f_run f = sha256_init (a_lib a)"
    and "f_out f = sh_out a (a_out a)" "f_n f = 5 + length (sh_msg a)" "f_shared f = a_shared a" "f_rsa f = a_key a"
    and "f_tx f = a_tx a" "f_seq f = 0"
  defines "L \<equiv> a_lib a"
  shows "wp (flight_good a) (flight_inv a) (steps
     [hash_starts L, hash_update L (\<lambda>_. a_ch a), hash_update L (\<lambda>f. take (f_n f - 5) (drop 5 (f_out f))), hash_now L,
      write_ccs (a_hello a)]) (started H a) f"
proof -
  have cap: "a_cap a \<le> length (a_out a)"
    using assms(2) by (simp add: args_ok_def)
  note out = sh_out_simps [OF assms(2), of "a_out a"]
  have sh: "take (f_n f - 5) (drop 5 (f_out f)) = sh_msg a"
    using cap assms(5) by (simp add: assms(9,10) out(3))
  note total = flight_good_total [of a, folded L_def]
  have ccs: "wp (flight_good a) (flight_inv a) (steps [write_ccs (a_hello a)]) (started H a) f'"
    if f': "f' = f\<lparr>f_run := c, f_th := H (concat [a_ch a, sh_msg a])\<rparr>" and h: "hashed L [a_ch a, sh_msg a] c" for f' c
  proof -
    let ?e = "ccs_bytes (a_hello a)"
    have n: "f_n f + length ?e \<le> a_cap a" "length (f_out f) = length (a_out a)"
      using length_sh_msg [OF assms(2)] assms(2,5) cap out(1) by (simp_all add: assms(9,10) args_ok_def ccs_bytes_def)
    have head: "take (f_n f) (f_out f) @ ?e = flight_head a"
      using out(2) cap assms(5) unfolding head_eq [OF assms(2)] assms(9,10) by simp
    have len: "length (flight_head a) = f_n f + length ?e"
      using n cap unfolding head [symmetric] by (simp add: min_def)
    have "kept_outside (f_n f) (a_cap a) (f_out f) (f_out (ccs_out (a_hello a) f'))"
      using n cap by (simp only: ccs_out_def f') (simp add: kept_outside_put)
    then have inv: "flight_inv a (ccs_out (a_hello a) f')"
      using kept_outside_trans [of 0 "a_cap a" "a_out a" "f_out f" "f_n f" "f_out (ccs_out (a_hello a) f')"] assms(7)
      by (simp add: flight_inv_def) (simp add: ccs_out_def f')
    have "take (f_n f + length ?e) (f_out (ccs_out (a_hello a) f')) = flight_head a"
      using n cap by (simp add: ccs_out_def f' head [symmetric])
    then have "started H a (ccs_out (a_hello a) f')"
      using assms(3,4,6,11-14) n h len by (simp add: started_def L_def) (simp add: ccs_out_def f')
    then show ?thesis
      using inv n cap by (intro wp_Cons wp_ccs wp_Nil) (auto simp: f')
  qed
  show ?thesis
    using assms(7) total assms(8)
    apply (intro wp_Cons wp_hash_starts conjI; simp add: L_def [symmetric])
    apply (rule wp_hash_update; simp)
    apply (rule wp_Cons, rule wp_hash_update; simp add: sh)
    apply (rule wp_Cons, rule wp_hash_now [OF assms(1) [folded L_def]]; simp)
    apply (rule ccs [OF refl], assumption)
    done
qed

lemma start_ok:
  assumes "mbed_spec (a_lib a) H" "args_ok a"
  shows "wp (flight_good a) (flight_inv a) (steps (flight_start a)) (started H a) (flight_init a)"
proof -
  let ?T = "flight_good a" and ?I = "flight_inv a" and ?L = "a_lib a"
  have inv: "?I (flight_init a)" "length (f_out (flight_init a)) = length (a_out a)"
    using assms(2) by (simp_all add: flight_inv_def flight_init_def args_ok_def kept_outside_def)
  have size: "?T \<Longrightarrow> 139 \<le> a_cap a"
    using length_sh_msg [OF assms(2)] assms(2)
    by (simp add: flight_good_def flight_size_def head_eq args_ok_def records_size_def)
  have out: "139 \<le> a_cap a \<Longrightarrow> length (sh_out a (a_out a)) = length (a_out a) \<and> drop (a_cap a) (sh_out a (a_out a)) = drop (a_cap a) (a_out a)"
    using sh_out_simps(1,4) [OF assms(2), of "a_out a"] assms(2) by (simp add: args_ok_def)
  show ?thesis
    unfolding flight_start_def Let_def
    apply (rule wp_Cons, rule wp_check)
    subgoal by (rule inv(1))
    subgoal using size by (simp add: flight_good_def flight_init_def)
    apply (rule wp_Cons, rule wp_exchange [OF assms(2)])
    subgoal by (simp add: flight_good_def)
    subgoal using inv(1) by (simp add: flight_inv_def)
    apply (rule wp_Cons, rule wp_write_hello [OF assms(2)])
    subgoal by simp
    subgoal using assms(2) by (simp add: args_ok_def flight_init_def)
    subgoal using inv out by (simp add: flight_inv_def kept_outside_def flight_init_def args_ok_def)
    apply (rule start_hash [OF assms])
    subgoal by (simp add: flight_init_def)
    subgoal by (simp add: flight_init_def)
    subgoal by assumption
    subgoal by assumption
    subgoal using inv out by (simp add: flight_inv_def kept_outside_def flight_init_def args_ok_def)
    by (simp_all add: flight_init_def)
qed

subsection \<open>Secrets\<close>

text \<open>
  The variables after the key schedule, and after the messages \<open>ms\<close> were sealed: a client that holds the server's
  handshake key reads them from the records that were written.
\<close>

definition secrets :: "(u8 list \<Rightarrow> u8 list) \<Rightarrow> 'c hs13_args \<Rightarrow> 'c flight \<Rightarrow> bool" where
  "secrets H a f \<longleftrightarrow>
     key_schedule (a_lib a) (a_shared a) (H (a_ch a @ sh_msg a)) = Some (f_c_hs f, f_s_hs f, f_master f) \<and>
     traffic_keys (a_lib a) (f_s_hs f) = Some (f_s_key f, f_s_iv f) \<and>
     viltrum_gcm_init (a_tx a) (f_s_key f) 16 = (0, f_tx f) \<and>
     traffic_keys (a_lib a) (f_c_hs f) = Some (k_c_key (f_keys f), k_c_iv (f_keys f))"

abbreviation gcm_reads :: "viltrum_gcm \<Rightarrow> u8 list \<Rightarrow> u64 \<Rightarrow> u8 list \<Rightarrow> u8 list option" where
  "gcm_reads \<equiv> dec_records (\<lambda>g iv aad c tag. snd (viltrum_gcm_open g iv aad c tag))"

definition sent :: "'c hs13_args \<Rightarrow> u8 list list \<Rightarrow> 'c flight \<Rightarrow> bool" where
  "sent a ms f \<longleftrightarrow> gcm_ready (f_tx f) \<and> length (f_s_iv f) = 12 \<and>
     f_n f = length (flight_head a) + (\<Sum>m \<leftarrow> ms. records_size (length m)) \<and> f_n f \<le> a_cap a \<and>
     f_seq f = of_nat (\<Sum>m \<leftarrow> ms. records (length m)) \<and>
     (\<exists>recs. take (f_n f) (f_out f) = flight_head a @ recs \<and>
       (\<forall>rest. gcm_reads (f_tx f) (f_s_iv f) 0 (recs @ rest)
         = map_option (append (concat ms)) (gcm_reads (f_tx f) (f_s_iv f) (f_seq f) rest)))"

definition key_usable :: "'c hs13_args \<Rightarrow> bool" where
  "key_usable a \<longleftrightarrow> key_ok (a_key a) \<and> key_limbs (a_key a) \<le> 64 \<and> a_shared a \<noteq> replicate 32 0"

definition reached :: "(u8 list \<Rightarrow> u8 list) \<Rightarrow> 'c hs13_args \<Rightarrow> u8 list list \<Rightarrow> 'c flight \<Rightarrow> bool" where
  "reached H a ms f \<longleftrightarrow> key_usable a \<and> secrets H a f \<and> sent a ms f \<and>
     hashed (a_lib a) ([a_ch a, sh_msg a] @ ms) (f_run f) \<and> f_th f = H (concat ([a_ch a, sh_msg a] @ ms))"

lemma secrets_update [simp]:
  "secrets H a (f\<lparr>f_run := c\<rparr>) = secrets H a f" "secrets H a (f\<lparr>f_th := th\<rparr>) = secrets H a f"
  "secrets H a (f\<lparr>f_msg := p\<rparr>) = secrets H a f" "secrets H a (f\<lparr>f_out := p\<rparr>) = secrets H a f"
  "secrets H a (f\<lparr>f_n := n\<rparr>) = secrets H a f" "secrets H a (f\<lparr>f_seq := q\<rparr>) = secrets H a f"
  "secrets H a (f\<lparr>f_rsa := k\<rparr>) = secrets H a f"
  by (simp_all add: secrets_def)

lemma sent_update [simp]:
  "sent a ms (f\<lparr>f_run := c\<rparr>) = sent a ms f" "sent a ms (f\<lparr>f_th := th\<rparr>) = sent a ms f"
  "sent a ms (f\<lparr>f_msg := p\<rparr>) = sent a ms f" "sent a ms (f\<lparr>f_rsa := k\<rparr>) = sent a ms f"
  "sent a ms (f\<lparr>f_keys := ks\<rparr>) = sent a ms f"
  by (simp_all add: sent_def)

lemma mbed_total_secrets:
  assumes "mbed_total L"
  shows "key_schedule L shared th \<noteq> None" "traffic_keys L secret \<noteq> None" "verify_data L secret th \<noteq> None"
    "app_keys L master th \<noteq> None"
  using mbed_totalD [OF assms]
  by (auto simp: key_schedule_def traffic_keys_def verify_data_def app_keys_def split: bind_splits simp del: not_None_eq)

lemma length_traffic_keys: "mbed_spec L H \<Longrightarrow> traffic_keys L secret = Some (key, iv) \<Longrightarrow> length key = 16 \<and> length iv = 12"
  by (auto simp: traffic_keys_def mbed_specD(5) split: bind_splits)

lemma map_append_Nil [simp]: "map_option (append []) x = x"
  by (cases x) simp_all

lemma map_append_append [simp]: "map_option (append x) (map_option (append y) z) = map_option (append (x @ y)) z"
  by (cases z) simp_all

lemma wp_derive:
  assumes "mbed_spec L H" "length (f_th f) = 32" "I f" "T \<Longrightarrow> mbed_total L"
    and "\<And>c s m. key_schedule L (f_shared f) (f_th f) = Some (c, s, m) \<Longrightarrow>
      I (f\<lparr>f_c_hs := c, f_s_hs := s, f_master := m\<rparr>) \<and> Q (f\<lparr>f_c_hs := c, f_s_hs := s, f_master := m\<rparr>)"
  shows "wp T I (derive_secrets L) Q f"
proof -
  have "derive_secrets L f = store (Some (key_schedule L (f_shared f) (f_th f)))
      (\<lambda>(c_hs, s_hs, master). f\<lparr>f_c_hs := c_hs, f_s_hs := s_hs, f_master := master\<rparr>) f"
    by (simp add: derive_secrets_def schedule_eq [OF assms(1,2)])
  then show ?thesis
    using assms(3-5) mbed_total_secrets(1) [of L "f_shared f" "f_th f"]
    by (intro wp_store [where s = "derive_secrets L"]) auto
qed

lemma wp_server_traffic:
  assumes "I f" "T \<Longrightarrow> mbed_total L"
    and "\<And>k iv. traffic_keys L (f_s_hs f) = Some (k, iv) \<Longrightarrow> I (f\<lparr>f_s_key := k, f_s_iv := iv\<rparr>) \<and> Q (f\<lparr>f_s_key := k, f_s_iv := iv\<rparr>)"
  shows "wp T I (server_traffic L) Q f"
  using assms by (intro wp_store [where s = "server_traffic L", OF server_traffic_def [unfolded traffic_eq]])
    (auto simp: mbed_total_secrets simp del: not_None_eq)

lemma wp_client_traffic:
  assumes "I f" "T \<Longrightarrow> mbed_total L"
    and "\<And>k iv f'. traffic_keys L (f_c_hs f) = Some (k, iv) \<Longrightarrow> f' = f\<lparr>f_keys := (f_keys f)\<lparr>k_c_key := k, k_c_iv := iv\<rparr>\<rparr> \<Longrightarrow> I f' \<and> Q f'"
  shows "wp T I (client_traffic L) Q f"
  using assms by (intro wp_store [where s = "client_traffic L", OF client_traffic_def [unfolded traffic_eq]])
    (auto simp: mbed_total_secrets simp del: not_None_eq)

lemma wp_init_tx:
  assumes "length (f_s_key f) = 16" "gcm_shape (f_tx f)"
    and "\<And>g. viltrum_gcm_init (f_tx f) (f_s_key f) 16 = (0, g) \<Longrightarrow> gcm_ready g \<Longrightarrow> I (f\<lparr>f_tx := g\<rparr>) \<and> Q (f\<lparr>f_tx := g\<rparr>)"
  shows "wp T I init_tx Q f"
proof -
  have "length (f_s_key f) = 16 \<or> length (f_s_key f) = 32"
    using assms(1) by simp
  then obtain g where "viltrum_gcm_init (f_tx f) (f_s_key f) (int (length (f_s_key f))) = (0, g)" "gcm_ready g"
    using gcm_init_ok [OF _ assms(2)] by metis
  then show ?thesis
    using assms(1,3) by (auto simp: wp_def init_tx_def)
qed

lemma secrets_ok:
  assumes "mbed_spec (a_lib a) H" "args_ok a" "started H a f" "flight_inv a f"
  shows "wp (flight_good a) (flight_inv a) (steps (flight_secrets a)) (\<lambda>f. reached H a [] f \<and> f_rsa f = a_key a) f"
proof -
  have th: "length (f_th f) = 32"
    using assms(1,3) by (simp add: started_def mbed_specD(1))
  have sent: "sent a [] f'" if "gcm_ready (f_tx f')" "length (f_s_iv f') = 12" "f_n f' = f_n f" "f_seq f' = f_seq f"
    "f_out f' = f_out f" for f'
    unfolding sent_def using that assms(3) by (auto simp: started_def intro!: exI [of _ "[]"])
  note total = flight_good_total [of a]
  show ?thesis
    unfolding flight_secrets_def Let_def
    apply (rule wp_Cons, rule wp_derive [OF assms(1) th])
    apply (rule assms(4))
    apply (erule total)
    apply (intro conjI)
    subgoal using assms(4) by simp
    apply (rule wp_Cons, rule wp_server_traffic [OF _ total])
    subgoal using assms(4) by simp
    apply assumption
    apply (intro conjI)
    subgoal using assms(4) by simp
    apply (rule wp_Cons, rule wp_client_traffic [OF _ total])
    subgoal using assms(4) by simp
    apply assumption
    apply (intro conjI)
    subgoal using assms(1,4) by (auto simp: flight_inv_def keys_shape_def dest: length_traffic_keys)
    apply (rule wp_Cons, rule wp_init_tx)
    subgoal using assms(1) by (auto dest: length_traffic_keys)
    subgoal using assms(2,3) by (simp add: args_ok_def started_def)
    apply (intro conjI wp_Nil)
    subgoal using assms(1,4) by (auto simp: flight_inv_def keys_shape_def dest: length_traffic_keys)
    subgoal using assms(1,4) by (auto simp: flight_inv_def keys_shape_def dest: length_traffic_keys)
    subgoal
      using assms(1,3) sent by (auto simp: reached_def secrets_def key_usable_def started_def dest: length_traffic_keys)
    subgoal using assms(3) by (simp add: started_def)
    done
qed

subsection \<open>Sealed messages\<close>

lemma wp_seal:
  assumes "args_ok a" "sent a ms f" "flight_inv a f"
    and "T \<Longrightarrow> length (flight_head a) + (\<Sum>m \<leftarrow> ms @ [m f]. records_size (length m)) \<le> a_cap a"
    and "\<And>out n seq. sent a (ms @ [m f]) (f\<lparr>f_out := out, f_n := n, f_seq := seq\<rparr>) \<Longrightarrow>
      flight_inv a (f\<lparr>f_out := out, f_n := n, f_seq := seq\<rparr>) \<Longrightarrow> Q (f\<lparr>f_out := out, f_n := n, f_seq := seq\<rparr>)"
  shows "wp T (flight_inv a) (seal_msg (a_cap a) m) Q f"
proof -
  let ?m = "m f" and ?seal = viltrum_gcm_seal
  obtain recs where s: "gcm_ready (f_tx f)" "length (f_s_iv f) = 12" "f_n f \<le> a_cap a"
    "f_n f = length (flight_head a) + (\<Sum>m \<leftarrow> ms. records_size (length m))"
    "f_seq f = of_nat (\<Sum>m \<leftarrow> ms. records (length m))" "take (f_n f) (f_out f) = flight_head a @ recs"
    "\<And>rest. gcm_reads (f_tx f) (f_s_iv f) 0 (recs @ rest)
         = map_option (append (concat ms)) (gcm_reads (f_tx f) (f_s_iv f) (f_seq f) rest)"
    using assms(2) by (auto simp: sent_def)
  have out: "a_cap a \<le> length (f_out f)"
    using assms(1,3) by (simp add: args_ok_def flight_inv_def kept_outside_def)
  let ?fits = "f_n f + records_size (length ?m) \<le> a_cap a"
  obtain out' n' seq' where r: "viltrum_hs13_seal (f_tx f) (f_s_iv f) (f_seq f) ?m (f_out f) (a_cap a) (f_n f) =
      Some (if ?fits then 0 else - 1, out', n', seq')" "kept_outside (f_n f) (a_cap a) (f_out f) out'" "n' \<le> a_cap a"
      "?fits \<Longrightarrow> n' = f_n f + records_size (length ?m) \<and> seq' = f_seq f + of_nat (records (length ?m)) \<and>
        take n' out' = take (f_n f) (f_out f) @ enc_records ?seal (f_tx f) (f_s_iv f) (f_seq f) ?m"
    using hs13_seal_post [OF s(1,2) out s(3), of "f_seq f" ?m] by blast
  let ?f = "f\<lparr>f_out := out', f_n := n', f_seq := seq'\<rparr>"
  have inv: "flight_inv a ?f"
    using kept_outside_trans [of 0 "a_cap a" "a_out a" "f_out f" "f_n f" out'] r(2) assms(3) by (simp add: flight_inv_def)
  have "sent a (ms @ [?m]) ?f" if fits: ?fits
  proof -
    have read: "gcm_reads (f_tx f) (f_s_iv f) 0 ((recs @ enc_records ?seal (f_tx f) (f_s_iv f) (f_seq f) ?m) @ rest)
      = map_option (append (concat (ms @ [?m]))) (gcm_reads (f_tx f) (f_s_iv f) (f_seq f + of_nat (records (length ?m))) rest)" for rest
      unfolding append_assoc s(7) gcm.dec_enc_records [OF s(1,2)] by simp
    show ?thesis
      unfolding sent_def using r(3,4) fits s(1,2,4,5,6) read
      by (auto intro!: exI [of _ "recs @ enc_records ?seal (f_tx f) (f_s_iv f) (f_seq f) ?m"])
  qed
  moreover have "T \<Longrightarrow> ?fits"
    using assms(4) s(4) by simp
  ultimately show ?thesis
    using r(1) inv assms(5) by (auto simp: wp_def seal_msg_def)
qed

lemma ee_bytes: "[8, 0, 0, of_nat (2 + length (alpn_ext h)), 0, of_nat (length (alpn_ext h))] @ alpn_ext h = ee_msg a"
  if "h = a_hello a"
  unfolding that ee_msg_def alpn_ext_def
  by (simp add: enc_handshake_def vec16_def vec8_def enc16_def enc24_def proto_h2_def proto_http11_def chars_def)

lemma length_ee_msg: "length (ee_msg a) \<le> 520"
  by (simp add: ee_msg_def enc_handshake_def proto_h2_def proto_http11_def)

lemma wp_make_extensions:
  "I (f\<lparr>f_msg := ee_msg a\<rparr>) \<Longrightarrow> Q (f\<lparr>f_msg := ee_msg a\<rparr>) \<Longrightarrow> wp T I (make_extensions (a_hello a)) Q f"
  unfolding wp_def make_extensions_def set_msg_def ee_bytes [OF refl] using length_ee_msg [of a] by auto

lemma good_size:
  assumes "flight_good a"
  shows "length (flight_head a) + records_size (length (ee_msg a)) + records_size (length (a_cert a)) +
     records_size (8 + 8 * key_limbs (a_key a)) + records_size 36 \<le> a_cap a"
  using assms by (simp add: flight_good_def flight_size_def)

lemma certificate_ok:
  assumes "mbed_spec (a_lib a) H" "args_ok a" "reached H a [] f" "f_rsa f = a_key a" "flight_inv a f"
  shows "wp (flight_good a) (flight_inv a) (steps (flight_certificate a))
    (\<lambda>f. reached H a [ee_msg a, a_cert a] f \<and> f_rsa f = a_key a) f"
proof -
  have f: "key_usable a" "secrets H a f" "sent a [] f" "hashed (a_lib a) [a_ch a, sh_msg a] (f_run f)"
    using assms(3) by (simp_all add: reached_def)
  note total = flight_good_total [of a]
  show ?thesis
    unfolding flight_certificate_def Let_def
    apply (rule wp_Cons, rule wp_make_extensions)
    subgoal using assms(5) by simp
    apply (rule wp_Cons, rule wp_hash_update [where ms = "[a_ch a, sh_msg a]"])
    subgoal using assms(5) by simp
    apply (erule total)
    subgoal using f(4) by simp
    apply (intro conjI)
    subgoal using assms(5) by simp
    apply (rule wp_Cons, rule wp_hash_update)
    subgoal using assms(5) by simp
    apply (erule total)
    apply simp
    apply (intro conjI)
    subgoal using assms(5) by simp
    apply (rule wp_Cons, rule wp_seal [OF assms(2), where ms = "[]"])
    subgoal using f(3) by simp
    subgoal using assms(5) by simp
    subgoal using good_size [of a] by simp
    apply (rule wp_Cons, rule wp_seal [OF assms(2)], assumption, assumption)
    subgoal using good_size [of a] by simp
    apply (rule wp_Cons, rule wp_hash_now [OF assms(1)], assumption, erule total)
    apply simp
    subgoal by simp
    apply (rule wp_Nil)
    subgoal by simp
    subgoal using f(1,2) assms(4) by (simp add: reached_def)
    done
qed

lemma mbed_total_sha: "mbed_spec L H \<Longrightarrow> mbed_total L \<Longrightarrow> md_sha256 L m = Some (H m)"
  using mbed_specD(2) [of L H m] mbed_totalD(4) [of L m] by auto

lemma cv_bytes:
  assumes "length sig = 8 * n" "n \<le> 64"
  shows "[15] @ bytes24 (4 + n * 8) @
    [ucast (drop_bit 8 VILTRUM_HS13_SIG_PSS_SHA256), ucast (VILTRUM_HS13_SIG_PSS_SHA256 AND 0xff)] @ bytes16 (n * 8) @ sig
    = cv_msg sig"
proof -
  have "[ucast (drop_bit 8 VILTRUM_HS13_SIG_PSS_SHA256), ucast (VILTRUM_HS13_SIG_PSS_SHA256 AND 0xff)] = enc16 0x0804"
    by (simp add: VILTRUM_HS13_SIG_PSS_SHA256_def enc16_def)
  then show ?thesis
    using assms unfolding cv_msg_def enc_handshake_def bytes24_enc24 bytes16_enc16 vec16_def
    by (simp add: mult.commute)
qed

definition cert_signed :: "(u8 list \<Rightarrow> u8 list) \<Rightarrow> 'c hs13_args \<Rightarrow> u8 list \<Rightarrow> viltrum_rsa \<Rightarrow> bool" where
  "cert_signed H a sig key \<longleftrightarrow> length sig = 8 * key_limbs (a_key a) \<and>
     viltrum_rsa_pss_sha256 (md_sha256 (a_lib a)) (a_key a)
       (H (verify_content (H (concat [a_ch a, sh_msg a, ee_msg a, a_cert a])))) (drop 64 (a_rnd a)) = Some (0, Some sig, key)"

lemma wp_make_verify:
  assumes "mbed_spec (a_lib a) H" "args_ok a" "key_limbs (a_key a) \<le> 64" "f_rsa f = a_key a" "flight_inv a f"
    and th: "f_th f = H (concat [a_ch a, sh_msg a, ee_msg a, a_cert a])"
    and "\<And>sig key. cert_signed H a sig key \<Longrightarrow> flight_inv a (f\<lparr>f_rsa := key, f_msg := cv_msg sig\<rparr>) \<Longrightarrow>
      Q (f\<lparr>f_rsa := key, f_msg := cv_msg sig\<rparr>)"
  shows "wp (flight_good a) (flight_inv a) (make_verify (a_lib a) (a_rnd a)) Q f"
proof (cases "md_sha256 (a_lib a) (verify_content (f_th f))")
  case None
  then have "\<not> flight_good a"
    using mbed_total_sha [OF assms(1)] flight_good_total by force
  then show ?thesis
    using None assms(5) by (auto simp: wp_def make_verify_def)
next
  case (Some d)
  let ?h = "H (verify_content (f_th f))"
  have d: "d = ?h"
    using mbed_specD(2) [OF assms(1) Some] .
  have salt: "length (drop 64 (a_rnd a)) = 32"
    using assms(2) by (simp add: args_ok_def)
  have key: "rsa_key_wf (a_key a)" "9 \<le> key_limbs (a_key a)"
    using assms(2) by (simp_all add: args_ok_def)
  obtain ret sig key' where pss: "viltrum_rsa_pss_sha256 (md_sha256 (a_lib a)) (a_key a) ?h (drop 64 (a_rnd a)) = Some (ret, sig, key')"
    "rsa_key_wf key'" "ret = 0 \<Longrightarrow> \<exists>s. sig = Some s \<and> length s = 8 * key_limbs (a_key a)"
    using pss_returns [OF _ salt key, of "md_sha256 (a_lib a)" ?h] mbed_specD(1,2) [OF assms(1)] by metis
  have good: "ret = 0" if "flight_good a"
  proof -
    have "pss_args (md_sha256 (a_lib a)) H (key_limbs (a_key a)) ?h (drop 64 (a_rnd a))"
      using mbed_total_sha [OF assms(1) flight_good_total [OF that]] mbed_specD(1) [OF assms(1)] salt key(2) assms(3)
      by (simp add: pss_args_def)
    from pss_signs [OF this key(1)] that pss(1) show ?thesis
      by (auto simp: flight_good_def)
  qed
  show ?thesis
  proof (cases "ret = 0")
    case True
    then obtain s where s: "sig = Some s" "length s = 8 * key_limbs (a_key a)"
      using pss(3) by blast
    have "length (cv_msg s) \<le> 520"
      using s(2) assms(3) by (simp add: cv_msg_def enc_handshake_def)
    then have "make_verify (a_lib a) (a_rnd a) f = Some (True, f\<lparr>f_rsa := key', f_msg := cv_msg s\<rparr>)"
      using Some pss(1) s True assms(3) cv_bytes [OF s(2) assms(3)]
      by (simp add: make_verify_def Let_def d assms(4) set_msg_def)
    moreover have "cert_signed H a s key'"
      using pss(1) s True by (simp add: cert_signed_def th)
    ultimately show ?thesis
      using assms(5,7) pss(2)
      by (intro wp_ok [where f' = "f\<lparr>f_rsa := key', f_msg := cv_msg s\<rparr>"]) (auto simp: flight_inv_def)
  next
    case False
    then have "make_verify (a_lib a) (a_rnd a) f = Some (False, f\<lparr>f_rsa := key'\<rparr>)"
      using Some pss(1) by (simp add: make_verify_def Let_def d assms(4))
    then show ?thesis
      using False good assms(5) pss(2) by (auto simp: wp_def flight_inv_def)
  qed
qed

lemma length_cv_msg: "length (cv_msg sig) = 8 + length sig"
  by (simp add: cv_msg_def enc_handshake_def)

lemma verify_ok:
  assumes "mbed_spec (a_lib a) H" "args_ok a" "reached H a [ee_msg a, a_cert a] f" "f_rsa f = a_key a" "flight_inv a f"
  shows "wp (flight_good a) (flight_inv a) (steps (flight_verify a))
    (\<lambda>f. \<exists>sig. reached H a [ee_msg a, a_cert a, cv_msg sig] f \<and> cert_signed H a sig (f_rsa f)) f"
proof -
  have f: "key_usable a" "secrets H a f" "sent a [ee_msg a, a_cert a] f"
    "hashed (a_lib a) [a_ch a, sh_msg a, ee_msg a, a_cert a] (f_run f)"
    "f_th f = H (concat [a_ch a, sh_msg a, ee_msg a, a_cert a])"
    using assms(3) by (simp_all add: reached_def)
  note total = flight_good_total [of a]
  show ?thesis
    unfolding flight_verify_def Let_def
    apply (rule wp_Cons, rule wp_make_verify [OF assms(1,2) _ assms(4,5) f(5)])
    subgoal using f(1) by (simp add: key_usable_def)
    apply (rule wp_Cons, rule wp_hash_update [where ms = "[a_ch a, sh_msg a, ee_msg a, a_cert a]"], assumption, erule total)
    subgoal using f(4) by simp
    apply (intro conjI)
    subgoal by simp
    apply (rule wp_Cons, rule wp_seal [OF assms(2), where ms = "[ee_msg a, a_cert a]"])
    subgoal using f(3) by simp
    subgoal by simp
    subgoal using good_size [of a] by (simp add: cert_signed_def length_cv_msg)
    apply (rule wp_Cons, rule wp_hash_now [OF assms(1)], assumption, erule total)
    apply simp
    subgoal by simp
    apply (rule wp_Nil)
    subgoal by simp
    subgoal using f(1,2) by (auto simp: reached_def)
    done
qed

subsection \<open>Finished\<close>

definition finished :: "(u8 list \<Rightarrow> u8 list) \<Rightarrow> 'c hs13_args \<Rightarrow> u8 list \<Rightarrow> u8 list \<Rightarrow> 'c flight \<Rightarrow> bool" where
  "finished H a sig mac f \<longleftrightarrow> key_usable a \<and> secrets H a f \<and>
     (let ms = [ee_msg a, a_cert a, cv_msg sig]; th = H (concat ([a_ch a, sh_msg a] @ ms @ [fin_msg mac])) in
      verify_data (a_lib a) (f_s_hs f) (H (concat ([a_ch a, sh_msg a] @ ms))) = Some mac \<and> sent a (ms @ [fin_msg mac]) f \<and>
      app_keys (a_lib a) (f_master f) th = Some (k_c_ap (f_keys f), k_s_ap (f_keys f)) \<and>
      verify_data (a_lib a) (f_c_hs f) th = Some (k_c_fin (f_keys f)) \<and>
      k_s_iv (f_keys f) = f_s_iv f \<and> k_s_seq (f_keys f) = f_seq f)"

lemma fin_bytes: "length mac = 32 \<Longrightarrow> [20, 0, 0, 32] @ mac = fin_msg mac"
  by (simp add: fin_msg_def enc_handshake_def enc24_def)

lemma length_verify_data: "mbed_spec L H \<Longrightarrow> verify_data L secret th = Some mac \<Longrightarrow> length mac = 32"
  by (auto simp: verify_data_def mbed_specD(6) split: bind_splits)

lemma length_app_keys: "mbed_spec L H \<Longrightarrow> app_keys L master th = Some (c, s) \<Longrightarrow> length c = 32 \<and> length s = 32"
  by (auto simp: app_keys_def mbed_specD(5) split: bind_splits)

lemma wp_make_finished:
  assumes "mbed_spec L H" "T \<Longrightarrow> mbed_total L" "I f"
    and "\<And>mac. verify_data L (f_s_hs f) (f_th f) = Some mac \<Longrightarrow> length mac = 32 \<Longrightarrow> I (f\<lparr>f_msg := fin_msg mac\<rparr>) \<and> Q (f\<lparr>f_msg := fin_msg mac\<rparr>)"
  shows "wp T I (make_finished L) Q f"
proof (cases "verify_data L (f_s_hs f) (f_th f)")
  case None
  then show ?thesis
    using assms(2,3) mbed_total_secrets(3) [of L "f_s_hs f" "f_th f"] by (auto simp: wp_def make_finished_def finished_mac_eq)
next
  case (Some mac)
  then have "length mac = 32"
    using length_verify_data [OF assms(1)] by blast
  moreover from this have "make_finished L f = Some (True, f\<lparr>f_msg := fin_msg mac\<rparr>)"
    using Some fin_bytes [of mac] by (simp add: make_finished_def finished_mac_eq set_msg_def flip: fin_bytes)
  ultimately show ?thesis
    using assms(4) [OF Some] by (auto intro: wp_ok)
qed

lemma wp_app_secrets:
  assumes "mbed_spec L H" "T \<Longrightarrow> mbed_total L" "I f" "length (f_th f) = 32"
    and "\<And>c s f'. app_keys L (f_master f) (f_th f) = Some (c, s) \<Longrightarrow> f' = f\<lparr>f_keys := (f_keys f)\<lparr>k_c_ap := c, k_s_ap := s\<rparr>\<rparr> \<Longrightarrow> I f' \<and> Q f'"
  shows "wp T I (app_secrets L) Q f"
proof -
  have "app_secrets L f = store (Some (app_keys L (f_master f) (f_th f)))
      (\<lambda>(c_ap, s_ap). f\<lparr>f_keys := (f_keys f)\<lparr>k_c_ap := c_ap, k_s_ap := s_ap\<rparr>\<rparr>) f"
    by (simp add: app_secrets_def app_eq [OF assms(4)])
  then show ?thesis
    using assms(2,3,5) mbed_total_secrets(4) [of L "f_master f" "f_th f"] by (intro wp_store [where s = "app_secrets L"]) auto
qed

lemma wp_client_finished:
  assumes "T \<Longrightarrow> mbed_total L" "I f"
    and "\<And>mac f'. verify_data L (f_c_hs f) (f_th f) = Some mac \<Longrightarrow> f' = f\<lparr>f_keys := (f_keys f)\<lparr>k_c_fin := mac\<rparr>\<rparr> \<Longrightarrow> I f' \<and> Q f'"
  shows "wp T I (client_finished L) Q f"
  using assms by (intro wp_store [where s = "client_finished L", OF client_finished_def [unfolded finished_mac_eq]])
    (auto simp: mbed_total_secrets simp del: not_None_eq)

lemma finished_ok:
  assumes "mbed_spec (a_lib a) H" "args_ok a" "reached H a [ee_msg a, a_cert a, cv_msg sig] f" "flight_inv a f"
    and "cert_signed H a sig (f_rsa f)"
  shows "wp (flight_good a) (flight_inv a) (steps (flight_finished a))
    (\<lambda>f. \<exists>mac. finished H a sig mac f \<and> cert_signed H a sig (f_rsa f)) f"
proof -
  let ?ms = "[ee_msg a, a_cert a, cv_msg sig]"
  have f: "key_usable a" "secrets H a f" "sent a ?ms f" "hashed (a_lib a) ([a_ch a, sh_msg a] @ ?ms) (f_run f)"
    "f_th f = H (concat ([a_ch a, sh_msg a] @ ?ms))"
    using assms(3) unfolding reached_def by blast+
  have H: "length (H m) = 32" for m
    using mbed_specD(1) [OF assms(1)] .
  have iv: "length (f_s_iv f) = 12"
    using f(3) by (simp add: sent_def)
  note total = flight_good_total [of a]
  note inv = flight_inv_def keys_shape_def length_verify_data [OF assms(1)] length_app_keys [OF assms(1)]
  show ?thesis
    unfolding flight_finished_def Let_def
    apply (rule wp_Cons, rule wp_make_finished [OF assms(1)], erule total, rule assms(4))
    apply (intro conjI)
    subgoal using assms(4) by simp
    apply (rule wp_Cons, rule wp_hash_update [where ms = "[a_ch a, sh_msg a] @ ?ms"])
    subgoal using assms(4) by simp
    apply (erule total)
    subgoal using f(4) by simp
    apply (intro conjI)
    subgoal using assms(4) by simp
    apply (rule wp_Cons, rule wp_seal [OF assms(2), where ms = ?ms])
    subgoal using f(3) by simp
    subgoal using assms(4) by simp
    subgoal using good_size [of a] assms(5) by (simp add: cert_signed_def length_cv_msg fin_msg_def enc_handshake_def)
    apply (rule wp_Cons, rule wp_hash_now [OF assms(1)], assumption, erule total)
    apply simp
    subgoal by simp
    apply (rule wp_Cons, rule wp_app_secrets [OF assms(1)], erule total)
    subgoal by simp
    subgoal using H by simp
    apply (intro conjI)
    subgoal by (auto simp: inv)
    apply (rule wp_Cons, rule wp_client_finished, erule total)
    subgoal by (auto simp: inv)
    apply (intro conjI)
    subgoal by (auto simp: inv)
    apply (rule wp_Cons, rule wp_ok [where s = keep_iv, OF keep_iv_def])
    subgoal using iv by (auto simp: inv)
    apply (rule wp_Nil)
    subgoal using iv by (auto simp: inv)
    subgoal
      using f(1,2,5) iv assms(5) by (auto simp: finished_def Let_def secrets_def)
    done
qed

subsection \<open>The whole flight\<close>

lemma flight_wp:
  assumes "mbed_spec (a_lib a) H" "args_ok a"
  shows "wp (flight_good a) (flight_inv a)
    (steps (flight_start a @ flight_secrets a @ flight_certificate a @ flight_verify a @ flight_finished a))
    (\<lambda>f. \<exists>sig mac. finished H a sig mac f \<and> cert_signed H a sig (f_rsa f)) (flight_init a)"
  apply (rule wp_append, rule wp_mono [OF start_ok [OF assms]])
  apply (rule wp_append, rule wp_mono [OF secrets_ok [OF assms]], assumption, assumption)
  apply (rule wp_append, rule wp_mono [OF certificate_ok [OF assms]], (elim conjE; assumption)+)
  apply (rule wp_append, rule wp_mono [OF verify_ok [OF assms]], (elim conjE; assumption)+)
  apply (elim exE conjE)
  apply (rule wp_mono [OF finished_ok [OF assms]], assumption+)
  apply blast
  done

text \<open>What a flight contains and what the caller keeps, in the terms of RFC 8446.\<close>

definition flight_spec :: "(u8 list \<Rightarrow> u8 list) \<Rightarrow> 'c hs13_args \<Rightarrow> u8 list \<Rightarrow> viltrum_hs13_keys \<Rightarrow> viltrum_rsa \<Rightarrow> bool" where
  "flight_spec H a bytes keys key' \<longleftrightarrow>
     (\<exists>c_hs s_hs master s_key s_iv g sig mac recs.
        let th = (\<lambda>ms. H (concat (a_ch a # sh_msg a # ms))); ms = [ee_msg a, a_cert a, cv_msg sig] in
        key_schedule (a_lib a) (a_shared a) (th []) = Some (c_hs, s_hs, master) \<and>
        traffic_keys (a_lib a) s_hs = Some (s_key, s_iv) \<and> viltrum_gcm_init (a_tx a) s_key 16 = (0, g) \<and>
        cert_signed H a sig key' \<and> verify_data (a_lib a) s_hs (th ms) = Some mac \<and>
        bytes = flight_head a @ recs \<and> gcm_reads g s_iv 0 recs = Some (concat (ms @ [fin_msg mac])) \<and>
        traffic_keys (a_lib a) c_hs = Some (k_c_key keys, k_c_iv keys) \<and>
        app_keys (a_lib a) master (th (ms @ [fin_msg mac])) = Some (k_c_ap keys, k_s_ap keys) \<and>
        verify_data (a_lib a) c_hs (th (ms @ [fin_msg mac])) = Some (k_c_fin keys) \<and>
        k_s_iv keys = s_iv \<and> k_s_seq keys = of_nat (\<Sum>m \<leftarrow> ms @ [fin_msg mac]. records (length m)))"

definition keys_zero :: viltrum_hs13_keys where
  "keys_zero = \<lparr>k_c_key = replicate 16 0, k_c_iv = replicate 12 0, k_c_fin = replicate 32 0, k_c_ap = replicate 32 0,
     k_s_ap = replicate 32 0, k_s_iv = replicate 12 0, k_s_seq = 0\<rparr>"

lemma keys_wipe_zero: "keys_shape k \<Longrightarrow> keys_wipe k = keys_zero"
  by (simp add: keys_wipe_def keys_shape_def keys_zero_def)

lemma finished_spec:
  assumes "finished H a sig mac f" "cert_signed H a sig (f_rsa f)"
  shows "flight_spec H a (take (f_n f) (f_out f)) (f_keys f) (f_rsa f)"
proof -
  let ?ms = "[ee_msg a, a_cert a, cv_msg sig, fin_msg mac]"
  let ?th = "H (concat [a_ch a, sh_msg a, ee_msg a, a_cert a, cv_msg sig, fin_msg mac])"
  have f: "verify_data (a_lib a) (f_s_hs f) (H (concat [a_ch a, sh_msg a, ee_msg a, a_cert a, cv_msg sig])) = Some mac"
    "sent a ?ms f" "app_keys (a_lib a) (f_master f) ?th = Some (k_c_ap (f_keys f), k_s_ap (f_keys f))"
    "verify_data (a_lib a) (f_c_hs f) ?th = Some (k_c_fin (f_keys f))" "k_s_iv (f_keys f) = f_s_iv f" "k_s_seq (f_keys f) = f_seq f"
    using assms(1) unfolding finished_def Let_def append_Cons append_Nil by blast+
  have sec: "key_schedule (a_lib a) (a_shared a) (H (concat [a_ch a, sh_msg a])) = Some (f_c_hs f, f_s_hs f, f_master f)"
    "traffic_keys (a_lib a) (f_s_hs f) = Some (f_s_key f, f_s_iv f)" "viltrum_gcm_init (a_tx a) (f_s_key f) 16 = (0, f_tx f)"
    "traffic_keys (a_lib a) (f_c_hs f) = Some (k_c_key (f_keys f), k_c_iv (f_keys f))"
    using assms(1) by (simp_all add: finished_def secrets_def)
  obtain recs where recs: "take (f_n f) (f_out f) = flight_head a @ recs"
    "\<And>rest. gcm_reads (f_tx f) (f_s_iv f) 0 (recs @ rest)
         = map_option (append (concat ?ms)) (gcm_reads (f_tx f) (f_s_iv f) (f_seq f) rest)"
    and seq: "f_seq f = of_nat (\<Sum>m \<leftarrow> ?ms. records (length m))"
    using f(2) unfolding sent_def by blast
  have read: "gcm_reads (f_tx f) (f_s_iv f) 0 recs = Some (concat ?ms)"
    using recs(2) [of "[]"] by (simp add: dec_records.simps)
  show ?thesis
    unfolding flight_spec_def Let_def append_Cons append_Nil
    by (intro exI conjI, rule sec(1), rule sec(2), rule sec(3), rule assms(2), rule f(1), rule recs(1), rule read, rule sec(4),
        rule f(3), rule f(4), rule f(5), rule f(6) [unfolded seq])
qed

lemma flight_result:
  assumes "mbed_spec (a_lib a) H" "args_ok a"
  obtains r where "viltrum_hs13_flight_with a = Some r" "r_ret r = 0 \<or> r_ret r = - 1" "rsa_key_wf (r_key r)"
    "kept_outside 0 (a_cap a) (a_out a) (r_out r)" "flight_good a \<Longrightarrow> r_ret r = 0"
    "r_ret r = 0 \<Longrightarrow> key_usable a \<and> r_out_len r \<le> a_cap a \<and> flight_spec H a (take (r_out_len r) (r_out r)) (r_keys r) (r_key r)"
    "r_ret r = - 1 \<Longrightarrow> r_out_len r = 0 \<and> r_keys r = keys_zero"
proof -
  obtain ok f where run: "steps (flight_start a @ flight_secrets a @ flight_certificate a @ flight_verify a @ flight_finished a)
      (flight_init a) = Some (ok, f)" "flight_inv a f" "flight_good a \<Longrightarrow> ok"
    "ok \<Longrightarrow> \<exists>sig mac. finished H a sig mac f \<and> cert_signed H a sig (f_rsa f)"
    using flight_wp [OF assms] unfolding wp_def by blast
  let ?r = "\<lparr>r_ret = (if ok then 0 else - 1), r_out_len = (if ok then f_n f else 0), r_out = f_out f,
       r_keys = (if ok then f_keys f else keys_wipe (f_keys f)), r_tx = f_tx f, r_key = f_rsa f\<rparr>"
  have "ok \<Longrightarrow> key_usable a \<and> f_n f \<le> a_cap a \<and> flight_spec H a (take (f_n f) (f_out f)) (f_keys f) (f_rsa f)"
  proof -
    assume ok
    then obtain sig mac where fin: "finished H a sig mac f" "cert_signed H a sig (f_rsa f)"
      using run(4) by blast
    then have "key_usable a" "sent a ([ee_msg a, a_cert a, cv_msg sig] @ [fin_msg mac]) f"
      unfolding finished_def Let_def by blast+
    then show ?thesis
      using finished_spec [OF fin] by (simp add: sent_def)
  qed
  then show thesis
    using that [of ?r] run(1-3) by (cases ok) (auto simp: viltrum_hs13_flight_with_def flight_inv_def keys_wipe_zero)
qed

section \<open>Properties\<close>

text \<open>
  C2. \<^verbatim>\<open>viltrum_hs13_flight_with\<close>, whatever library calls fail: it makes no access outside its buffers, leaves the
  signing key well-formed and writes nothing beyond \<^verbatim>\<open>cap\<close>. Either it returns 0, and then the bytes are the
  flight of RFC 8446 (ServerHello, change_cipher_spec for a session ID, and the records from which a client reads
  EncryptedExtensions, Certificate, CertificateVerify and Finished) and the keys are those of its key schedule; or it
  returns -1, gives no bytes and has wiped every key.
\<close>

theorem hs13_flight_outcome:
  assumes "mbed_spec (a_lib a) H" "args_ok a"
  shows "\<exists>r. viltrum_hs13_flight_with a = Some r \<and> rsa_key_wf (r_key r) \<and> kept_outside 0 (a_cap a) (a_out a) (r_out r) \<and>
    (r_ret r = 0 \<and> r_out_len r \<le> a_cap a \<and> flight_spec H a (take (r_out_len r) (r_out r)) (r_keys r) (r_key r) \<or>
     r_ret r = - 1 \<and> r_out_len r = 0 \<and> r_keys r = keys_zero)"
  using assms by (rule flight_result) blast

lemma flight_size_bound:
  assumes "args_ok a" "key_limbs (a_key a) \<le> 64"
  shows "flight_size a \<le> length (a_cert a) + 1024 + 22 * (length (a_cert a) div 16384 + 4)"
proof -
  have small: "records_size n \<le> n + 22" if "n \<le> 16384" for n
    using that by (auto simp: records_size_def records_def)
  have "length (flight_head a) \<le> 133"
    using head_eq [OF assms(1)] length_sh_msg [OF assms(1)] assms(1) by (simp add: args_ok_def ccs_bytes_def)
  moreover have "length (ee_msg a) \<le> 21"
    by (simp add: ee_msg_def enc_handshake_def proto_h2_def proto_http11_def)
  moreover have "records_size (length (a_cert a)) \<le> length (a_cert a) + 22 * (length (a_cert a) div 16384 + 1)"
  proof -
    have "(length (a_cert a) + 16383) div 16384 \<le> (length (a_cert a) + 16384) div 16384"
      by (rule div_le_mono) simp
    also have "\<dots> = length (a_cert a) div 16384 + 1"
      by (rule div_add_self2) simp
    finally show ?thesis
      unfolding records_size_def records_def by (intro add_left_mono mult_left_mono) simp_all
  qed
  moreover have "records_size (length (ee_msg a)) \<le> 43" "records_size 36 \<le> 58"
    using small [of "length (ee_msg a)"] small [of 36] calculation(2) by simp_all
  moreover have "records_size (8 + 8 * key_limbs (a_key a)) \<le> 542"
    using small [of "8 + 8 * key_limbs (a_key a)"] assms(2) by simp
  ultimately show ?thesis
    unfolding flight_size_def add_mult_distrib2 by linarith
qed

text \<open>
  C12. With a library that does not fail, a loaded key and the room the engine makes for a flight (the certificate
  message, a kilobyte, and 22 bytes for each record of 16384), the server answers every client whose share is not a
  point of small order, and refuses exactly those whose shared secret is zero (RFC 8446, 7.4.2).
\<close>

theorem hs13_flight_answers:
  assumes "mbed_spec (a_lib a) H" "args_ok a" "mbed_total (a_lib a)" "key_ok (a_key a)" "key_limbs (a_key a) \<le> 64"
    and "2 ^ (64 * key_limbs (a_key a) - 1) \<le> le_val (key_n (a_key a))"
    and "length (a_cert a) + 1024 + 22 * (length (a_cert a) div 16384 + 4) \<le> a_cap a"
  shows "\<exists>r. viltrum_hs13_flight_with a = Some r \<and>
    (if viltrum_x25519 (take 32 (drop 32 (a_rnd a))) (h_share (a_hello a)) = replicate 32 0 then r_ret r = - 1 else r_ret r = 0)"
proof -
  obtain r where r: "viltrum_hs13_flight_with a = Some r" "r_ret r = 0 \<or> r_ret r = - 1" "flight_good a \<Longrightarrow> r_ret r = 0"
    "r_ret r = 0 \<Longrightarrow> key_usable a"
    using flight_result [OF assms(1,2)] by metis
  have "flight_good a \<longleftrightarrow> a_shared a \<noteq> replicate 32 0"
    using assms(3-7) flight_size_bound [OF assms(2,5)] by (simp add: flight_good_def)
  then show ?thesis
    using r by (auto simp: a_shared_def key_usable_def)
qed

subsection \<open>Witnesses\<close>

definition demo_sha :: "u8 list \<Rightarrow> u8 list" where
  "demo_sha m = replicate 32 (fold (+) m 0)"

definition demo_args :: "viltrum_rsa \<Rightarrow> u8 list hs13_args" where
  "demo_args key = \<lparr>a_lib = demo_kdf, a_rnd = replicate 96 5, a_ch = [1, 0, 0, 0],
     a_hello = \<lparr>h_random = replicate 32 1, h_session_id = replicate 32 2, h_session_id_len = 32, h_share = 9 # replicate 31 0,
       h_alpn = 1, h_h2 = False\<rparr>,
     a_cert = [11, 0, 0, 0], a_key = key, a_tx = gcm_zero, a_out = replicate 2000 0, a_cap = 2000, a_keys = keys_zero\<rparr>"

lemma demo_feed: "feed demo_kdf c ms = Some (c @ concat ms)"
  by (induction ms arbitrary: c) (simp_all add: demo_kdf_def)

lemma demo_kdf_spec: "mbed_spec demo_kdf demo_sha" "mbed_total demo_kdf"
proof -
  have "hashed demo_kdf ms c \<longleftrightarrow> c = concat ms" for ms c
    by (auto simp: hashed_def demo_feed) (simp_all add: demo_kdf_def)
  then show "mbed_spec demo_kdf demo_sha"
    by (simp add: mbed_spec_def) (simp add: demo_kdf_def demo_sha_def)
qed (simp add: mbed_total_def demo_kdf_def)

lemma demo_flight:
  obtains key where "viltrum_rsa_load int_lib demo_pk [2] = Some ((0, key), [])" "args_ok (demo_args key)" "key_ok key"
    "key_limbs key \<le> 64" "2 ^ (64 * key_limbs key - 1) \<le> le_val (key_n key)"
proof -
  obtain key where key: "viltrum_rsa_load int_lib demo_pk [2] = Some ((0, key), [])" using demo_load by blast
  from viltrum_rsa_load_correct [OF int_lib_spec demo_pk_valid this]
  have wf: "rsa_key_wf key" "key_ok key" "16 \<le> key_limbs key" "key_limbs key \<le> 64"
    "2 ^ (64 * key_limbs key - 1) \<le> le_val (key_n key)" by auto
  have ok: "args_ok (demo_args key)"
    using wf gcm_zero_shape by (simp add: args_ok_def demo_args_def keys_shape_def keys_zero_def)
  with key wf ok that show thesis
    by blast
qed

theorem hs13_flight_outcome_witness:
  "\<exists>key r. viltrum_rsa_load int_lib demo_pk [2] = Some ((0, key), []) \<and> viltrum_hs13_flight_with (demo_args key) = Some r \<and>
    (r_ret r = 0 \<and> flight_spec demo_sha (demo_args key) (take (r_out_len r) (r_out r)) (r_keys r) (r_key r) \<or>
     r_ret r = - 1 \<and> r_out_len r = 0 \<and> r_keys r = keys_zero)"
proof -
  obtain key where key: "viltrum_rsa_load int_lib demo_pk [2] = Some ((0, key), [])" "args_ok (demo_args key)"
    by (rule demo_flight)
  have "mbed_spec (a_lib (demo_args key)) demo_sha"
    using demo_kdf_spec by (simp add: demo_args_def)
  from hs13_flight_outcome [OF this key(2)] key(1) show ?thesis
    by blast
qed

theorem hs13_flight_answers_witness:
  "\<exists>key r. viltrum_rsa_load int_lib demo_pk [2] = Some ((0, key), []) \<and> viltrum_hs13_flight_with (demo_args key) = Some r \<and>
    (if viltrum_x25519 (replicate 32 5) (9 # replicate 31 0) = replicate 32 0 then r_ret r = - 1 else r_ret r = 0)"
proof -
  obtain key where key: "viltrum_rsa_load int_lib demo_pk [2] = Some ((0, key), [])" "args_ok (demo_args key)" "key_ok key"
    "key_limbs key \<le> 64" "2 ^ (64 * key_limbs key - 1) \<le> le_val (key_n key)"
    by (rule demo_flight)
  have "\<exists>r. viltrum_hs13_flight_with (demo_args key) = Some r \<and>
    (if viltrum_x25519 (take 32 (drop 32 (a_rnd (demo_args key)))) (h_share (a_hello (demo_args key))) = replicate 32 0
     then r_ret r = - 1 else r_ret r = 0)"
    using key demo_kdf_spec by (intro hs13_flight_answers [where H = demo_sha]) (simp_all add: demo_args_def)
  with key(1) show ?thesis
    by (auto simp: demo_args_def)
qed

end
