(* ===== verification/Builds.thy ===== *)
theory Builds
  imports Hs13Flight
begin

unbundle bit_operations_syntax

text \<open>
  The other builds of the C core: a compiler without 128-bit integers has stubs for X25519 and RSA, and one that is not
  gcc or clang for x86-64 has stubs for AES-GCM. The engine asks \<^verbatim>\<open>viltrum_hs13_supported\<close> before it uses the handshake;
  here the handshake is followed on every build, for what it does where that answer is no.
\<close>

section \<open>Builds and stubs\<close>

text \<open>The two conditions of the headers and what the processor reports.\<close>

record build =
  b_int128 :: bool
  b_x86 :: bool
  b_cpu_aes :: bool
  b_cpu_pclmul :: bool
  b_cpu_sse41 :: bool

definition viltrum_x25519_supported :: "build \<Rightarrow> bool" where
  "viltrum_x25519_supported b = b_int128 b"

definition viltrum_rsa_supported :: "build \<Rightarrow> bool" where
  "viltrum_rsa_supported b = b_int128 b"

definition viltrum_aesgcm_supported :: "build \<Rightarrow> bool" where
  "viltrum_aesgcm_supported b = (if b_x86 b then b_cpu_aes b \<and> b_cpu_pclmul b \<and> b_cpu_sse41 b else False)"

definition x25519_stub :: "u8 list \<Rightarrow> u8 list \<Rightarrow> u8 list" where
  "x25519_stub scalar point = replicate 32 0"

definition x25519_base_stub :: "u8 list \<Rightarrow> u8 list" where
  "x25519_base_stub scalar = replicate 32 0"

definition rsa_load_stub :: "viltrum_rsa \<Rightarrow> int \<times> viltrum_rsa" where
  "rsa_load_stub key = (- 1, key\<lparr>key_ok := False\<rparr>)"

definition rsa_pss_stub :: "viltrum_rsa \<Rightarrow> (int \<times> u8 list option \<times> viltrum_rsa) option" where
  "rsa_pss_stub key = Some (- 1, None, key)"

definition gcm_new_stub :: "viltrum_gcm option" where
  "gcm_new_stub = None"

definition gcm_wipe_stub :: "viltrum_gcm \<Rightarrow> viltrum_gcm" where
  "gcm_wipe_stub g = g"

definition gcm_init_stub :: "viltrum_gcm \<Rightarrow> u8 list \<Rightarrow> int \<Rightarrow> int \<times> viltrum_gcm" where
  "gcm_init_stub g key key_len = (- 1, g)"

text \<open>The stubs of the two sealing functions leave the output and the tag as they were.\<close>

definition gcm_seal_stub :: "u8 list \<Rightarrow> u8 list \<Rightarrow> u8 list \<times> u8 list" where
  "gcm_seal_stub out tag = (out, tag)"

definition gcm_seal_record_stub :: "u8 list \<Rightarrow> u8 list \<Rightarrow> u8 list \<times> u8 list" where
  "gcm_seal_record_stub out tag = (out, tag)"

definition gcm_open_stub :: "int \<times> u8 list option" where
  "gcm_open_stub = (- 1, None)"

text \<open>
  \<^verbatim>\<open>viltrum_hs13_seal\<close> with the stub of \<^verbatim>\<open>viltrum_gcm_seal\<close>: a record keeps the header and the plaintext put there
  before, and what was in the place of the tag.
\<close>

function hs13_seal_stub :: "u64 \<Rightarrow> u8 list \<Rightarrow> u8 list \<Rightarrow> nat \<Rightarrow> nat \<Rightarrow> (int \<times> u8 list \<times> nat \<times> u64) option" where
  "hs13_seal_stub seq msg out cap n =
     (if 0 < length msg then
        (let chunk = (if 16384 < length msg then 16384 else length msg);
             rlen = chunk + 1 + 16
         in if cap < n + 5 + rlen then Some (- 1, out, n, seq)
            else do {
              out \<leftarrow> put out n ([23, 3, 3] @ bytes16 rlen @ take chunk msg @ [22]);
              let (body, tag) = gcm_seal_stub (take (chunk + 1) (drop (n + 5) out)) (take 16 (drop (n + 5 + chunk + 1) out));
              out \<leftarrow> put out (n + 5) (body @ tag);
              hs13_seal_stub (seq + 1) (drop chunk msg) out cap (n + 5 + rlen) })
      else Some (0, out, n, seq))"
  by pat_completeness auto
termination
  by (relation "measure (\<lambda>(_, msg, _). length msg)") auto

declare hs13_seal_stub.simps [simp del]

section \<open>The flight of a build\<close>

definition hs13_supported_in :: "build \<Rightarrow> bool" where
  "hs13_supported_in b =
     viltrum_hs13_supported (viltrum_aesgcm_supported b) (viltrum_x25519_supported b) (viltrum_rsa_supported b)"

definition key_exchange_in :: "build \<Rightarrow> u8 list \<Rightarrow> viltrum_hs13_hello \<Rightarrow> 'c flight_step" where
  "key_exchange_in b rnd h f =
     (let x25519 = (if b_int128 b then viltrum_x25519 else x25519_stub);
          x25519_base = (if b_int128 b then viltrum_x25519_base else x25519_base_stub);
          priv = take 32 (drop 32 rnd);
          shared = x25519 priv (h_share h);
          acc = fold (\<lambda>i acc. acc OR shared ! i) [0..<32] 0
      in Some (acc \<noteq> 0, f\<lparr>f_pub := x25519_base priv, f_shared := shared\<rparr>))"

definition init_tx_in :: "build \<Rightarrow> 'c flight_step" where
  "init_tx_in b f =
     (case (if b_x86 b then viltrum_gcm_init else gcm_init_stub) (f_tx f) (f_s_key f) 16 of
        (ret, g) \<Rightarrow> Some (ret = 0, f\<lparr>f_tx := g\<rparr>))"

definition seal_msg_in :: "build \<Rightarrow> nat \<Rightarrow> ('c flight \<Rightarrow> u8 list) \<Rightarrow> 'c flight_step" where
  "seal_msg_in b cap m f =
     (if b_x86 b then seal_msg cap m f
      else do {
        (ret, out, n, seq) \<leftarrow> hs13_seal_stub (f_seq f) (m f) (f_out f) cap (f_n f);
        Some (ret = 0, f\<lparr>f_out := out, f_n := n, f_seq := seq\<rparr>) })"

text \<open>The stub of the signature refuses after the content was hashed.\<close>

definition make_verify_in :: "build \<Rightarrow> 'c mbed \<Rightarrow> u8 list \<Rightarrow> 'c flight_step" where
  "make_verify_in b L rnd f =
     (if b_int128 b then make_verify L rnd f
      else case md_sha256 L (verify_content (f_th f)) of
             None \<Rightarrow> Some (False, f)
           | Some mhash \<Rightarrow> do {
               (ret, sig, key) \<leftarrow> rsa_pss_stub (f_rsa f);
               Some (ret = 0, f\<lparr>f_rsa := key\<rparr>) })"

definition flight_start_in :: "build \<Rightarrow> 'c hs13_args \<Rightarrow> 'c flight_step list" where
  "flight_start_in b a = (let L = a_lib a; h = a_hello a in
     [check_args (a_cap a), key_exchange_in b (a_rnd a) h, write_server_hello (a_rnd a) h,
      hash_starts L, hash_update L (\<lambda>_. a_ch a), hash_update L (\<lambda>f. take (f_n f - 5) (drop 5 (f_out f))), hash_now L,
      write_ccs h])"

definition flight_secrets_in :: "build \<Rightarrow> 'c hs13_args \<Rightarrow> 'c flight_step list" where
  "flight_secrets_in b a = (let L = a_lib a in [derive_secrets L, server_traffic L, client_traffic L, init_tx_in b])"

definition flight_rest_in :: "build \<Rightarrow> 'c hs13_args \<Rightarrow> 'c flight_step list" where
  "flight_rest_in b a = (let L = a_lib a; seal = seal_msg_in b (a_cap a) in
     [make_extensions (a_hello a), hash_update L f_msg, hash_update L (\<lambda>_. a_cert a), seal f_msg, seal (\<lambda>_. a_cert a), hash_now L,
      make_verify_in b L (a_rnd a), hash_update L f_msg, seal f_msg, hash_now L,
      make_finished L, hash_update L f_msg, seal f_msg, hash_now L, app_secrets L, client_finished L, keep_iv])"

definition hs13_flight_in :: "build \<Rightarrow> 'c hs13_args \<Rightarrow> flight_result option" where
  "hs13_flight_in b a = do {
     (ok, f) \<leftarrow> steps (flight_start_in b a @ flight_secrets_in b a @ flight_rest_in b a) (flight_init a);
     Some \<lparr>r_ret = (if ok then 0 else - 1), r_out_len = (if ok then f_n f else 0), r_out = f_out f,
       r_keys = (if ok then f_keys f else keys_wipe (f_keys f)), r_tx = f_tx f, r_key = f_rsa f\<rparr> }"

section \<open>The complete build\<close>

lemma full_steps:
  "b_int128 b \<Longrightarrow> key_exchange_in b = (key_exchange :: _ \<Rightarrow> _ \<Rightarrow> 'c flight_step)"
  "b_x86 b \<Longrightarrow> init_tx_in b = (init_tx :: 'c flight_step)"
  "b_x86 b \<Longrightarrow> seal_msg_in b = (seal_msg :: _ \<Rightarrow> _ \<Rightarrow> 'c flight_step)"
  "b_int128 b \<Longrightarrow> make_verify_in b = (make_verify :: _ \<Rightarrow> _ \<Rightarrow> 'c flight_step)"
  by (simp_all add: fun_eq_iff key_exchange_in_def key_exchange_def init_tx_in_def init_tx_def seal_msg_in_def make_verify_in_def Let_def)

lemma full_build: "b_int128 b \<Longrightarrow> b_x86 b \<Longrightarrow> hs13_flight_in b a = viltrum_hs13_flight_with a"
  by (simp only: hs13_flight_in_def viltrum_hs13_flight_with_def flight_start_in_def flight_start_def flight_secrets_in_def
      flight_secrets_def flight_rest_in_def flight_certificate_def flight_verify_def flight_finished_def Let_def full_steps append_Cons append_Nil)

lemma supported_full: "hs13_supported_in b \<Longrightarrow> b_int128 b \<and> b_x86 b"
  by (auto simp: hs13_supported_in_def viltrum_hs13_supported_def viltrum_aesgcm_supported_def viltrum_x25519_supported_def split: if_splits)

section \<open>Builds with stubs\<close>

lemma stub_exchange: "\<not> b_int128 b \<Longrightarrow> \<exists>f'. key_exchange_in b rnd h f = Some (False, f') \<and> f_keys f' = f_keys f \<and> f_out f' = f_out f"
  by (simp add: key_exchange_in_def x25519_stub_def fold_or_zero Let_def)

lemma no_int128:
  assumes "\<not> b_int128 b" "keys_shape (a_keys a)"
  shows "\<exists>r. hs13_flight_in b a = Some r \<and> r_ret r = - 1 \<and> r_out_len r = 0 \<and> r_keys r = keys_zero \<and> r_out r = a_out a"
proof -
  obtain f' where f': "key_exchange_in b (a_rnd a) (a_hello a) (flight_init a) = Some (False, f')"
    "f_keys f' = a_keys a" "f_out f' = a_out a"
    using stub_exchange [OF assms(1), of "a_rnd a" "a_hello a" "flight_init a"] by (auto simp: flight_init_def)
  show ?thesis
    using f' keys_wipe_zero [OF assms(2)]
    by (simp add: hs13_flight_in_def flight_start_in_def check_args_def Let_def flight_init_def)
qed

lemma wp_any: "wp T I s Q f \<Longrightarrow> wp False I s Q f"
  by (auto simp: wp_def)

lemma stub_init: "\<not> b_x86 b \<Longrightarrow> I f \<Longrightarrow> wp False I (init_tx_in b) Q f"
  unfolding wp_def by (rule exI [of _ False]) (simp add: init_tx_in_def gcm_init_stub_def)

lemma stub_secrets:
  assumes "mbed_spec (a_lib a) H" "started H a f" "flight_inv a f" "\<not> b_x86 b"
  shows "wp False (flight_inv a) (steps (flight_secrets_in b a)) (\<lambda>_. False) f"
proof -
  have th: "length (f_th f) = 32"
    using assms(1,2) by (simp add: started_def mbed_specD(1))
  show ?thesis
    unfolding flight_secrets_in_def Let_def
    apply (rule wp_Cons, rule wp_derive [OF assms(1) th])
    apply (rule assms(3))
    apply simp
    apply (intro conjI)
    subgoal using assms(3) by (simp add: flight_inv_def)
    apply (rule wp_Cons, rule wp_server_traffic)
    subgoal using assms(3) by (simp add: flight_inv_def)
    apply simp
    apply (intro conjI)
    subgoal using assms(3) by (simp add: flight_inv_def)
    apply (rule wp_Cons, rule wp_client_traffic)
    subgoal using assms(3) by (simp add: flight_inv_def)
    apply simp
    apply (intro conjI)
    subgoal using assms(1,3) by (auto simp: flight_inv_def keys_shape_def dest: length_traffic_keys)
    apply (rule wp_Cons, rule stub_init [OF assms(4)])
    subgoal using assms(1,3) by (auto simp: flight_inv_def keys_shape_def dest: length_traffic_keys)
    done
qed

lemma no_x86:
  assumes "mbed_spec (a_lib a) H" "args_ok a" "b_int128 b" "\<not> b_x86 b"
  shows "\<exists>r. hs13_flight_in b a = Some r \<and> r_ret r = - 1 \<and> r_out_len r = 0 \<and> r_keys r = keys_zero \<and>
    kept_outside 0 (a_cap a) (a_out a) (r_out r)"
proof -
  have "flight_start_in b a = flight_start a"
    by (simp add: flight_start_in_def flight_start_def full_steps(1) [OF assms(3)])
  then have "wp False (flight_inv a) (steps (flight_start_in b a)) (started H a) (flight_init a)"
    using wp_any [OF start_ok [OF assms(1,2)]] by simp
  then have "wp False (flight_inv a) (steps (flight_start_in b a))
      (wp False (flight_inv a) (steps (flight_secrets_in b a @ flight_rest_in b a)) (\<lambda>_. False)) (flight_init a)"
  proof (rule wp_mono)
    fix f
    assume f: "flight_inv a f" "started H a f"
    show "wp False (flight_inv a) (steps (flight_secrets_in b a @ flight_rest_in b a)) (\<lambda>_. False) f"
      by (rule wp_append, rule wp_mono [OF stub_secrets [OF assms(1) f(2,1) assms(4)]]) simp
  qed
  from wp_append [OF this] obtain f where
    "steps (flight_start_in b a @ flight_secrets_in b a @ flight_rest_in b a) (flight_init a) = Some (False, f)" "flight_inv a f"
    unfolding wp_def by (metis (full_types))
  then show ?thesis
    by (simp add: hs13_flight_in_def flight_inv_def keys_wipe_zero)
qed

section \<open>Property\<close>

text \<open>
  C16. A build that lacks a part of the handshake fails closed even if the engine does not ask for support: with any
  of the stubs the flight returns -1, gives no bytes and leaves every key wiped, so the plaintext that the stub of the
  sealing would leave is never sent; where \<^verbatim>\<open>viltrum_hs13_supported\<close> says yes it is the complete handshake.
\<close>

theorem builds_fail_closed:
  assumes "mbed_spec (a_lib a) H" "args_ok a"
  shows "\<exists>r. hs13_flight_in b a = Some r \<and>
    (if b_int128 b \<and> b_x86 b then viltrum_hs13_flight_with a = Some r
     else \<not> hs13_supported_in b \<and> r_ret r = - 1 \<and> r_out_len r = 0 \<and> r_keys r = keys_zero)"
proof -
  have shape: "keys_shape (a_keys a)"
    using assms(2) by (simp add: args_ok_def)
  consider "b_int128 b" "b_x86 b" | "\<not> b_int128 b" | "b_int128 b" "\<not> b_x86 b"
    by blast
  then show ?thesis
  proof cases
    case 1
    moreover obtain r where "viltrum_hs13_flight_with a = Some r"
      using flight_result [OF assms] by metis
    ultimately show ?thesis
      by (simp add: full_build)
  next
    case 2
    then show ?thesis
      using no_int128 [OF 2 shape] supported_full [of b] by auto
  next
    case 3
    then show ?thesis
      using no_x86 [OF assms 3] supported_full [of b] by auto
  qed
qed

theorem builds_fail_closed_witness:
  "\<exists>key r. viltrum_rsa_load int_lib demo_pk [2] = Some ((0, key), []) \<and>
    hs13_flight_in \<lparr>b_int128 = True, b_x86 = False, b_cpu_aes = True, b_cpu_pclmul = True, b_cpu_sse41 = True\<rparr> (demo_args key) = Some r \<and>
    r_ret r = - 1 \<and> r_out_len r = 0 \<and> r_keys r = keys_zero"
proof -
  obtain key where key: "viltrum_rsa_load int_lib demo_pk [2] = Some ((0, key), [])" "args_ok (demo_args key)"
    by (rule demo_flight)
  have "mbed_spec (a_lib (demo_args key)) demo_sha"
    using demo_kdf_spec by (simp add: demo_args_def)
  from builds_fail_closed [OF this key(2),
      of "\<lparr>b_int128 = True, b_x86 = False, b_cpu_aes = True, b_cpu_pclmul = True, b_cpu_sse41 = True\<rparr>"] key(1) show ?thesis
    by auto
qed

end
