(* ===== verification/RsaLife.thy ===== *)
theory RsaLife
  imports Pss
begin

text \<open>
  The life of a signing key of \<^verbatim>\<open>src/engine/rsa.h\<close>: loaded once, then used by one handshake after another. Every use
  changes the blinding pair in the key, and one that fails half-way has changed it too.
\<close>

section \<open>Uses of a key\<close>

text \<open>
  A use is a call of the private operation on any input of the modulus' length, or a PSS signature of anything, with
  whatever the hash library does as long as a digest has 32 bytes.
\<close>

inductive key_use :: "viltrum_rsa \<Rightarrow> viltrum_rsa \<Rightarrow> bool" where
  private_op: "length inp = 8 * key_limbs key \<Longrightarrow> viltrum_rsa_private key inp = Some (ret, out, key') \<Longrightarrow> key_use key key'"
| pss: "(\<forall>m d. sha m = Some d \<longrightarrow> length d = 32) \<Longrightarrow> length salt = 32 \<Longrightarrow>
    viltrum_rsa_pss_sha256 sha key mhash salt = Some (ret, sig, key') \<Longrightarrow> key_use key key'"

inductive_cases key_useE: "key_use key key'"

text \<open>The key apart from its blinding pair.\<close>

definition same_key :: "viltrum_rsa \<Rightarrow> viltrum_rsa \<Rightarrow> bool" where
  "same_key key key' \<longleftrightarrow> (\<exists>vi vf. key' = key\<lparr>key_bl_vi := vi, key_bl_vf := vf\<rparr>)"

lemma same_key_refl: "same_key key key"
  unfolding same_key_def by (rule exI [of _ "key_bl_vi key"], rule exI [of _ "key_bl_vf key"]) simp

lemma same_key_fields:
  "same_key key key' \<Longrightarrow> key_limbs key' = key_limbs key \<and> key_ok key' = key_ok key \<and> key_n key' = key_n key \<and> key_e key' = key_e key"
  by (auto simp: same_key_def)

lemma same_key_trans:
  assumes "same_key a b" "same_key b c"
  shows "same_key a c"
proof -
  obtain vi vf wi wf where "b = a\<lparr>key_bl_vi := vi, key_bl_vf := vf\<rparr>" "c = b\<lparr>key_bl_vi := wi, key_bl_vf := wf\<rparr>"
    using assms unfolding same_key_def by blast
  then have "c = a\<lparr>key_bl_vi := wi, key_bl_vf := wf\<rparr>"
    by simp
  then show ?thesis
    unfolding same_key_def by blast
qed

lemma sign_step_same: "same_key key (fst (rsa_sign_step key m))"
  by (auto simp: same_key_def rsa_sign_step_def Let_def)

lemma private_same: "viltrum_rsa_private key inp = Some (ret, out, key') \<Longrightarrow> same_key key key'"
  using sign_step_same [of key "limbs_of_be (key_limbs key) inp"]
  by (auto simp: viltrum_rsa_private_def Let_def case_prod_beta same_key_refl split: if_splits option.splits bool.splits)

lemma pss_same: "viltrum_rsa_pss_sha256 sha key mhash salt = Some (ret, sig, key') \<Longrightarrow> same_key key key'"
  by (auto simp: viltrum_rsa_pss_sha256_def same_key_refl dest: private_same split: if_splits option.splits)

lemma key_use_same: "key_use key key' \<Longrightarrow> same_key key key'"
  by (auto elim!: key_useE dest: private_same pss_same)

section \<open>Well-formedness\<close>

lemma private_wf:
  assumes "rsa_key_wf key" "length inp = 8 * key_limbs key" "viltrum_rsa_private key inp = Some (ret, out, key')"
  shows "rsa_key_wf key'"
proof (cases "be_val inp < le_val (key_n key)")
  case True
  then show ?thesis
    using viltrum_rsa_private_correct [OF assms(1,2)] assms(3) by fastforce
next
  case False
  have "length (key_n key) = key_limbs key"
    using assms(1) rsa_key_staticD(2) by (auto simp: rsa_key_wf_def)
  then have "viltrum_rsa_private key inp = Some (- 1, None, key)"
    using private_range [OF _ assms(2)] False by (simp add: viltrum_rsa_private_def Let_def case_prod_beta)
  then show ?thesis
    using assms(1,3) by simp
qed

lemma key_use_wf: "key_use key key' \<Longrightarrow> rsa_key_wf key \<Longrightarrow> 9 \<le> key_limbs key \<Longrightarrow> rsa_key_wf key'"
proof (induction rule: key_use.induct)
  case (private_op inp key ret out key')
  then show ?case
    by (blast intro: private_wf)
next
  case (pss sha salt key mhash ret sig key')
  then show ?case
    using pss_returns [of sha salt key mhash] by auto
qed

lemma key_uses:
  assumes "key_use\<^sup>*\<^sup>* key key'" "rsa_key_wf key" "9 \<le> key_limbs key"
  shows "rsa_key_wf key' \<and> same_key key key'"
  using assms(1)
proof (induction rule: rtranclp_induct)
  case (step a b)
  then have "9 \<le> key_limbs a"
    using assms(3) same_key_fields by metis
  then show ?case
    using step key_use_wf key_use_same same_key_trans by blast
qed (simp add: assms(2) same_key_refl)

section \<open>Property\<close>

text \<open>
  C14. A key that was loaded never wears out: after any number of uses, successful or not, it is well-formed, its
  modulus and exponent are the loaded ones, and the next PSS signature succeeds and verifies under them.
\<close>

theorem rsa_key_lifetime:
  assumes "mbedtls_spec L val" "rsa_pk_valid L val pk" "viltrum_rsa_load L pk rng = Some ((0, key), rng')"
    and "key_use\<^sup>*\<^sup>* key key'" "pss_args sha256 H (key_limbs key) mhash salt"
  shows "rsa_key_wf key' \<and> (\<exists>sig key'' EM. viltrum_rsa_pss_sha256 sha256 key' mhash salt = Some (0, Some sig, key'') \<and>
    key_use key' key'' \<and> length sig = 8 * key_limbs key \<and>
    be_val EM = be_val sig ^ unat (key_e key) mod le_val (key_n key) \<and> emsa_pss_verify H (8 * key_limbs key) mhash EM)"
proof -
  have load: "rsa_key_wf key" "key_ok key" "16 \<le> key_limbs key" "2 ^ (64 * key_limbs key - 1) \<le> le_val (key_n key)"
    using viltrum_rsa_load_correct [OF assms(1-3)] by auto
  then have wf: "rsa_key_wf key'" and same: "same_key key key'"
    using key_uses [OF assms(4)] by simp_all
  obtain sig key'' EM where s: "viltrum_rsa_pss_sha256 sha256 key' mhash salt = Some (0, Some sig, key'')"
    "length sig = 8 * key_limbs key" "be_val EM = be_val sig ^ unat (key_e key) mod le_val (key_n key)"
    "emsa_pss_verify H (8 * key_limbs key) mhash EM"
    using pss_signs [of sha256 H key' mhash salt] wf load assms(5) same_key_fields [OF same] by auto
  moreover have "key_use key' key''"
    using assms(5) s(1) by (intro key_use.pss) (auto simp: pss_args_def)
  ultimately show ?thesis
    using wf by blast
qed

theorem rsa_key_lifetime_witness:
  "\<exists>key key' sig key'' EM. viltrum_rsa_load int_lib demo_pk [2] = Some ((0, key), []) \<and> key_use\<^sup>*\<^sup>* key key' \<and>
    viltrum_rsa_pss_sha256 (\<lambda>x. Some (small_hash x)) key' (replicate 32 7) (replicate 32 9) = Some (0, Some sig, key'') \<and>
    be_val EM = be_val sig ^ unat (key_e key) mod le_val (key_n key) \<and>
    emsa_pss_verify small_hash (8 * key_limbs key) (replicate 32 7) EM"
proof -
  obtain key where key: "viltrum_rsa_load int_lib demo_pk [2] = Some ((0, key), [])" using demo_load by blast
  have limbs: "16 \<le> key_limbs key" "key_limbs key \<le> 64"
    using viltrum_rsa_load_correct [OF int_lib_spec demo_pk_valid key] by auto
  have "pss_args (\<lambda>x. Some (small_hash x)) small_hash (key_limbs key) (replicate 32 7) (replicate 32 9)"
    using limbs by (simp add: pss_args_def small_hash_def)
  note life = rsa_key_lifetime [OF int_lib_spec demo_pk_valid key _ this]
  obtain key' where use: "key_use key key'"
    using life [OF rtranclp.rtrancl_refl] by blast
  then have "key_use\<^sup>*\<^sup>* key key'"
    by blast
  with life [OF this] key show ?thesis
    by blast
qed

end
