(* ===== verification/Bio.thy ===== *)
theory Bio
  imports Hs13Parse
begin

unbundle bit_operations_syntax

text \<open>
  The transport under a TLS session, \<^verbatim>\<open>viltrum_bio\<close> of \<^verbatim>\<open>src/engine/tls_linux.h\<close>: the callbacks that mbedtls
  sends and receives through, with the read-ahead buffer and the flag that saves a system call on an empty socket.
  The result of a system call is an argument. A step relation puts the callback between a socket and its reader.
\<close>

section \<open>Types\<close>

text \<open>
  What \<^verbatim>\<open>recv\<close> and \<^verbatim>\<open>send\<close> return: -1 with an errno, or a count (for \<^verbatim>\<open>recv\<close>, the bytes it stored). On Linux
  \<^verbatim>\<open>EWOULDBLOCK\<close> is \<^verbatim>\<open>EAGAIN\<close>.
\<close>

datatype errno = EAGAIN | EINTR | EOTHER int

datatype recv_result = Recv_Error errno | Recv "u8 list"

datatype send_result = Send_Error errno | Sent nat

text \<open>The codes of mbedtls' BIO interface; its error codes are negative, so that a caller can tell them from counts.\<close>

record bio_codes =
  want_read :: int
  want_write :: int
  recv_failed :: int
  send_failed :: int

definition codes_negative :: "bio_codes \<Rightarrow> bool" where
  "codes_negative c \<longleftrightarrow> want_read c < 0 \<and> want_write c < 0 \<and> recv_failed c < 0 \<and> send_failed c < 0"

text \<open>\<^verbatim>\<open>fd\<close> is the address of the descriptor, which the program may change between calls.\<close>

record viltrum_bio =
  b_fd :: nat
  b_fd_size :: int
  b_buf :: "u8 list"
  b_cap :: nat
  b_off :: nat
  b_len :: nat
  b_drained :: bool

section \<open>Operations\<close>

text \<open>Little-endian loads from memory.\<close>

definition load_bytes :: "(nat \<Rightarrow> u8) \<Rightarrow> nat \<Rightarrow> nat \<Rightarrow> u8 list" where
  "load_bytes mem p n = map (\<lambda>i. mem (p + i)) [0..<n]"

definition viltrum_bio_fd :: "(nat \<Rightarrow> u8) \<Rightarrow> viltrum_bio \<Rightarrow> int" where
  "viltrum_bio_fd mem b =
     (if b_fd_size b = 8 then c_int (sint (word_of_int (le_val (load_bytes mem (b_fd b) 8)) :: u64))
      else sint (word_of_int (le_val (load_bytes mem (b_fd b) 4)) :: u32))"

definition viltrum_tls_send :: "bio_codes \<Rightarrow> (int \<Rightarrow> u8 list \<Rightarrow> send_result) \<Rightarrow> (nat \<Rightarrow> u8) \<Rightarrow> viltrum_bio \<Rightarrow> u8 list \<Rightarrow> int" where
  "viltrum_tls_send codes send mem b buf =
     (case send (viltrum_bio_fd mem b) buf of
        Send_Error e \<Rightarrow> if e = EAGAIN \<or> e = EINTR then want_write codes else send_failed codes
      | Sent n \<Rightarrow> c_int (int n))"

text \<open>The copy at the end of \<^verbatim>\<open>viltrum_tls_recv\<close>: the result, the bytes stored at \<^verbatim>\<open>buf\<close> and the state.\<close>

definition bio_copy :: "viltrum_bio \<Rightarrow> nat \<Rightarrow> (int \<times> u8 list \<times> viltrum_bio) option" where
  "bio_copy b len =
     (let k = b_len b - b_off b;
          k = (if len < k then len else k)
      in do {
        bs \<leftarrow> copy_bytes (Some (drop (b_off b) (b_buf b))) k;
        Some (c_int (int k), bs, b\<lparr>b_off := b_off b + k\<rparr>) })"

definition viltrum_tls_recv ::
  "bio_codes \<Rightarrow> (int \<Rightarrow> nat \<Rightarrow> recv_result) \<Rightarrow> (nat \<Rightarrow> u8) \<Rightarrow> viltrum_bio \<Rightarrow> nat \<Rightarrow> (int \<times> u8 list \<times> viltrum_bio) option" where
  "viltrum_tls_recv codes recv mem b len =
     (if b_off b = b_len b then
        (if b_drained b then Some (want_read codes, [], b)
         else case recv (viltrum_bio_fd mem b) (b_cap b) of
                Recv_Error e \<Rightarrow>
                  if e = EAGAIN \<or> e = EINTR then Some (want_read codes, [], b\<lparr>b_drained := True\<rparr>)
                  else Some (recv_failed codes, [], b)
              | Recv bs \<Rightarrow> do {
                  buf \<leftarrow> memcpy (b_buf b) (Some bs) (length bs);
                  let b = b\<lparr>b_buf := buf\<rparr>;
                  if length bs = 0 then Some (0, [], b)
                  else bio_copy (b\<lparr>b_off := 0, b_len := length bs, b_drained := length bs < b_cap b\<rparr>) len })
      else bio_copy b len)"

definition viltrum_tls_bio_init :: "nat \<Rightarrow> int \<Rightarrow> u8 list \<Rightarrow> nat \<Rightarrow> viltrum_bio" where
  "viltrum_tls_bio_init fd fd_size buf cap =
     \<lparr>b_fd = fd, b_fd_size = fd_size, b_buf = buf, b_cap = cap, b_off = 0, b_len = 0, b_drained = False\<rparr>"

section \<open>The descriptor\<close>

text \<open>A 32-bit and a 64-bit integer that hold the same descriptor give the same one.\<close>

lemma bio_fd_widths:
  fixes x :: nat
  assumes "x < 2 ^ 31"
    and "load_bytes mem (b_fd b) (if b_fd_size b = 8 then 8 else 4) = le_digits (if b_fd_size b = 8 then 8 else 4) (int x)"
  shows "viltrum_bio_fd mem b = int x"
proof (cases "b_fd_size b = 8")
  case True
  have "le_val (le_digits 8 (int x) :: u8 list) = int x"
    using assms(1) le_val_le_digits [of 8 "int x", where ?'a = 8] by simp
  moreover have "sint (word_of_int (int x) :: u64) = int x"
    using assms(1) by (simp add: signed_of_nat signed_take_bit_int_eq_self)
  ultimately show ?thesis
    using True assms by (simp add: viltrum_bio_fd_def c_int_small)
next
  case False
  have "le_val (le_digits 4 (int x) :: u8 list) = int x"
    using assms(1) le_val_le_digits [of 4 "int x", where ?'a = 8] by simp
  then show ?thesis
    using False assms by (simp add: viltrum_bio_fd_def signed_of_nat signed_take_bit_int_eq_self)
qed

section \<open>The socket and its reader\<close>

text \<open>
  What has arrived at the socket and was not received yet, and as a history every byte that arrived and every byte
  the reader was given. A receive on the socket is that of a non-blocking stream: it takes a first part of what is
  there, of any length up to the size asked for, is told to wait when nothing is there, reads the end of the stream
  only then, and can be interrupted or fail at any time. When epoll reports the socket readable (level-triggered: only when bytes are
  there), the worker clears \<^verbatim>\<open>drained\<close>.
\<close>

record wire =
  w_bio :: viltrum_bio
  w_sock :: "u8 list"
  w_arrived :: "u8 list"
  w_read :: "u8 list"

definition recv_allowed :: "u8 list \<Rightarrow> nat \<Rightarrow> recv_result \<Rightarrow> bool" where
  "recv_allowed sock cap r =
     (case r of
        Recv bs \<Rightarrow> length bs \<le> cap \<and> bs = take (length bs) sock \<and> (bs = [] \<longrightarrow> sock = [])
      | Recv_Error e \<Rightarrow> e = EAGAIN \<longrightarrow> sock = [])"

text \<open>A receive is made exactly when nothing is buffered and the socket is not known to be empty.\<close>

definition received :: "viltrum_bio \<Rightarrow> recv_result \<Rightarrow> u8 list" where
  "received b r = (if b_off b = b_len b \<and> \<not> b_drained b then (case r of Recv bs \<Rightarrow> bs | _ \<Rightarrow> []) else [])"

text \<open>
  What the reader has from a call: the callback stored \<open>bs\<close> at the start of its buffer and the rest is as before; the
  reader takes as many bytes as the callback returned, and none for an error code.
\<close>

definition given :: "int \<Rightarrow> u8 list \<Rightarrow> u8 list \<Rightarrow> u8 list" where
  "given ret bs buf = take (nat ret) (bs @ drop (length bs) buf)"

inductive wire_step :: "bio_codes \<Rightarrow> (nat \<Rightarrow> u8) \<Rightarrow> wire \<Rightarrow> wire \<Rightarrow> bool" for codes mem where
  arrive: "wire_step codes mem w (w\<lparr>w_sock := w_sock w @ bs, w_arrived := w_arrived w @ bs\<rparr>)"
| readable: "w_sock w \<noteq> [] \<Longrightarrow> wire_step codes mem w (w\<lparr>w_bio := (w_bio w)\<lparr>b_drained := False\<rparr>\<rparr>)"
| read: "recv_allowed (w_sock w) (b_cap (w_bio w)) r \<Longrightarrow>
    viltrum_tls_recv codes (\<lambda>_ _. r) mem (w_bio w) (length buf) = Some (ret, bs, b) \<Longrightarrow>
    wire_step codes mem w (w\<lparr>w_bio := b, w_sock := drop (length (received (w_bio w) r)) (w_sock w),
      w_read := w_read w @ given ret bs buf\<rparr>)"

definition bio_held :: "viltrum_bio \<Rightarrow> u8 list" where
  "bio_held b = drop (b_off b) (take (b_len b) (b_buf b))"

definition bio_wf :: "viltrum_bio \<Rightarrow> bool" where
  "bio_wf b \<longleftrightarrow> b_off b \<le> b_len b \<and> b_len b \<le> b_cap b \<and> 0 < b_cap b \<and> b_cap b \<le> length (b_buf b) \<and> b_cap b < 2 ^ 31"

definition wire_inv :: "wire \<Rightarrow> bool" where
  "wire_inv w \<longleftrightarrow> bio_wf (w_bio w) \<and> w_arrived w = w_read w @ bio_held (w_bio w) @ w_sock w"

inductive_cases wire_stepE: "wire_step codes mem w w'"

lemma length_bio_held: "bio_wf b \<Longrightarrow> length (bio_held b) = b_len b - b_off b"
  by (simp add: bio_held_def bio_wf_def)

lemma bio_copy_eq:
  assumes "bio_wf b"
  shows "bio_copy b len = Some (int (min len (b_len b - b_off b)), take len (bio_held b), b\<lparr>b_off := b_off b + min len (b_len b - b_off b)\<rparr>)"
proof -
  let ?k = "min len (b_len b - b_off b)"
  have k: "(if len < b_len b - b_off b then len else b_len b - b_off b) = ?k"
    by simp
  have le: "?k \<le> length (drop (b_off b) (b_buf b))" "int ?k < 2 ^ 31"
    using assms by (auto simp: bio_wf_def)
  have "take ?k (drop (b_off b) (b_buf b)) = take len (bio_held b)"
    by (simp add: bio_held_def drop_take min.commute)
  then show ?thesis
    using le by (simp add: bio_copy_def Let_def k c_int_small del: length_drop of_nat_min)
qed

lemma bio_copy_held:
  assumes "bio_wf b" "b' = b\<lparr>b_off := b_off b + min len (b_len b - b_off b)\<rparr>"
  shows "bio_wf b'" "bio_held b = take len (bio_held b) @ bio_held b'"
proof -
  show "bio_wf b'"
    using assms by (auto simp: bio_wf_def)
  have "bio_held b' = drop (min len (b_len b - b_off b)) (bio_held b)"
    by (simp add: assms(2) bio_held_def add.commute)
  also have "\<dots> = drop len (bio_held b)"
    using length_bio_held [OF assms(1)] by (cases "len \<le> b_len b - b_off b") simp_all
  finally show "bio_held b = take len (bio_held b) @ bio_held b'"
    by simp
qed

lemma bio_copy_gives:
  assumes "bio_wf b"
  shows "\<exists>b'. bio_copy b len = Some (int (min len (length (bio_held b))), take len (bio_held b), b') \<and> bio_wf b' \<and>
    bio_held b' = drop len (bio_held b)"
proof -
  let ?b = "b\<lparr>b_off := b_off b + min len (b_len b - b_off b)\<rparr>"
  note held = bio_copy_held [OF assms refl, of len]
  have "take len (bio_held b) @ bio_held ?b = take len (bio_held b) @ drop len (bio_held b)"
    using held(2) by simp
  then have "bio_held ?b = drop len (bio_held b)"
    by (simp only: same_append_eq)
  then show ?thesis
    using bio_copy_eq [OF assms, of len] held(1) length_bio_held [OF assms] by simp
qed

lemma recv_filled:
  assumes "bio_wf b" "length bs \<le> b_cap b" "bs \<noteq> []"
  defines "b' \<equiv> b\<lparr>b_buf := bs @ drop (length bs) (b_buf b), b_off := 0, b_len := length bs, b_drained := length bs < b_cap b\<rparr>"
  shows "bio_wf b'" "bio_held b' = bs"
  using assms(1-3) by (auto simp: b'_def bio_wf_def bio_held_def)

lemma memcpy_all: "length bs \<le> length dst \<Longrightarrow> memcpy dst (Some bs) (length bs) = Some (bs @ drop (length bs) dst)"
  by (simp add: memcpy_def)

text \<open>
  Every outcome of the callback. What can be given at once is what is held or, if that is nothing and a receive was
  made, what the receive returned; as much of it as the reader asked for is given, and the rest is held.
\<close>

definition available :: "viltrum_bio \<Rightarrow> recv_result \<Rightarrow> u8 list" where
  "available b r = bio_held b @ received b r"

lemma held_empty: "bio_wf b \<Longrightarrow> bio_held b = [] \<longleftrightarrow> b_off b = b_len b"
  using length_bio_held [of b] by (auto simp: bio_wf_def)

lemma recv_copies:
  assumes "bio_wf b" "recv_allowed sock (b_cap b) r" "available b r \<noteq> []"
  shows "\<exists>b'. viltrum_tls_recv codes (\<lambda>_ _. r) mem b len =
      Some (int (min len (length (available b r))), take len (available b r), b') \<and> bio_wf b' \<and>
    bio_held b' = drop len (available b r)"
proof (cases "b_off b = b_len b")
  case True
  then have recv: "\<not> b_drained b" "available b r = received b r"
    using assms(3) by (auto simp: available_def received_def bio_held_def)
  then obtain bs where bs: "r = Recv bs" "bs \<noteq> []" "available b r = bs"
    using assms(3) True by (cases r) (auto simp: received_def)
  have len: "length bs \<le> b_cap b" "length bs \<le> length (b_buf b)"
    using assms(1,2) bs(1) by (auto simp: recv_allowed_def bio_wf_def)
  let ?b = "b\<lparr>b_buf := bs @ drop (length bs) (b_buf b), b_off := 0, b_len := length bs, b_drained := length bs < b_cap b\<rparr>"
  note filled = recv_filled [OF assms(1) len(1) bs(2)]
  have "viltrum_tls_recv codes (\<lambda>_ _. r) mem b len = bio_copy ?b len"
    using True recv(1) bs(1,2) memcpy_all [OF len(2)] by (simp add: viltrum_tls_recv_def)
  then show ?thesis
    using bio_copy_gives [OF filled(1), of len] unfolding filled(2) bs(3) by simp
next
  case False
  then have avail: "available b r = bio_held b"
    by (simp add: available_def received_def)
  show ?thesis
    using False bio_copy_gives [OF assms(1), of len] unfolding avail by (simp add: viltrum_tls_recv_def)
qed

lemma recv_nothing:
  assumes "bio_wf b" "recv_allowed sock (b_cap b) r" "available b r = []"
  shows "\<exists>b'. viltrum_tls_recv codes (\<lambda>_ _. r) mem b len =
      Some (if b_drained b \<or> r = Recv_Error EAGAIN \<or> r = Recv_Error EINTR then want_read codes
        else if r = Recv [] then 0 else recv_failed codes, [], b') \<and> bio_wf b' \<and> bio_held b' = []"
proof -
  have off: "b_off b = b_len b"
    using assms(1,3) held_empty by (simp add: available_def)
  then show ?thesis
    using assms by (cases r) (auto simp: viltrum_tls_recv_def available_def received_def bio_wf_def bio_held_def memcpy_def split: if_splits)
qed

lemma recv_step:
  assumes "bio_wf b" "recv_allowed sock (b_cap b) r" "codes_negative codes"
  shows "\<exists>ret bs b'. viltrum_tls_recv codes (\<lambda>_ _. r) mem b (length buf) = Some (ret, bs, b') \<and> bio_wf b' \<and>
    bio_held b @ sock = given ret bs buf @ bio_held b' @ drop (length (received b r)) sock"
proof -
  have sock: "sock = received b r @ drop (length (received b r)) sock"
    using assms(2) by (auto simp: received_def recv_allowed_def split: recv_result.split) (metis append_take_drop_id)
  then have all: "bio_held b @ sock = available b r @ drop (length (received b r)) sock"
    by (simp add: available_def)
  show ?thesis
  proof (cases "available b r = []")
    case True
    then show ?thesis
      using recv_nothing [OF assms(1,2) True, of codes mem "length buf"] assms(3) all
      by (fastforce simp: given_def codes_negative_def)
  next
    case False
    have "given (int (min (length buf) (length (available b r)))) (take (length buf) (available b r)) buf = take (length buf) (available b r)"
      by (cases "length buf \<le> length (available b r)") (simp_all add: given_def)
    moreover obtain b' where "viltrum_tls_recv codes (\<lambda>_ _. r) mem b (length buf) =
        Some (int (min (length buf) (length (available b r))), take (length buf) (available b r), b')" "bio_wf b'"
      "bio_held b' = drop (length buf) (available b r)"
      using recv_copies [OF assms(1,2) False, of codes mem "length buf"] by blast
    ultimately show ?thesis
      using all by (metis append_take_drop_id append_assoc)
  qed
qed

lemma wire_inv_step:
  assumes "wire_step codes mem w w'" "wire_inv w" "codes_negative codes"
  shows "wire_inv w'"
  using assms(1)
proof cases
  case (read r buf ret bs b)
  obtain ret' bs' b' where r: "viltrum_tls_recv codes (\<lambda>_ _. r) mem (w_bio w) (length buf) = Some (ret', bs', b')" "bio_wf b'"
    "bio_held (w_bio w) @ w_sock w = given ret' bs' buf @ bio_held b' @ drop (length (received (w_bio w) r)) (w_sock w)"
    using recv_step [OF _ read(2) assms(3)] assms(2) unfolding wire_inv_def by blast
  then show ?thesis
    using read(1,3) assms(2) by (simp add: wire_inv_def)
qed (use assms(2) in \<open>auto simp: wire_inv_def bio_wf_def bio_held_def\<close>)

definition wire_start :: "nat \<Rightarrow> int \<Rightarrow> u8 list \<Rightarrow> nat \<Rightarrow> wire" where
  "wire_start fd fd_size buf cap =
     \<lparr>w_bio = viltrum_tls_bio_init fd fd_size buf cap, w_sock = [], w_arrived = [], w_read = []\<rparr>"

lemma wire_inv_start: "0 < cap \<Longrightarrow> cap \<le> length buf \<Longrightarrow> cap < 2 ^ 31 \<Longrightarrow> wire_inv (wire_start fd fd_size buf cap)"
  by (simp add: wire_inv_def wire_start_def viltrum_tls_bio_init_def bio_wf_def bio_held_def)

lemma wire_inv_reach: "(wire_step codes mem)\<^sup>*\<^sup>* w w' \<Longrightarrow> wire_inv w \<Longrightarrow> codes_negative codes \<Longrightarrow> wire_inv w'"
  by (induction rule: rtranclp_induct) (auto intro: wire_inv_step)

section \<open>Properties\<close>

text \<open>
  C21. Whatever arrives in whatever pieces, however the reads are sized, cut short, interrupted or told to wait, what
  mbedtls has been given, by the counts the callback returns, followed by what the transport still holds and what is left
  at the socket is what arrived: no byte is lost, repeated or reordered, and the buffer's bounds are kept.
\<close>

theorem bio_stream_in_order:
  assumes "codes_negative codes" "0 < cap" "cap \<le> length buf" "cap < 2 ^ 31"
    and "(wire_step codes mem)\<^sup>*\<^sup>* (wire_start fd fd_size buf cap) w"
  shows "w_arrived w = w_read w @ bio_held (w_bio w) @ w_sock w \<and> b_off (w_bio w) \<le> b_len (w_bio w) \<and>
    b_len (w_bio w) \<le> length (b_buf (w_bio w))"
  using wire_inv_reach [OF assms(5) wire_inv_start [OF assms(2-4)] assms(1)] by (simp add: wire_inv_def bio_wf_def)

text \<open>
  C36. The read-ahead and the flag that skips a receive never stall a connection. In every reachable state in which bytes
  that arrived were not delivered, take any read size and any result the socket may give. If bytes are held, the read
  gives as many of them as were asked for or all of them. If none are held, the socket has some, so that epoll reports it
  readable and the flag is cleared; the read then makes a receive and gives as much of what that returned as was asked
  for, at least one byte. Only a receive that itself was interrupted or failed gives no byte, and then the reader is
  told which of the two, and loses nothing.
\<close>

theorem bio_progress:
  assumes "codes_negative codes" "0 < cap" "cap \<le> length buf" "cap < 2 ^ 31"
    and "(wire_step codes mem)\<^sup>*\<^sup>* (wire_start fd fd_size buf cap) w" "w_read w \<noteq> w_arrived w"
    and "0 < len" "recv_allowed (w_sock w) (b_cap (w_bio w)) r"
  shows "if bio_held (w_bio w) \<noteq> []
    then \<exists>b. viltrum_tls_recv codes (\<lambda>_ _. r) mem (w_bio w) len =
        Some (int (min len (length (bio_held (w_bio w)))), take len (bio_held (w_bio w)), b) \<and>
      bio_held b = drop len (bio_held (w_bio w))
    else \<exists>w1 b. w1 = w\<lparr>w_bio := (w_bio w)\<lparr>b_drained := False\<rparr>\<rparr> \<and> wire_step codes mem w w1 \<and>
      (case r of
         Recv bs \<Rightarrow> bs \<noteq> [] \<and> viltrum_tls_recv codes (\<lambda>_ _. r) mem (w_bio w1) len = Some (int (min len (length bs)), take len bs, b) \<and>
           bio_held b = drop len bs
       | Recv_Error e \<Rightarrow> viltrum_tls_recv codes (\<lambda>_ _. r) mem (w_bio w1) len =
           Some (if e = EINTR then want_read codes else recv_failed codes, [], b) \<and> bio_held b = [])"
proof -
  have inv: "wire_inv w"
    using wire_inv_reach [OF assms(5) wire_inv_start [OF assms(2-4)] assms(1)] .
  then have wf: "bio_wf (w_bio w)" and left: "bio_held (w_bio w) @ w_sock w \<noteq> []"
    using assms(6) by (auto simp: wire_inv_def)
  show ?thesis
  proof (cases "bio_held (w_bio w) = []")
    case True
    let ?b = "(w_bio w)\<lparr>b_drained := False\<rparr>"
    have step: "wire_step codes mem w (w\<lparr>w_bio := ?b\<rparr>)"
      using left True by (intro wire_step.readable) simp
    have b: "bio_wf ?b" "recv_allowed (w_sock w) (b_cap ?b) r" "w_sock w \<noteq> []"
      using wf assms(8) left True by (simp_all add: bio_wf_def)
    have avail: "available ?b r = (case r of Recv bs \<Rightarrow> bs | _ \<Rightarrow> [])"
      using True held_empty [OF wf] by (simp add: available_def received_def bio_held_def)
    show ?thesis
    proof (cases r)
      case (Recv bs)
      then have "bs \<noteq> []"
        using b(2,3) by (auto simp: recv_allowed_def)
      then show ?thesis
        using recv_copies [OF b(1,2), of codes mem len] step True Recv avail by auto
    next
      case (Recv_Error e)
      then have "e \<noteq> EAGAIN"
        using b(2,3) by (auto simp: recv_allowed_def)
      then show ?thesis
        using recv_nothing [OF b(1,2), of codes mem len] step True Recv_Error avail by auto
    qed
  next
    case False
    then have "b_off (w_bio w) \<noteq> b_len (w_bio w)"
      using held_empty [OF wf] by simp
    then have "available (w_bio w) r = bio_held (w_bio w)"
      by (simp add: available_def received_def)
    then show ?thesis
      using recv_copies [OF wf assms(8), of codes mem len] False by auto
  qed
qed

definition demo_codes :: bio_codes where
  "demo_codes = \<lparr>want_read = - 0x6900, want_write = - 0x6880, recv_failed = - 0x4c, send_failed = - 0x4e\<rparr>"

definition demo_wire :: wire where
  "demo_wire = (wire_start 0 4 [0, 0] 2)\<lparr>w_sock := [1, 2, 3], w_arrived := [1, 2, 3]\<rparr>"

lemma demo_wire_reach: "(wire_step demo_codes (\<lambda>_. 0))\<^sup>*\<^sup>* (wire_start 0 4 [0, 0] 2) demo_wire"
  using wire_step.arrive [of demo_codes "\<lambda>_. 0" "wire_start 0 4 [0, 0] 2" "[1, 2, 3]"]
  by (intro r_into_rtranclp) (simp add: demo_wire_def wire_start_def)

lemma demo_codes_negative: "codes_negative demo_codes"
  by (simp add: codes_negative_def demo_codes_def)

theorem bio_stream_in_order_witness:
  "w_arrived demo_wire = w_read demo_wire @ bio_held (w_bio demo_wire) @ w_sock demo_wire"
  using bio_stream_in_order [OF demo_codes_negative _ _ _ demo_wire_reach] by simp

text \<open>A header of five bytes is asked for, and a receive cut short gives the first byte of it.\<close>

theorem bio_progress_witness:
  "\<exists>b. viltrum_tls_recv demo_codes (\<lambda>_ _. Recv [1]) (\<lambda>_. 0) ((w_bio demo_wire)\<lparr>b_drained := False\<rparr>) 5 = Some (1, [1], b) \<and> bio_held b = []"
proof -
  have w: "w_read demo_wire \<noteq> w_arrived demo_wire" "recv_allowed (w_sock demo_wire) (b_cap (w_bio demo_wire)) (Recv [1])"
    "bio_held (w_bio demo_wire) = []"
    by (simp_all add: demo_wire_def wire_start_def recv_allowed_def viltrum_tls_bio_init_def bio_held_def)
  from bio_progress [OF demo_codes_negative _ _ _ demo_wire_reach w(1) _ w(2), of 5] w(3) show ?thesis
    by simp
qed

end
