(* ===== verification/TlsLinux.thy ===== *)
theory TlsLinux
  imports Bio Hs13Msg
begin

unbundle bit_operations_syntax

text \<open>
  The rest of \<^verbatim>\<open>src/engine/tls_linux.h\<close>: the server policy given to mbedtls, as the sequence of calls made on the
  configuration; the callback that collects the traffic secrets of a TLS 1.3 handshake; and HKDF-Expand-Label for the
  record layer. What mbedtls does is an argument.
\<close>

section \<open>The server policy\<close>

text \<open>The tables are the IANA numbers behind mbedtls' names, with the terminator mbedtls looks for.\<close>

definition viltrum_tls_suites :: "int list" where
  "viltrum_tls_suites = [0x1301, 0x1302, 0x1303, 0xc02b, 0xc02f, 0xc02c, 0xc030, 0xcca9, 0xcca8, 0]"

definition viltrum_tls_groups :: "u16 list" where
  "viltrum_tls_groups = [0x1d, 0x17, 0x18, 0]"

text \<open>A protocol list ends with a null pointer.\<close>

definition viltrum_tls_alpn :: "string option list" where
  "viltrum_tls_alpn = [Some ''http/1.1'', None]"

definition viltrum_tls_alpn_h2 :: "string option list" where
  "viltrum_tls_alpn_h2 = [Some ''h2'', Some ''http/1.1'', None]"

datatype tls_version = TLS1_2 | TLS1_3

text \<open>Versions in their order, as mbedtls compares them.\<close>

instantiation tls_version :: linorder
begin

definition less_eq_tls_version :: "tls_version \<Rightarrow> tls_version \<Rightarrow> bool" where
  "less_eq_tls_version v w \<longleftrightarrow> v = TLS1_2 \<or> w = TLS1_3"

definition less_tls_version :: "tls_version \<Rightarrow> tls_version \<Rightarrow> bool" where
  "less_tls_version v w \<longleftrightarrow> v = TLS1_2 \<and> w = TLS1_3"

instance
proof
  fix v w :: tls_version
  show "v \<le> w \<or> w \<le> v"
    by (cases v) (auto simp: less_eq_tls_version_def)
qed (auto simp: less_eq_tls_version_def less_tls_version_def intro: tls_version.exhaust)

end

datatype conf_call =
    Conf_Defaults_Server_Stream
  | Conf_Rng_Drbg
  | Conf_Verify_None
  | Conf_Min_Version tls_version
  | Conf_Max_Version tls_version
  | Conf_Suites "int list"
  | Conf_Groups "u16 list"
  | Conf_Renegotiation_Disabled
  | Conf_New_Session_Tickets int
  | Conf_Alpn "string option list"
  | Conf_Cert_Cb

text \<open>
  \<open>res\<close> gives the result of a call that can fail; \<open>tickets\<close> tells whether mbedtls was built with session tickets for
  TLS 1.3. The calls are listed in the order they were made.
\<close>

definition viltrum_tls_conf :: "(conf_call \<Rightarrow> int) \<Rightarrow> bool \<Rightarrow> bool \<Rightarrow> int \<times> conf_call list" where
  "viltrum_tls_conf res tickets h2 =
     (let ret = res Conf_Defaults_Server_Stream; calls = [Conf_Defaults_Server_Stream]
      in if ret \<noteq> 0 then (ret, calls)
         else
           (let calls = calls @ [Conf_Rng_Drbg, Conf_Verify_None, Conf_Min_Version TLS1_2, Conf_Max_Version TLS1_3,
                  Conf_Suites viltrum_tls_suites, Conf_Groups viltrum_tls_groups, Conf_Renegotiation_Disabled] @
                  (if tickets then [Conf_New_Session_Tickets 0] else []);
                alpn = Conf_Alpn (if h2 then viltrum_tls_alpn_h2 else viltrum_tls_alpn);
                ret = res alpn; calls = calls @ [alpn]
            in if ret \<noteq> 0 then (ret, calls) else (0, calls @ [Conf_Cert_Cb])))"

section \<open>Calls forwarded to mbedtls\<close>

text \<open>
  Each of these makes one call; the function called is the first argument. \<^verbatim>\<open>viltrum_tls_bind_bio\<close> gives mbedtls the
  transport as it is, with whatever was read ahead, the two callbacks and no timed receive.
\<close>

record ssl_transport =
  ssl_bio :: viltrum_bio
  ssl_send :: "(int \<Rightarrow> u8 list \<Rightarrow> send_result) \<Rightarrow> (nat \<Rightarrow> u8) \<Rightarrow> viltrum_bio \<Rightarrow> u8 list \<Rightarrow> int"
  ssl_recv :: "(int \<Rightarrow> nat \<Rightarrow> recv_result) \<Rightarrow> (nat \<Rightarrow> u8) \<Rightarrow> viltrum_bio \<Rightarrow> nat \<Rightarrow> (int \<times> u8 list \<times> viltrum_bio) option"

definition viltrum_tls_bind_bio :: "bio_codes \<Rightarrow> viltrum_bio \<Rightarrow> ssl_transport" where
  "viltrum_tls_bind_bio codes b = \<lparr>ssl_bio = b, ssl_send = viltrum_tls_send codes, ssl_recv = viltrum_tls_recv codes\<rparr>"

definition viltrum_tls_check_pair :: "('pub \<Rightarrow> 'key \<Rightarrow> 'drbg \<Rightarrow> int) \<Rightarrow> ('crt \<Rightarrow> 'pub) \<Rightarrow> 'crt \<Rightarrow> 'key \<Rightarrow> 'drbg \<Rightarrow> int" where
  "viltrum_tls_check_pair pk_check_pair crt_pk crt key drbg = pk_check_pair (crt_pk crt) key drbg"

definition viltrum_tls_load_key ::
  "('key \<Rightarrow> string \<Rightarrow> string option \<Rightarrow> 'drbg \<Rightarrow> int \<times> 'key) \<Rightarrow> 'key \<Rightarrow> string \<Rightarrow> 'drbg \<Rightarrow> int \<times> 'key" where
  "viltrum_tls_load_key pk_parse_keyfile key path drbg = pk_parse_keyfile key path None drbg"

definition viltrum_tls_seed :: "('drbg \<Rightarrow> 'entropy \<Rightarrow> u8 list \<Rightarrow> int \<times> 'drbg) \<Rightarrow> 'drbg \<Rightarrow> 'entropy \<Rightarrow> int \<times> 'drbg" where
  "viltrum_tls_seed ctr_drbg_seed drbg entropy = ctr_drbg_seed drbg entropy (chars ''viltrum'')"

section \<open>The traffic secrets\<close>

record viltrum_tls_secrets =
  sec_client :: "u8 list"
  sec_server :: "u8 list"
  sec_len :: nat
  sec_have :: u32

datatype key_export = Client_Application | Server_Application | Other_Secret

definition viltrum_tls_wipe :: "u8 list \<Rightarrow> u8 list" where
  "viltrum_tls_wipe p = fold (\<lambda>i b. b[i := 0]) [0..<length p] p"

definition viltrum_tls_export :: "key_export \<Rightarrow> u8 list \<Rightarrow> viltrum_tls_secrets \<Rightarrow> viltrum_tls_secrets option" where
  "viltrum_tls_export type secret s =
     (if 48 < length secret then Some s
      else if type = Client_Application then do {
        c \<leftarrow> memcpy (sec_client s) (Some secret) (length secret);
        Some (s\<lparr>sec_client := c, sec_len := length secret, sec_have := sec_have s OR 1\<rparr>) }
      else if type = Server_Application then do {
        c \<leftarrow> memcpy (sec_server s) (Some secret) (length secret);
        Some (s\<lparr>sec_server := c, sec_len := length secret, sec_have := sec_have s OR 2\<rparr>) }
      else Some s)"

definition viltrum_tls_set_export :: "viltrum_tls_secrets \<Rightarrow> viltrum_tls_secrets" where
  "viltrum_tls_set_export s =
     \<lparr>sec_client = viltrum_tls_wipe (sec_client s), sec_server = viltrum_tls_wipe (sec_server s), sec_len = 0, sec_have = 0\<rparr>"

definition viltrum_tls_is13 :: "tls_version \<Rightarrow> bool" where
  "viltrum_tls_is13 version \<longleftrightarrow> version = TLS1_3"

text \<open>The handshake states of mbedtls, in order: 0 is HelloRequest, 1 ClientHello.\<close>

definition viltrum_tls_fresh :: "int \<Rightarrow> bool" where
  "viltrum_tls_fresh state \<longleftrightarrow> state \<le> 1"

section \<open>HKDF-Expand-Label\<close>



section \<open>Lemmas\<close>



lemma tls_wipe_eq: "viltrum_tls_wipe p = replicate (length p) 0"
  unfolding viltrum_tls_wipe_def viltrum_hs13_wipe_def [symmetric] by (rule wipe_eq)

definition exports :: "(key_export \<times> u8 list) list \<Rightarrow> viltrum_tls_secrets \<Rightarrow> viltrum_tls_secrets option" where
  "exports evs s = fold (\<lambda>(t, x) s. do { s \<leftarrow> s; viltrum_tls_export t x s }) evs (Some s)"

text \<open>The secrets of one side, and of either, that were short enough to keep.\<close>

definition kept :: "key_export \<Rightarrow> (key_export \<times> u8 list) list \<Rightarrow> u8 list list" where
  "kept t evs = [x. (t', x) \<leftarrow> evs, t' = t \<and> length x \<le> 48]"

definition latest :: "(key_export \<times> u8 list) list \<Rightarrow> u8 list list" where
  "latest evs = [x. (t, x) \<leftarrow> evs, t \<noteq> Other_Secret \<and> length x \<le> 48]"

text \<open>What one array holds after secrets \<open>xs\<close>: it starts with the last of them, or is still wiped.\<close>

definition side_holds :: "u8 list list \<Rightarrow> u8 list \<Rightarrow> bool" where
  "side_holds xs arr \<longleftrightarrow> length arr = 48 \<and> (if xs = [] then arr = replicate 48 0 else take (length (last xs)) arr = last xs)"

definition secrets_hold :: "(key_export \<times> u8 list) list \<Rightarrow> viltrum_tls_secrets \<Rightarrow> bool" where
  "secrets_hold evs s \<longleftrightarrow>
     sec_have s = (if kept Client_Application evs = [] then 0 else 1) OR (if kept Server_Application evs = [] then 0 else 2) \<and>
     sec_len s = (if latest evs = [] then 0 else length (last (latest evs))) \<and>
     side_holds (kept Client_Application evs) (sec_client s) \<and> side_holds (kept Server_Application evs) (sec_server s)"

lemma kept_append: "kept t (evs @ [(t', x)]) = kept t evs @ (if t' = t \<and> length x \<le> 48 then [x] else [])"
  by (simp add: kept_def)

lemma latest_append: "latest (evs @ [(t, x)]) = latest evs @ (if t \<noteq> Other_Secret \<and> length x \<le> 48 then [x] else [])"
  by (simp add: latest_def)

lemma side_store:
  assumes "side_holds xs arr" "length x \<le> 48"
  shows "memcpy arr (Some x) (length x) = Some (x @ drop (length x) arr)" "side_holds (xs @ [x]) (x @ drop (length x) arr)"
  using assms by (auto simp: side_holds_def intro!: memcpy_all)

lemma export_step:
  assumes "secrets_hold evs s"
  shows "\<exists>s'. viltrum_tls_export t x s = Some s' \<and> secrets_hold (evs @ [(t, x)]) s'"
proof (cases "length x \<le> 48 \<and> t \<noteq> Other_Secret")
  case True
  have sides: "side_holds (kept Client_Application evs) (sec_client s)" "side_holds (kept Server_Application evs) (sec_server s)"
    using assms by (simp_all add: secrets_hold_def)
  note client = side_store [OF sides(1), of x] and server = side_store [OF sides(2), of x]
  show ?thesis
  proof (cases t)
    case Client_Application
    then show ?thesis
      using True assms client by (simp add: viltrum_tls_export_def secrets_hold_def kept_append latest_append)
  next
    case Server_Application
    then show ?thesis
      using True assms server by (simp add: viltrum_tls_export_def secrets_hold_def kept_append latest_append)
  qed (use True in simp)
next
  case False
  then have "viltrum_tls_export t x s = Some s"
    by (cases t) (auto simp: viltrum_tls_export_def)
  moreover have "kept Client_Application (evs @ [(t, x)]) = kept Client_Application evs"
    "kept Server_Application (evs @ [(t, x)]) = kept Server_Application evs" "latest (evs @ [(t, x)]) = latest evs"
    using False by (auto simp: kept_append latest_append)
  ultimately show ?thesis
    using assms by (simp add: secrets_hold_def)
qed

lemma exports_hold:
  assumes "secrets_hold [] s"
  shows "\<exists>s'. exports evs s = Some s' \<and> secrets_hold evs s'"
proof (induction evs rule: rev_induct)
  case (snoc e evs)
  then show ?case
    using export_step [of evs _ "fst e" "snd e"] by (cases e) (fastforce simp: exports_def)
qed (use assms in \<open>simp add: exports_def\<close>)

lemma set_export_hold:
  "length (sec_client s) = 48 \<Longrightarrow> length (sec_server s) = 48 \<Longrightarrow> secrets_hold [] (viltrum_tls_set_export s)"
  by (simp add: secrets_hold_def side_holds_def latest_def viltrum_tls_set_export_def tls_wipe_eq kept_def)

section \<open>Properties\<close>

text \<open>
  C37. The export callback, over any sequence of secrets mbedtls reports once it is set up: no secret is stored outside
  its array whatever its length; \<^verbatim>\<open>have\<close> has the bit of exactly those sides of which an application secret was kept,
  \<^verbatim>\<open>len\<close> is the length of the last one kept, and each array starts with the last secret of its side, or is all zeros
  while there is none, whatever the structure held before.
\<close>

theorem tls_export_collects:
  assumes "length (sec_client s) = 48" "length (sec_server s) = 48"
  shows "\<exists>s'. exports evs (viltrum_tls_set_export s) = Some s' \<and>
    sec_have s' = (if kept Client_Application evs = [] then 0 else 1) OR (if kept Server_Application evs = [] then 0 else 2) \<and>
    sec_len s' = (if latest evs = [] then 0 else length (last (latest evs))) \<and>
    length (sec_client s') = 48 \<and> length (sec_server s') = 48 \<and>
    (if kept Client_Application evs = [] then sec_client s' = replicate 48 0
     else take (length (last (kept Client_Application evs))) (sec_client s') = last (kept Client_Application evs)) \<and>
    (if kept Server_Application evs = [] then sec_server s' = replicate 48 0
     else take (length (last (kept Server_Application evs))) (sec_server s') = last (kept Server_Application evs))"
  using exports_hold [OF set_export_hold [OF assms], of evs] unfolding secrets_hold_def side_holds_def by blast


theorem tls_export_collects_witness:
  "\<exists>s'. exports [(Server_Application, [7, 8]), (Other_Secret, [1]), (Client_Application, [5, 6])]
      (viltrum_tls_set_export \<lparr>sec_client = replicate 48 1, sec_server = replicate 48 1, sec_len = 9, sec_have = 3\<rparr>) = Some s' \<and>
    sec_have s' = 3 \<and> sec_len s' = 2 \<and> take 2 (sec_client s') = [5, 6] \<and> take 2 (sec_server s') = [7, 8]"
proof -
  let ?evs = "[(Server_Application, [7, 8]), (Other_Secret, [1]), (Client_Application, [5, 6])]"
  have "kept Client_Application ?evs = [[5, 6]]" "kept Server_Application ?evs = [[7, 8]]" "latest ?evs = [[7, 8], [5, 6]]"
    by (simp_all add: kept_def latest_def)
  then show ?thesis
    using tls_export_collects [of "\<lparr>sec_client = replicate 48 1, sec_server = replicate 48 1, sec_len = 9, sec_have = 3\<rparr>" ?evs]
    by (auto simp: numeral_2_eq_2)
qed

end
