(* ===== verification/EpollWait.thy ===== *)
theory EpollWait
  imports Bio "HOL-Library.Signed_Division"
begin

text \<open>
  \<^verbatim>\<open>src/engine/wait_linux.h\<close>: waiting for events with a timeout in nanoseconds, by \<^verbatim>\<open>epoll_pwait2\<close> where the
  kernel has it and by \<^verbatim>\<open>epoll_wait\<close>, in whole milliseconds, where it has not. The two system calls are arguments.
  The division of C rounds towards zero, as \<open>sdiv\<close> does; the conversion to \<^verbatim>\<open>int\<close> is \<open>c_int\<close>.
\<close>

section \<open>Operations\<close>

record timespec =
  tv_sec :: int
  tv_nsec :: int

text \<open>The errno values the code tells apart.\<close>

datatype wait_errno = ENOSYS | EPERM | Wait_Other int

datatype wait_result = Wait_Failed wait_errno | Events nat

definition to_timespec :: "int \<Rightarrow> timespec" where
  "to_timespec timeout_ns = \<lparr>tv_sec = timeout_ns sdiv 1000000000, tv_nsec = timeout_ns smod 1000000000\<rparr>"

definition to_ms :: "int \<Rightarrow> int" where
  "to_ms timeout_ns = c_int ((timeout_ns + 999999) sdiv 1000000)"

definition wait_ret :: "wait_result \<Rightarrow> int" where
  "wait_ret r = (case r of Wait_Failed _ \<Rightarrow> - 1 | Events n \<Rightarrow> c_int (int n))"

text \<open>The flag \<^verbatim>\<open>viltrum_pwait2_ok\<close> as it was read and as it was left, and the result.\<close>

definition viltrum_epoll_wait ::
  "(timespec \<Rightarrow> wait_result) \<Rightarrow> (int \<Rightarrow> wait_result) \<Rightarrow> int \<Rightarrow> bool \<Rightarrow> int \<times> bool" where
  "viltrum_epoll_wait pwait2 epoll_wait timeout_ns pwait2_ok =
     (if pwait2_ok then
        (case pwait2 (to_timespec timeout_ns) of
           Events n \<Rightarrow> (wait_ret (Events n), pwait2_ok)
         | Wait_Failed e \<Rightarrow>
             if e \<noteq> ENOSYS \<and> e \<noteq> EPERM then (wait_ret (Wait_Failed e), pwait2_ok)
             else (wait_ret (epoll_wait (to_ms timeout_ns)), False))
      else (wait_ret (epoll_wait (to_ms timeout_ns)), pwait2_ok))"

section \<open>Timeouts\<close>

lemma timespec_exact:
  assumes "0 \<le> t"
  shows "tv_sec (to_timespec t) * 1000000000 + tv_nsec (to_timespec t) = t" "0 \<le> tv_sec (to_timespec t)"
    "0 \<le> tv_nsec (to_timespec t)" "tv_nsec (to_timespec t) < 1000000000"
proof -
  have "t sdiv 1000000000 = t div 1000000000" "t smod 1000000000 = t mod 1000000000"
    using assms by (simp_all add: signed_divide_int_def signed_modulo_int_def sgn_if minus_div_mult_eq_mod)
  then show "tv_sec (to_timespec t) * 1000000000 + tv_nsec (to_timespec t) = t" "0 \<le> tv_sec (to_timespec t)"
    "0 \<le> tv_nsec (to_timespec t)" "tv_nsec (to_timespec t) < 1000000000"
    using assms by (simp_all add: to_timespec_def)
qed

lemma ms_rounds_up:
  assumes "0 \<le> t" "t \<le> (2 ^ 31 - 1) * 1000000"
  shows "t \<le> to_ms t * 1000000" "to_ms t * 1000000 < t + 1000000"
proof -
  have "(t + 999999) sdiv 1000000 = (t + 999999) div 1000000"
    using assms(1) by (simp add: signed_divide_int_def)
  moreover have "0 \<le> (t + 999999) div 1000000" "(t + 999999) div 1000000 < 2 ^ 31"
    using assms by simp_all
  ultimately have "to_ms t = (t + 999999) div 1000000"
    by (simp add: to_ms_def c_int_small)
  then show "t \<le> to_ms t * 1000000" "to_ms t * 1000000 < t + 1000000"
    by simp_all
qed

section \<open>Properties\<close>

text \<open>
  C39. A wait of up to 24 days asks the kernel for the timeout given, exactly where it takes nanoseconds and otherwise
  rounded up by less than a millisecond, so that it never returns early; a failure other than a missing or forbidden
  system call is returned as it is; and the flag is only ever cleared, after which \<^verbatim>\<open>epoll_pwait2\<close> is not called again.
\<close>

theorem epoll_wait_timeout:
  assumes "0 \<le> t" "t \<le> (2 ^ 31 - 1) * 1000000" "viltrum_epoll_wait pwait2 epoll_wait t ok = (ret, ok')"
  shows "\<exists>ts ms. tv_sec ts * 1000000000 + tv_nsec ts = t \<and> 0 \<le> tv_nsec ts \<and> tv_nsec ts < 1000000000 \<and>
    t \<le> ms * 1000000 \<and> ms * 1000000 < t + 1000000 \<and>
    ok' = (ok \<and> pwait2 ts \<noteq> Wait_Failed ENOSYS \<and> pwait2 ts \<noteq> Wait_Failed EPERM) \<and>
    ret = wait_ret (if ok' then pwait2 ts else epoll_wait ms)"
  using timespec_exact [OF assms(1)] ms_rounds_up [OF assms(1,2)] assms(3)
  by (intro exI [of _ "to_timespec t"] exI [of _ "to_ms t"])
    (auto simp: viltrum_epoll_wait_def split: if_splits wait_result.splits)

theorem epoll_wait_timeout_witness:
  "\<exists>(ts::timespec) ms. tv_sec ts * 1000000000 + tv_nsec ts = 200000 \<and> 200000 \<le> ms * 1000000 \<and> ms * 1000000 < (1200000::int) \<and>
    viltrum_epoll_wait (\<lambda>_. Wait_Failed ENOSYS) (\<lambda>_. Events 2) 200000 True = (2, False)"
proof -
  have "viltrum_epoll_wait (\<lambda>_. Wait_Failed ENOSYS) (\<lambda>_. Events 2) 200000 True = (2, False)"
    by (simp add: viltrum_epoll_wait_def wait_ret_def c_int_small)
  note run = this
  obtain ts :: timespec and ms where "tv_sec ts * 1000000000 + tv_nsec ts = 200000" "200000 \<le> ms * 1000000" "ms * 1000000 < (200000 + 1000000 :: int)"
    using epoll_wait_timeout [OF _ _ run] by auto
  with run show ?thesis
    by (intro exI [of _ ts] exI [of _ ms]) simp
qed

end
