(* ===== verification/EpollWorkers.thy ===== *)
theory EpollWorkers
  imports EpollWait
begin

text \<open>
  The workers of the server share \<^verbatim>\<open>viltrum_pwait2_ok\<close> of \<^verbatim>\<open>src/engine/wait_linux.h\<close> without a lock. Here each worker is
  at one of the points of \<^verbatim>\<open>viltrum_epoll_wait\<close> where it reads the flag, waits in the kernel or writes the flag, and the
  workers take their steps in any order. A call with no other worker in between is the function of theory \<open>EpollWait\<close>.
\<close>

section \<open>Steps\<close>

text \<open>Not in the function; in \<^verbatim>\<open>epoll_pwait2\<close>; about to clear the flag; in \<^verbatim>\<open>epoll_wait\<close>.\<close>

datatype worker_pc = Outside | Calling int | Clearing int | Falling int

text \<open>The flag, where each worker is, how often a worker's \<^verbatim>\<open>epoll_pwait2\<close> was refused, and what the calls returned.\<close>

record epoll_workers =
  ep_flag :: bool
  ep_pc :: "nat \<Rightarrow> worker_pc"
  ep_refused :: "nat \<Rightarrow> nat"
  ep_log :: "(nat \<times> int) list"

definition wait_refused :: "wait_result \<Rightarrow> bool" where
  "wait_refused r = (case r of Events _ \<Rightarrow> False | Wait_Failed e \<Rightarrow> e = ENOSYS \<or> e = EPERM)"

definition workers_start :: epoll_workers where
  "workers_start = \<lparr>ep_flag = True, ep_pc = (\<lambda>_. Outside), ep_refused = (\<lambda>_. 0), ep_log = []\<rparr>"

definition move :: "nat \<Rightarrow> worker_pc \<Rightarrow> epoll_workers \<Rightarrow> epoll_workers" where
  "move w pc s = s\<lparr>ep_pc := (ep_pc s)(w := pc)\<rparr>"

text \<open>\<open>pw\<close> and \<open>ew\<close> are the results the kernel may give to the two system calls.\<close>

inductive worker_step ::
  "(timespec \<Rightarrow> wait_result \<Rightarrow> bool) \<Rightarrow> (int \<Rightarrow> wait_result \<Rightarrow> bool) \<Rightarrow> epoll_workers \<Rightarrow> epoll_workers \<Rightarrow> bool"
  for pw ew where
  read_set: "ep_pc s w = Outside \<Longrightarrow> ep_flag s \<Longrightarrow> worker_step pw ew s (move w (Calling t) s)"
| read_clear: "ep_pc s w = Outside \<Longrightarrow> \<not> ep_flag s \<Longrightarrow> worker_step pw ew s (move w (Falling t) s)"
| answered: "ep_pc s w = Calling t \<Longrightarrow> pw (to_timespec t) r \<Longrightarrow> \<not> wait_refused r \<Longrightarrow>
    worker_step pw ew s (move w Outside (s\<lparr>ep_log := ep_log s @ [(w, wait_ret r)]\<rparr>))"
| refused: "ep_pc s w = Calling t \<Longrightarrow> pw (to_timespec t) r \<Longrightarrow> wait_refused r \<Longrightarrow>
    worker_step pw ew s (move w (Clearing t) (s\<lparr>ep_refused := (ep_refused s)(w := ep_refused s w + 1)\<rparr>))"
| clear: "ep_pc s w = Clearing t \<Longrightarrow> worker_step pw ew s (move w (Falling t) (s\<lparr>ep_flag := False\<rparr>))"
| waited: "ep_pc s w = Falling t \<Longrightarrow> ew (to_ms t) r \<Longrightarrow>
    worker_step pw ew s (move w Outside (s\<lparr>ep_log := ep_log s @ [(w, wait_ret r)]\<rparr>))"

inductive_cases worker_stepE: "worker_step pw ew s s'"

section \<open>Invariant\<close>

text \<open>A worker that was refused either has cleared the flag or is about to.\<close>

definition workers_inv :: "epoll_workers \<Rightarrow> bool" where
  "workers_inv s \<longleftrightarrow>
     (\<forall>w. (case ep_pc s w of
         Clearing _ \<Rightarrow> ep_refused s w = 1
       | Calling _ \<Rightarrow> ep_refused s w = 0
       | Falling _ \<Rightarrow> ep_refused s w \<le> 1 \<and> \<not> ep_flag s
       | Outside \<Rightarrow> ep_refused s w = 0 \<or> ep_refused s w = 1 \<and> \<not> ep_flag s))"

lemma workers_inv_start: "workers_inv workers_start"
  by (simp add: workers_inv_def workers_start_def)

lemma workers_inv_at:
  assumes "workers_inv s"
  shows "ep_pc s w = Clearing t \<Longrightarrow> ep_refused s w = 1" "ep_pc s w = Calling t \<Longrightarrow> ep_refused s w = 0"
    "ep_pc s w = Falling t \<Longrightarrow> ep_refused s w \<le> 1 \<and> \<not> ep_flag s"
    "ep_pc s w = Outside \<Longrightarrow> ep_refused s w = 0 \<or> ep_refused s w = 1 \<and> \<not> ep_flag s"
  using assms by (auto simp: workers_inv_def dest!: spec [of _ w])

lemma workers_inv_step:
  assumes "worker_step pw ew s s'" "workers_inv s"
  shows "workers_inv s'"
  using assms(1)
proof cases
  case (clear w t)
  then show ?thesis
    using assms(2) workers_inv_at(1) [OF assms(2), of w t]
    by (auto simp: workers_inv_def move_def split: worker_pc.splits)
qed (use assms(2) in \<open>auto simp: workers_inv_def move_def split: worker_pc.splits\<close>)

lemma workers_inv_reach: "(worker_step pw ew)\<^sup>*\<^sup>* workers_start s \<Longrightarrow> workers_inv s"
  by (induction rule: rtranclp_induct) (auto intro: workers_inv_start workers_inv_step)

lemma flag_falls: "(worker_step pw ew)\<^sup>*\<^sup>* s s' \<Longrightarrow> ep_flag s' \<Longrightarrow> ep_flag s"
  by (induction rule: rtranclp_induct) (auto elim!: worker_stepE simp: move_def)

section \<open>One call without interference\<close>

lemma move_back: "ep_pc s w = Outside \<Longrightarrow> (ep_pc s)(w := Outside) = ep_pc s"
  by (simp add: fun_upd_idem)

text \<open>The function of \<open>EpollWait\<close> is a run of these steps by one worker.\<close>

lemma epoll_wait_runs:
  assumes call: "viltrum_epoll_wait pwait2 epoll_wait t (ep_flag s) = (ret, ok)" and w: "ep_pc s w = Outside"
  shows "\<exists>s'. (worker_step (\<lambda>ts r. r = pwait2 ts) (\<lambda>ms r. r = epoll_wait ms))\<^sup>*\<^sup>* s s' \<and>
    ep_flag s' = ok \<and> ep_pc s' = ep_pc s \<and> ep_log s' = ep_log s @ [(w, ret)]"
proof -
  let ?step = "worker_step (\<lambda>ts r. r = pwait2 ts) (\<lambda>ms r. r = epoll_wait ms)"
  have fall: "?step u (move w Outside (u\<lparr>ep_log := ep_log u @ [(w, wait_ret (epoll_wait (to_ms t)))]\<rparr>))"
    if "ep_pc u w = Falling t" for u
    using worker_step.waited [of u w t "\<lambda>ms r. r = epoll_wait ms" "epoll_wait (to_ms t)" "\<lambda>ts r. r = pwait2 ts"] that by simp
  show ?thesis
  proof (cases "ep_flag s")
    case False
    then have "?step s (move w (Falling t) s)"
      using w by (rule worker_step.read_clear [rotated])
    moreover note fall [of "move w (Falling t) s"]
    moreover have "ret = wait_ret (epoll_wait (to_ms t))" "ok = False"
      using call False by (simp_all add: viltrum_epoll_wait_def)
    ultimately show ?thesis
      using False move_back [OF w]
      by (intro exI [of _ "move w Outside ((move w (Falling t) s)\<lparr>ep_log := ep_log s @ [(w, ret)]\<rparr>)"])
        (auto simp: move_def intro: converse_rtranclp_into_rtranclp)
  next
    case True
    let ?r = "pwait2 (to_timespec t)" and ?c = "move w (Calling t) s"
    have enter: "?step s ?c"
      using w True by (rule worker_step.read_set)
    have pc: "ep_pc ?c w = Calling t"
      by (simp add: move_def)
    show ?thesis
    proof (cases "wait_refused ?r")
      case False
      then have "ret = wait_ret ?r" "ok = True"
        using call True by (auto simp: viltrum_epoll_wait_def wait_refused_def split: wait_result.splits if_splits)
      then show ?thesis
        using enter worker_step.answered [OF pc, of "\<lambda>ts r. r = pwait2 ts", OF refl False] True move_back [OF w]
        by (intro exI [of _ "move w Outside (?c\<lparr>ep_log := ep_log ?c @ [(w, wait_ret ?r)]\<rparr>)"])
          (auto simp: move_def intro: converse_rtranclp_into_rtranclp)
    next
      case ref: True
      let ?d = "move w (Clearing t) (?c\<lparr>ep_refused := (ep_refused ?c)(w := ep_refused ?c w + 1)\<rparr>)"
      let ?e = "move w (Falling t) (?d\<lparr>ep_flag := False\<rparr>)"
      have "?step ?c ?d"
        using worker_step.refused [OF pc, of "\<lambda>ts r. r = pwait2 ts", OF refl ref] .
      moreover have "?step ?d ?e"
        by (rule worker_step.clear) (simp add: move_def)
      moreover have "ep_pc ?e w = Falling t"
        by (simp add: move_def)
      moreover have "ret = wait_ret (epoll_wait (to_ms t))" "ok = False"
        using call True ref by (auto simp: viltrum_epoll_wait_def wait_refused_def split: wait_result.splits if_splits)
      ultimately show ?thesis
        using enter fall [of ?e] move_back [OF w]
        by (intro exI [of _ "move w Outside (?e\<lparr>ep_log := ep_log ?e @ [(w, wait_ret (epoll_wait (to_ms t)))]\<rparr>)"])
          (auto simp: move_def intro: converse_rtranclp_into_rtranclp)
    qed
  qed
qed

section \<open>Property\<close>

text \<open>
  C18. The flag needs no lock: however the workers' steps interleave and whatever the kernel answers, a worker has at most
  one \<^verbatim>\<open>epoll_pwait2\<close> refused in its life, the flag is clear as soon as a worker that was refused goes on, and a clear
  flag stays clear.
\<close>

theorem epoll_refused_once:
  assumes "(worker_step pw ew)\<^sup>*\<^sup>* workers_start s" "(worker_step pw ew)\<^sup>*\<^sup>* s s'"
  shows "ep_refused s w \<le> 1 \<and> (ep_flag s \<and> ep_refused s w = 1 \<longrightarrow> (\<exists>t. ep_pc s w = Clearing t)) \<and> (ep_flag s' \<longrightarrow> ep_flag s)"
proof -
  have "workers_inv s"
    using assms(1) by (rule workers_inv_reach)
  from workers_inv_at [OF this, of w] show ?thesis
    using flag_falls [OF assms(2)] by (cases "ep_pc s w") auto
qed

theorem epoll_refused_once_witness:
  "\<exists>s. (worker_step (\<lambda>_ r. r = Wait_Failed ENOSYS) (\<lambda>_ r. r = Events 3))\<^sup>*\<^sup>* workers_start s \<and> ep_log s = [(5, 3)] \<and>
    \<not> ep_flag s \<and> ep_refused s 5 \<le> 1"
proof -
  have "viltrum_epoll_wait (\<lambda>_. Wait_Failed ENOSYS) (\<lambda>_. Events 3) 7 (ep_flag workers_start) = (3, False)"
    by (simp add: viltrum_epoll_wait_def workers_start_def wait_ret_def c_int_small)
  from epoll_wait_runs [OF this, of 5] obtain s where
    "(worker_step (\<lambda>_ r. r = Wait_Failed ENOSYS) (\<lambda>_ r. r = Events 3))\<^sup>*\<^sup>* workers_start s" "ep_log s = [(5, 3)]" "\<not> ep_flag s"
    by (auto simp: workers_start_def)
  then show ?thesis
    using epoll_refused_once [OF _ rtranclp.rtrancl_refl, of _ _ s 5] by blast
qed

end
