(* ===== verification/Files.thy ===== *)
theory Files
  imports Bio
begin

unbundle bit_operations_syntax

text \<open>
  \<^verbatim>\<open>src/http1/file.h\<close> for its three platforms, and the file identity of \<^verbatim>\<open>src/engine/tls_linux.h\<close>: describing a
  file, opening it, reading at an offset and closing it. The system calls are fields of a record; the descriptors the process has
  open are a set that \<^verbatim>\<open>open\<close> and \<^verbatim>\<open>close\<close> change, and the position of each is a state that only Windows changes.
\<close>

section \<open>Types\<close>

text \<open>The conditional sections: \<^verbatim>\<open>_WIN32\<close>, \<^verbatim>\<open>__APPLE__\<close>, and the rest.\<close>

datatype platform = Windows | Apple | Posix

text \<open>
  \<^verbatim>\<open>struct stat\<close>, with the fields the code reads; \<^verbatim>\<open>st_mtimespec\<close> of macOS and \<^verbatim>\<open>st_mtime\<close> of Windows are the same
  fields under other names. The signed 64-bit fields are integers.
\<close>

record stat =
  st_dev :: u64
  st_ino :: u64
  st_mode :: u32
  st_size :: int
  st_mtim_sec :: int
  st_mtim_nsec :: int
  st_ctim_sec :: int
  st_ctim_nsec :: int

record viltrum_file_info =
  i_size :: int
  i_mtime :: int
  i_mtime_ns :: int
  i_ino :: int
  i_ctime :: int
  i_ctime_ns :: int
  i_kind :: int

record viltrum_file_id =
  id_dev :: u64
  id_ino :: u64
  id_size :: int
  id_mtime_sec :: int
  id_mtime_nsec :: int

text \<open>
  What the kernel answers: \<open>os_open\<close> the descriptor a path opens as, given the ones in use, or a negative number;
  \<open>os_fstat\<close>, \<open>os_stat\<close>, \<open>os_pread\<close> and \<open>os_read\<close> (from a position) nothing when they fail; \<open>os_lseek\<close> the new
  position or a negative number.
\<close>

record os =
  os_open :: "string \<Rightarrow> int set \<Rightarrow> int"
  os_fstat :: "int \<Rightarrow> stat option"
  os_stat :: "string \<Rightarrow> stat option"
  os_pread :: "int \<Rightarrow> nat \<Rightarrow> int \<Rightarrow> u8 list option"
  os_lseek :: "int \<Rightarrow> int \<Rightarrow> int"
  os_read :: "int \<Rightarrow> int \<Rightarrow> nat \<Rightarrow> u8 list option"

section \<open>Operations\<close>

definition S_IFMT :: u32 where "S_IFMT = 0xf000"
definition S_IFREG :: u32 where "S_IFREG = 0x8000"
definition S_IFDIR :: u32 where "S_IFDIR = 0x4000"

definition viltrum_file_close :: "int \<Rightarrow> int set \<Rightarrow> int set" where
  "viltrum_file_close fd fds = fds - {fd}"

definition viltrum_file_describe :: "platform \<Rightarrow> stat \<Rightarrow> viltrum_file_info \<Rightarrow> viltrum_file_info" where
  "viltrum_file_describe pl st info =
     (let info = (case pl of
            Windows \<Rightarrow> info\<lparr>i_mtime := st_mtim_sec st, i_mtime_ns := 0, i_ino := - 1, i_ctime := 0, i_ctime_ns := 0\<rparr>
          | _ \<Rightarrow> info\<lparr>i_mtime := st_mtim_sec st, i_mtime_ns := st_mtim_nsec st, i_ctime := st_ctim_sec st,
              i_ctime_ns := st_ctim_nsec st, i_ino := sint (st_ino st)\<rparr>);
          info = (if i_mtime info < 0 then info\<lparr>i_mtime := 0, i_mtime_ns := 0\<rparr> else info)
      in info\<lparr>i_size := st_size st,
           i_kind := (if st_mode st AND S_IFMT = S_IFREG then 1 else if st_mode st AND S_IFMT = S_IFDIR then 2 else 0)\<rparr>)"

definition viltrum_file_stat :: "platform \<Rightarrow> os \<Rightarrow> string \<Rightarrow> viltrum_file_info \<Rightarrow> int \<times> viltrum_file_info" where
  "viltrum_file_stat pl k path info =
     (let info = info\<lparr>i_kind := 0\<rparr>
      in case os_stat k path of None \<Rightarrow> (- 1, info) | Some st \<Rightarrow> (0, viltrum_file_describe pl st info))"

text \<open>What a failed \<^verbatim>\<open>_open\<close> still reports on Windows.\<close>

definition open_failed :: "platform \<Rightarrow> os \<Rightarrow> string \<Rightarrow> viltrum_file_info \<Rightarrow> viltrum_file_info" where
  "open_failed pl k path info =
     (case (pl, os_stat k path) of
        (Windows, Some ds) \<Rightarrow> if st_mode ds AND S_IFMT = S_IFDIR then info\<lparr>i_kind := 2\<rparr> else info
      | _ \<Rightarrow> info)"

definition viltrum_file_open ::
  "platform \<Rightarrow> os \<Rightarrow> string \<Rightarrow> viltrum_file_info \<Rightarrow> int set \<Rightarrow> int \<times> viltrum_file_info \<times> int set" where
  "viltrum_file_open pl k path info fds =
     (let info = info\<lparr>i_kind := 0\<rparr>; fd = os_open k path fds
      in if fd < 0 then (- 1, open_failed pl k path info, fds)
         else
           (let fds = insert fd fds
            in case os_fstat k fd of
                 None \<Rightarrow> (- 1, info, fds - {fd})
               | Some st \<Rightarrow>
                   (let info = viltrum_file_describe pl st info
                    in if i_kind info = 2 then (- 1, info, viltrum_file_close fd fds) else (fd, info, fds))))"

text \<open>The result, the bytes stored at \<^verbatim>\<open>buf\<close> and the positions of the descriptors.\<close>

definition viltrum_file_pread ::
  "platform \<Rightarrow> os \<Rightarrow> int \<Rightarrow> nat \<Rightarrow> int \<Rightarrow> (int \<Rightarrow> int) \<Rightarrow> int \<times> u8 list \<times> (int \<Rightarrow> int)" where
  "viltrum_file_pread pl k fd n off pos =
     (if pl = Windows then
        (let at = os_lseek k fd off
         in if at < 0 then (- 1, [], pos)
            else
              (case os_read k fd at (n mod 2 ^ 32) of
                 None \<Rightarrow> (- 1, [], pos(fd := at))
               | Some bs \<Rightarrow> (int (length bs), bs, pos(fd := at + int (length bs)))))
      else
        (case os_pread k fd n off of None \<Rightarrow> (- 1, [], pos) | Some bs \<Rightarrow> (int (length bs), bs, pos)))"

definition viltrum_tls_file_id :: "os \<Rightarrow> string \<Rightarrow> viltrum_file_id option" where
  "viltrum_tls_file_id k path =
     (case os_stat k path of
        None \<Rightarrow> None
      | Some st \<Rightarrow> Some \<lparr>id_dev = st_dev st, id_ino = st_ino st, id_size = st_size st, id_mtime_sec = st_mtim_sec st,
          id_mtime_nsec = st_mtim_nsec st\<rparr>)"

section \<open>Reading\<close>

text \<open>What the kernel promises of a file with these bytes.\<close>

definition os_file :: "os \<Rightarrow> int \<Rightarrow> u8 list \<Rightarrow> bool" where
  "os_file k fd content \<longleftrightarrow> (\<forall>off n. 0 \<le> off \<longrightarrow> os_lseek k fd off = off \<and>
     os_read k fd off n = Some (take n (drop (nat off) content)) \<and> os_pread k fd n off = Some (take n (drop (nat off) content)))"

text \<open>The seek and the read of Windows give what one \<^verbatim>\<open>pread\<close> gives elsewhere, and a count of 0 means the end.\<close>

lemma file_pread_platforms:
  assumes "os_file k fd content" "0 \<le> off" "n < 2 ^ 32"
  shows "\<exists>pos'. viltrum_file_pread pl k fd n off pos =
      (int (min n (length content - nat off)), take n (drop (nat off) content), pos') \<and> (pl \<noteq> Windows \<longrightarrow> pos' = pos)"
  using assms by (auto simp: viltrum_file_pread_def os_file_def min.commute)

section \<open>Directories\<close>

text \<open>A directory is reported as one, whether it cannot be opened at all (Windows) or is opened and closed again.\<close>

lemma directory_reported:
  assumes "st_mode st AND S_IFMT = S_IFDIR"
    and "if pl = Windows then os_open k path fds < 0 \<and> os_stat k path = Some st
      else 0 \<le> os_open k path fds \<and> os_fstat k (os_open k path fds) = Some st"
  shows "fst (viltrum_file_open pl k path info fds) = - 1 \<and> i_kind (fst (snd (viltrum_file_open pl k path info fds))) = 2"
proof -
  have "S_IFDIR \<noteq> S_IFREG"
    by (simp add: S_IFDIR_def S_IFREG_def)
  then show ?thesis
    using assms
    by (cases pl) (simp_all add: viltrum_file_open_def open_failed_def viltrum_file_describe_def Let_def)
qed

section \<open>Properties\<close>

text \<open>What the code relies on: \<^verbatim>\<open>open\<close> returns a descriptor that is not in use.\<close>

definition os_fresh :: "os \<Rightarrow> bool" where
  "os_fresh k \<longleftrightarrow> (\<forall>path fds. 0 \<le> os_open k path fds \<longrightarrow> os_open k path fds \<notin> fds)"

text \<open>
  C40. Opening a file for a response, by what the kernel says of the path, on every platform. If it cannot be opened or
  described, the result is -1 and the open descriptors are as before; so it is for a directory by the mode that
  \<^verbatim>\<open>fstat\<close> reports, which is opened, reported as kind 2 and closed again. Everything else gives one new descriptor, which
  \<^verbatim>\<open>viltrum_file_close\<close> gives back, with kind 1 for a regular file only, the size, and a date that is not before 1970.
  A failed open reports kind 2 on Windows exactly when the path is a directory, and kind 0 otherwise.
\<close>

theorem file_open_no_leak:
  assumes "os_fresh k" "viltrum_file_open pl k path info fds = (ret, info', fds')"
  shows "if os_open k path fds < 0 then ret = - 1 \<and> fds' = fds \<and>
      i_kind info' = (if pl = Windows \<and> (\<exists>ds. os_stat k path = Some ds \<and> st_mode ds AND S_IFMT = S_IFDIR) then 2 else 0)
    else case os_fstat k (os_open k path fds) of
        None \<Rightarrow> ret = - 1 \<and> fds' = fds \<and> i_kind info' = 0
      | Some st \<Rightarrow>
          if st_mode st AND S_IFMT = S_IFDIR then ret = - 1 \<and> fds' = fds \<and> i_kind info' = 2
          else ret = os_open k path fds \<and> ret \<notin> fds \<and> fds' = insert ret fds \<and> viltrum_file_close ret fds' = fds \<and>
            i_kind info' = (if st_mode st AND S_IFMT = S_IFREG then 1 else 0) \<and> i_size info' = st_size st \<and>
            i_mtime info' = max 0 (st_mtim_sec st)"
proof -
  let ?fd = "os_open k path fds"
  have dir: "S_IFDIR \<noteq> S_IFREG"
    by (simp add: S_IFDIR_def S_IFREG_def)
  have described: "i_kind (viltrum_file_describe pl st i) =
      (if st_mode st AND S_IFMT = S_IFREG then 1 else if st_mode st AND S_IFMT = S_IFDIR then 2 else 0)"
    and size: "i_size (viltrum_file_describe pl st i) = st_size st"
    and date: "i_mtime (viltrum_file_describe pl st i) = max 0 (st_mtim_sec st)" for st i
    subgoal by (simp add: viltrum_file_describe_def Let_def)
    subgoal by (cases pl) (simp_all add: viltrum_file_describe_def Let_def)
    subgoal by (cases pl) (simp_all add: viltrum_file_describe_def Let_def)
    done
  have new: "?fd \<notin> fds" "insert ?fd fds - {?fd} = fds" if "0 \<le> ?fd"
    using assms(1) that by (auto simp: os_fresh_def)
  consider "?fd < 0" | "0 \<le> ?fd" "os_fstat k ?fd = None" | st where "0 \<le> ?fd" "os_fstat k ?fd = Some st"
    by (cases "os_fstat k ?fd"; cases "?fd < 0") auto
  then show ?thesis
  proof cases
    case 1
    then show ?thesis
      using assms(2) by (cases "os_stat k path"; cases pl) (auto simp: viltrum_file_open_def open_failed_def Let_def)
  next
    case 2
    then show ?thesis
      using assms(2) new by (simp add: viltrum_file_open_def Let_def) auto
  next
    case (3 st)
    then show ?thesis
      using assms(2) new dir described [of st] size [of st] date [of st]
      by (cases "st_mode st AND S_IFMT = S_IFDIR") (auto simp: viltrum_file_open_def viltrum_file_close_def Let_def)
  qed
qed

definition demo_os :: os where
  "demo_os = \<lparr>os_open = (\<lambda>path fds. if 3 \<in> fds then - 1 else 3),
     os_fstat = (\<lambda>fd. Some \<lparr>st_dev = 1, st_ino = 2, st_mode = 0x81a4, st_size = 5, st_mtim_sec = - 1, st_mtim_nsec = 7,
       st_ctim_sec = 0, st_ctim_nsec = 0\<rparr>),
     os_stat = (\<lambda>_. None), os_pread = (\<lambda>_ _ _. None), os_lseek = (\<lambda>_ _. - 1), os_read = (\<lambda>_ _ _. None)\<rparr>"

definition demo_info :: viltrum_file_info where
  "demo_info = \<lparr>i_size = 0, i_mtime = 0, i_mtime_ns = 0, i_ino = 0, i_ctime = 0, i_ctime_ns = 0, i_kind = 0\<rparr>"

text \<open>The same kernel with a directory in place of the file.\<close>

definition demo_dir_os :: os where
  "demo_dir_os = demo_os\<lparr>os_fstat := (\<lambda>fd. map_option (\<lambda>st. st\<lparr>st_mode := 0x41ed\<rparr>) (os_fstat demo_os fd))\<rparr>"

lemma demo_os_fresh: "os_fresh demo_os" "os_fresh demo_dir_os"
  by (simp_all add: os_fresh_def demo_os_def demo_dir_os_def)

theorem file_open_no_leak_witness:
  "(\<exists>info'. viltrum_file_open Posix demo_os ''a'' demo_info {0, 1, 2} = (3, info', {3, 0, 1, 2}) \<and> i_kind info' = 1 \<and> i_mtime info' = 0) \<and>
   (\<exists>info'. viltrum_file_open Posix demo_dir_os ''a'' demo_info {0, 1, 2} = (- 1, info', {0, 1, 2}) \<and> i_kind info' = 2) \<and>
   viltrum_file_close 3 {3, 0, 1, 2} = {0, 1, 2}"
proof -
  obtain ret info' fds' where reg: "viltrum_file_open Posix demo_os ''a'' demo_info {0, 1, 2} = (ret, info', fds')"
    by (rule prod_cases3)
  obtain ret' info'' fds'' where dir: "viltrum_file_open Posix demo_dir_os ''a'' demo_info {0, 1, 2} = (ret', info'', fds'')"
    by (rule prod_cases3)
  have "ret = 3 \<and> fds' = insert 3 {0, 1, 2} \<and> viltrum_file_close ret fds' = {0, 1, 2} \<and> i_kind info' = 1 \<and> i_mtime info' = 0"
    using file_open_no_leak [OF demo_os_fresh(1) reg] by (auto simp: demo_os_def S_IFMT_def S_IFREG_def S_IFDIR_def)
  moreover have "ret' = - 1 \<and> fds'' = {0, 1, 2} \<and> i_kind info'' = 2"
    using file_open_no_leak [OF demo_os_fresh(2) dir] by (simp add: demo_dir_os_def demo_os_def S_IFMT_def S_IFREG_def S_IFDIR_def)
  ultimately show ?thesis
    using reg dir by (metis (no_types, lifting))
qed

end
