(* ===== verification/Crc32.thy ===== *)
theory Crc32
  imports Gf128
begin

unbundle bit_operations_syntax

text \<open>
  \<^verbatim>\<open>src/http1/crc32_clmul.h\<close>: CRC-32 by folding 128-bit blocks with carry-less products and a Barrett reduction,
  against the register of the standard, which takes a byte at a time and shifts a bit at a time. The shift is linear
  and is also defined on the vector registers, where a fold is a shift by a whole distance: each folding constant is
  a power of \<open>x\<close> and it is enough to check that power.
\<close>

section \<open>Operations\<close>

definition mm_loadu_si128 :: "u8 list \<Rightarrow> m128i" where
  "mm_loadu_si128 p = mm_of_bytes (take 16 p)"

definition viltrum_k1k2 :: m128i where "viltrum_k1k2 = mm_set_epi64x 0x01c6e41596 0x0154442bd4"
definition viltrum_k3k4 :: m128i where "viltrum_k3k4 = mm_set_epi64x 0x00ccaa009e 0x01751997d0"
definition viltrum_k5k0 :: m128i where "viltrum_k5k0 = mm_set_epi64x 0 0x0163cd6124"
definition viltrum_poly :: m128i where "viltrum_poly = mm_set_epi64x 0x01f7011641 0x01db710641"

text \<open>
  One lane through the products of its halves with the pair \<open>k\<close>, and the next block added. The code adds the three in
  one order in the loops and in another between them.
\<close>

definition crc_fold :: "m128i \<Rightarrow> m128i \<Rightarrow> m128i \<Rightarrow> m128i" where
  "crc_fold k x y = mm_clmulepi64_si128 x k 0x11 XOR mm_clmulepi64_si128 x k 0x00 XOR y"

function crc_fold4 :: "m128i \<Rightarrow> m128i \<Rightarrow> m128i \<Rightarrow> m128i \<Rightarrow> u8 list \<Rightarrow> (m128i \<times> m128i \<times> m128i \<times> m128i) \<times> u8 list" where
  "crc_fold4 x1 x2 x3 x4 p =
     (if 64 \<le> length p then
        crc_fold4 (crc_fold viltrum_k1k2 x1 (mm_loadu_si128 p)) (crc_fold viltrum_k1k2 x2 (mm_loadu_si128 (drop 16 p)))
          (crc_fold viltrum_k1k2 x3 (mm_loadu_si128 (drop 32 p))) (crc_fold viltrum_k1k2 x4 (mm_loadu_si128 (drop 48 p)))
          (drop 64 p)
      else ((x1, x2, x3, x4), p))"
  by pat_completeness auto
termination
  by (relation "measure (\<lambda>(_, _, _, _, p). length p)") auto

function crc_fold1 :: "m128i \<Rightarrow> u8 list \<Rightarrow> m128i" where
  "crc_fold1 x1 p =
     (if 16 \<le> length p then crc_fold1 (crc_fold viltrum_k3k4 x1 (mm_loadu_si128 p)) (drop 16 p) else x1)"
  by pat_completeness auto
termination
  by (relation "measure (\<lambda>(_, p). length p)") auto

declare crc_fold4.simps [simp del] crc_fold1.simps [simp del]

definition crc_mask :: m128i where
  "crc_mask = from_lanes32 (- 1) 0 (- 1) 0"

definition crc_to_64 :: "m128i \<Rightarrow> m128i" where
  "crc_to_64 x1 =
     (let x2 = mm_clmulepi64_si128 x1 viltrum_k3k4 0x10;
          x1 = mm_srli_si128 x1 8 XOR x2;
          x2 = mm_srli_si128 x1 4;
          x1 = mm_clmulepi64_si128 (x1 AND crc_mask) viltrum_k5k0 0x00
      in x1 XOR x2)"

definition crc_barrett :: "m128i \<Rightarrow> m128i" where
  "crc_barrett x1 =
     (let x2 = mm_clmulepi64_si128 (x1 AND crc_mask) viltrum_poly 0x10;
          x2 = mm_clmulepi64_si128 (x2 AND crc_mask) viltrum_poly 0x00
      in x1 XOR x2)"

text \<open>\<open>p\<close> holds the \<^verbatim>\<open>n\<close> bytes; the contract asks for at least 64, without which \<^verbatim>\<open>n -= 64\<close> would wrap.\<close>

definition viltrum_crc32_clmul :: "u32 \<Rightarrow> u8 list \<Rightarrow> u32" where
  "viltrum_crc32_clmul crc p =
     (let x1 = mm_loadu_si128 p XOR ucast crc; x2 = mm_loadu_si128 (drop 16 p);
          x3 = mm_loadu_si128 (drop 32 p); x4 = mm_loadu_si128 (drop 48 p);
          ((x1, x2, x3, x4), p) = crc_fold4 x1 x2 x3 x4 (drop 64 p);
          x1 = crc_fold viltrum_k3k4 x1 x2;
          x1 = crc_fold viltrum_k3k4 x1 x3;
          x1 = crc_fold viltrum_k3k4 x1 x4;
          x1 = crc_fold1 x1 p
      in lane32 (crc_barrett (crc_to_64 x1)) 1)"

section \<open>The register of the standard\<close>

definition crc_bit :: "u32 \<Rightarrow> u32" where
  "crc_bit c = (if bit c 0 then drop_bit 1 c XOR 0xedb88320 else drop_bit 1 c)"

definition crc_byte :: "u8 \<Rightarrow> u32 \<Rightarrow> u32" where
  "crc_byte b c = (crc_bit ^^ 8) (c XOR ucast b)"

definition crc32 :: "u32 \<Rightarrow> u8 list \<Rightarrow> u32" where
  "crc32 c p = fold crc_byte p c"

section \<open>The shift on 128 bits\<close>

definition shr :: "m128i \<Rightarrow> m128i" where
  "shr v = drop_bit 1 (v XOR (if bit v 0 then 0x1db710641 else 0))"

lemma shr_step: "shr v = (if bit v 0 then drop_bit 1 v XOR 0xedb88320 else drop_bit 1 v)"
  by (simp add: shr_def drop_bit_xor)

lemma shr_linear: "xor_linear shr"
  by (auto simp: shr_def xor_linear_def bit_simps drop_bit_xor ac_simps)

lemma shr_pow_linear: "xor_linear (shr ^^ n)"
proof (induction n)
  case (Suc n)
  then show ?case
    using xor_linear_comp [OF shr_linear Suc] by (simp add: comp_def)
qed (simp add: id_def xor_linear_id)

lemmas shr_xor = xor_linearD [OF shr_pow_linear]

text \<open>As long as no bit falls out at the top, shifting left and then right is the identity.\<close>

lemma shr_push_Suc:
  assumes v: "\<And>j. m \<le> j \<Longrightarrow> \<not> bit v j" and m: "Suc n + m \<le> 128"
  shows "shr (push_bit (Suc n) v) = push_bit n v"
proof (rule bit_word_eqI)
  fix j
  have "\<not> bit v (j - n)" if "127 \<le> j"
    using that m by (intro v) linarith
  then show "bit (shr (push_bit (Suc n) v)) j = bit (push_bit n v) j"
    by (cases "j < 127") (auto simp: shr_def bit_simps Suc_diff_le simp del: push_bit_Suc)
qed

lemma shr_push:
  assumes "\<And>j. m \<le> j \<Longrightarrow> \<not> bit v j" and "n + m \<le> 128" and "n \<le> k"
  shows "(shr ^^ k) (push_bit n v) = (shr ^^ (k - n)) v"
  using assms(2,3)
proof (induction n arbitrary: k)
  case (Suc n)
  then obtain l where k: "k = Suc l"
    by (cases k) auto
  then have "(shr ^^ k) (push_bit (Suc n) v) = (shr ^^ l) (push_bit n v)"
    using shr_push_Suc [OF assms(1) Suc.prems(1)] by (simp add: funpow_swap1)
  also have "\<dots> = (shr ^^ (k - Suc n)) v"
    using Suc k by simp
  finally show ?case .
qed simp

lemma shr_push_1: "n < 128 \<Longrightarrow> n \<le> k \<Longrightarrow> (shr ^^ k) (push_bit n 1) = (shr ^^ (k - n)) 1"
  by (rule shr_push [where m = 1]) (auto simp: bit_simps)

lemma shr_push_1_less:
  assumes "n < 128" "k \<le> n"
  shows "(shr ^^ k) (push_bit n 1) = push_bit (n - k) 1"
proof -
  have "(shr ^^ k) (push_bit k (push_bit (n - k) 1)) = (shr ^^ (k - k)) (push_bit (n - k) 1)"
    by (rule shr_push [where m = "Suc (n - k)"]) (use assms in \<open>auto simp: bit_simps simp del: push_bit_of_1\<close>)
  then show ?thesis
    using assms by (simp add: push_bit_push_bit del: push_bit_of_1)
qed

lemma ucast_crc_bit: "ucast (crc_bit c) = shr (ucast c)"
proof -
  have "ucast (drop_bit 1 c) = (drop_bit 1 (ucast c) :: m128i)"
    by (rule bit_word_eqI) (auto simp: bit_simps dest: bit_imp_le_length)
  moreover have "ucast (0xedb88320 :: u32) = (drop_bit 1 0x1db710641 :: m128i)"
    by simp
  ultimately show ?thesis
    by (simp add: crc_bit_def shr_def bit_simps drop_bit_xor unsigned_xor_eq)
qed

lemma ucast_crc_bit_pow: "ucast ((crc_bit ^^ n) c) = (shr ^^ n) (ucast c)"
  by (induction n) (simp_all add: ucast_crc_bit)

text \<open>Powers of \<open>x\<close> are computed on integers.\<close>

definition shr_int :: "int \<Rightarrow> int" where
  "shr_int v = (if odd v then v div 2 XOR 0xedb88320 else v div 2)"

lemma shr_word_of_int:
  assumes "0 \<le> v" "v < 2 ^ 128"
  shows "shr (word_of_int v) = word_of_int (shr_int v)"
proof -
  have "take_bit 128 v = v"
    using assms by (simp add: take_bit_int_eq_self)
  then have "bit v (Suc k) \<Longrightarrow> k < 127" for k
    using bit_take_bit_iff [of 128 v "Suc k"] by simp
  then have "drop_bit 1 (word_of_int v :: m128i) = word_of_int (drop_bit 1 v)"
    by (intro bit_word_eqI) (auto simp: bit_simps)
  moreover have "(word_of_int (a XOR b) :: m128i) = word_of_int a XOR word_of_int b" for a b
    by (rule bit_word_eqI) (auto simp: bit_simps)
  moreover have "bit (word_of_int v :: m128i) 0 \<longleftrightarrow> odd v"
    unfolding bit_word_of_int_iff by (simp add: bit_0)
  ultimately show ?thesis
    unfolding shr_step shr_int_def by (simp add: drop_bit_Suc)
qed

lemma shr_int_bounds:
  assumes "0 \<le> v" "v < 2 ^ 33"
  shows "0 \<le> shr_int v \<and> shr_int v < 2 ^ 33"
proof -
  have "v div 2 XOR 0xedb88320 < 2 ^ 32"
    using assms by (intro XOR_upper) auto
  then show ?thesis
    using assms by (auto simp: shr_int_def)
qed

lemma shr_pow_word_of_int:
  "0 \<le> v \<Longrightarrow> v < 2 ^ 33 \<Longrightarrow> (shr ^^ n) (word_of_int v) = word_of_int ((shr_int ^^ n) v)"
proof (induction n arbitrary: v)
  case (Suc n)
  then show ?case
    using shr_word_of_int [of v] shr_int_bounds [of v] by (simp add: funpow_Suc_right del: funpow.simps(2))
qed simp

lemma funpow_numeral_step: "(f ^^ numeral k) x = (f ^^ pred_numeral k) (f x)"
  by (simp add: numeral_eq_Suc funpow_swap1)

text \<open>What each folding constant stands for.\<close>

lemma shr_int_powers:
  "(shr_int ^^ 33) 1 = shr_int 0x0163cd6124" "(shr_int ^^ 65) 1 = shr_int 0x00ccaa009e"
  "(shr_int ^^ 129) 1 = shr_int 0x01751997d0" "(shr_int ^^ 449) 1 = shr_int 0x01c6e41596"
  "(shr_int ^^ 513) 1 = shr_int 0x0154442bd4"
  by (simp_all add: funpow_numeral_step shr_int_def)

lemma crc_constant:
  assumes "0 \<le> k" "k < 2 ^ 33" "(shr_int ^^ Suc d) 1 = shr_int k" "0 < n"
  shows "(shr ^^ n) (word_of_int k) = (shr ^^ (d + n)) 1"
proof -
  obtain m where n: "n = Suc m"
    using assms(4) by (cases n) auto
  have "shr (word_of_int k) = (shr ^^ Suc d) 1"
    using shr_pow_word_of_int [of k 1] shr_pow_word_of_int [of 1 "Suc d"] assms(1-3) by simp
  then have "(shr ^^ m) (shr (word_of_int k)) = (shr ^^ m) ((shr ^^ Suc d) 1)"
    by simp
  then show ?thesis
    by (simp add: n funpow_swap1 flip: funpow_add [THEN fun_cong, simplified comp_def] ) (simp add: ac_simps)
qed

lemma shr_pow_add: "(shr ^^ m) ((shr ^^ n) v) = (shr ^^ (m + n)) v"
  by (simp add: funpow_add)

lemma clmul_constant:
  assumes "i < 64" "0 < n" and k: "0 \<le> k" "k < 2 ^ 33" "(shr_int ^^ Suc d) 1 = shr_int k" and "i < n"
  shows "(shr ^^ n) (clmul_bits 64 (push_bit i 1) (word_of_int k)) = (shr ^^ (d + n - i)) 1"
proof -
  have "take_bit 64 k = k"
    using k by (simp add: take_bit_int_eq_self)
  then have "\<not> bit (word_of_int k :: m128i) j" if "64 \<le> j" for j
    using that bit_take_bit_iff [of 64 k j] by (simp add: bit_simps)
  then have "(shr ^^ n) (push_bit i (word_of_int k)) = (shr ^^ (n - i)) (word_of_int k)"
    using assms by (intro shr_push [where m = 64]) auto
  then show ?thesis
    using assms by (simp add: clmul_bits_basis crc_constant [OF k] del: push_bit_of_1)
qed

lemma crc_halves:
  "ucast (half64 viltrum_k1k2 False) = (word_of_int 0x0154442bd4 :: m128i)"
  "ucast (half64 viltrum_k1k2 True) = (word_of_int 0x01c6e41596 :: m128i)"
  "ucast (half64 viltrum_k3k4 False) = (word_of_int 0x01751997d0 :: m128i)"
  "ucast (half64 viltrum_k3k4 True) = (word_of_int 0x00ccaa009e :: m128i)"
  "ucast (half64 viltrum_k5k0 False) = (word_of_int 0x0163cd6124 :: m128i)"
  by (simp_all add: half64_def viltrum_k1k2_def viltrum_k3k4_def viltrum_k5k0_def mm_set_epi64x_def)

section \<open>Folding\<close>

lemma crc_fold_linear: "xor_linear (\<lambda>x. crc_fold k x 0)"
  by (simp add: xor_linear_def crc_fold_def clmulepi64_xor ac_simps)

lemma crc_fold_add: "crc_fold k x y = crc_fold k x 0 XOR y"
  by (simp add: crc_fold_def xor.assoc)

lemma crc_fold_shift:
  assumes lo: "ucast (half64 k False) = (word_of_int a :: m128i)" "0 \<le> a" "a < 2 ^ 33" "(shr_int ^^ Suc d) 1 = shr_int a"
    and hi: "ucast (half64 k True) = (word_of_int b :: m128i)" "0 \<le> b" "b < 2 ^ 33" "(shr_int ^^ Suc (d - 64)) 1 = shr_int b"
    and d: "64 \<le> d"
  shows "(shr ^^ 128) (crc_fold k x 0) = (shr ^^ (d + 128)) x"
proof (rule xor_linear_eq [where f = "\<lambda>x. (shr ^^ 128) (crc_fold k x 0)" and g = "shr ^^ (d + 128)"])
  show "xor_linear (\<lambda>x. (shr ^^ 128) (crc_fold k x 0))"
    by (rule xor_linear_comp [OF shr_pow_linear crc_fold_linear])
next
  fix i
  assume "i < LENGTH(128)"
  then have i: "i < 128" by simp
  note z = xor_linear_0 [OF clmul_bits_linear1]
  have "(shr ^^ 128) (crc_fold k (push_bit i 1) 0) = (shr ^^ (d + 128 - i)) 1"
  proof (cases "i < 64")
    case True
    then have "(shr ^^ 128) (crc_fold k (push_bit i 1) 0) = (shr ^^ 128) (clmul_bits 64 (push_bit i 1) (word_of_int a))"
      by (simp add: crc_fold_def mm_clmulepi64_si128_def half64_basis lo z del: push_bit_of_1)
    also have "\<dots> = (shr ^^ (d + 128 - i)) 1"
      using True by (intro clmul_constant lo) auto
    finally show ?thesis .
  next
    case False
    then have "(shr ^^ 128) (crc_fold k (push_bit i 1) 0) = (shr ^^ 128) (clmul_bits 64 (push_bit (i - 64) 1) (word_of_int b))"
      using i by (simp add: crc_fold_def mm_clmulepi64_si128_def half64_basis hi z del: push_bit_of_1)
    also have "\<dots> = (shr ^^ ((d - 64) + 128 - (i - 64))) 1"
      using False i by (intro clmul_constant hi) auto
    finally show ?thesis
      using False d by (simp add: add.commute)
  qed
  then show "(shr ^^ 128) (crc_fold k (push_bit i 1) 0) = (shr ^^ (d + 128)) (push_bit i 1)"
    using i by (simp add: shr_push_1 del: push_bit_of_1)
qed (rule shr_pow_linear)

lemma crc_fold_k1k2: "(shr ^^ 128) (crc_fold viltrum_k1k2 x 0) = (shr ^^ 640) x"
  using crc_fold_shift [OF crc_halves(1) _ _ _ crc_halves(2), where d = 512] shr_int_powers
  by (simp add: numeral_eq_Suc [symmetric])

lemma crc_fold_k3k4: "(shr ^^ 128) (crc_fold viltrum_k3k4 x 0) = (shr ^^ 256) x"
  using crc_fold_shift [OF crc_halves(3) _ _ _ crc_halves(4), where d = 128] shr_int_powers
  by simp

section \<open>The last 128 bits\<close>

lemma crc_128_to_64: "(shr ^^ 64) (mm_srli_si128 x 8 XOR mm_clmulepi64_si128 x viltrum_k3k4 0x10) = (shr ^^ 128) x"
proof (rule xor_linear_eq [where g = "shr ^^ 128"])
  show "xor_linear (\<lambda>x. (shr ^^ 64) (mm_srli_si128 x 8 XOR mm_clmulepi64_si128 x viltrum_k3k4 0x10))"
    by (rule xor_linear_comp [OF shr_pow_linear]) (simp add: xor_linear_def si128_xor clmulepi64_xor ac_simps)
next
  fix i
  assume "i < LENGTH(128)"
  then have i: "i < 128" by simp
  show "(shr ^^ 64) (mm_srli_si128 (push_bit i 1) 8 XOR mm_clmulepi64_si128 (push_bit i 1) viltrum_k3k4 0x10)
    = (shr ^^ 128) (push_bit i 1)"
  proof (cases "i < 64")
    case True
    then have "mm_srli_si128 (push_bit i 1) 8 = 0"
      by (auto simp: mm_srli_si128_def bit_simps intro!: bit_word_eqI simp del: push_bit_of_1)
    moreover have "(shr ^^ 64) (clmul_bits 64 (push_bit i 1) (word_of_int 0x00ccaa009e)) = (shr ^^ (64 + 64 - i)) 1"
      using True shr_int_powers by (intro clmul_constant) simp_all
    ultimately show ?thesis
      using True i by (simp add: mm_clmulepi64_si128_def half64_basis crc_halves shr_push_1 del: push_bit_of_1)
  next
    case False
    then show ?thesis
      using i by (simp add: mm_clmulepi64_si128_def half64_basis xor_linear_0 [OF clmul_bits_linear1] mm_srli_si128_def
          drop_push_1 shr_push_1 del: push_bit_of_1)
  qed
qed (rule shr_pow_linear)

lemma half64_mask: "i < 128 \<Longrightarrow> half64 (push_bit i 1 AND crc_mask) False = (if i < 32 then push_bit i 1 else 0)"
  by (auto simp: half64_def crc_mask_def bit_simps bit_from_lanes32 intro!: bit_word_eqI simp del: push_bit_of_1)

lemma and_mask_xor: "(x XOR y) AND m = (x AND m) XOR (y AND (m :: m128i))"
  by (rule bit_word_eqI) (auto simp: bit_simps)

lemma crc_64_to_32:
  "(shr ^^ 32) (mm_clmulepi64_si128 (z AND crc_mask) viltrum_k5k0 0x00 XOR mm_srli_si128 z 4) = (shr ^^ 64) z"
proof (rule xor_linear_eq [where g = "shr ^^ 64"])
  show "xor_linear (\<lambda>z. (shr ^^ 32) (mm_clmulepi64_si128 (z AND crc_mask) viltrum_k5k0 0x00 XOR mm_srli_si128 z 4))"
    by (rule xor_linear_comp [OF shr_pow_linear]) (simp add: xor_linear_def si128_xor clmulepi64_xor and_mask_xor xor.assoc xor.left_commute)
next
  fix i
  assume "i < LENGTH(128)"
  then have i: "i < 128" by simp
  show "(shr ^^ 32) (mm_clmulepi64_si128 (push_bit i 1 AND crc_mask) viltrum_k5k0 0x00 XOR mm_srli_si128 (push_bit i 1) 4)
    = (shr ^^ 64) (push_bit i 1)"
  proof (cases "i < 32")
    case True
    then have "mm_srli_si128 (push_bit i 1) 4 = 0"
      by (auto simp: mm_srli_si128_def bit_simps intro!: bit_word_eqI simp del: push_bit_of_1)
    moreover have "(shr ^^ 32) (clmul_bits 64 (push_bit i 1) (word_of_int 0x0163cd6124)) = (shr ^^ (32 + 32 - i)) 1"
      using True shr_int_powers by (intro clmul_constant) simp_all
    ultimately show ?thesis
      using True i by (simp add: mm_clmulepi64_si128_def half64_mask crc_halves shr_push_1 del: push_bit_of_1)
  next
    case False
    have "(shr ^^ 64) (push_bit i 1) = (shr ^^ 32) (push_bit (i - 32) 1)"
      using False i shr_pow_add [of 32 32 "push_bit i 1"] by (simp add: shr_push_1_less del: push_bit_of_1)
    then show ?thesis
      using False i by (simp add: mm_clmulepi64_si128_def half64_mask xor_linear_0 [OF clmul_bits_linear1]
          mm_srli_si128_def drop_push_1 del: push_bit_of_1)
  qed
qed (rule shr_pow_linear)

lemma crc_to_64_shift: "(shr ^^ 32) (crc_to_64 x) = (shr ^^ 128) x"
  by (simp add: crc_to_64_def Let_def crc_64_to_32 crc_128_to_64)

subsection \<open>Barrett reduction\<close>

abbreviation crc_P :: m128i where "crc_P \<equiv> ucast (half64 viltrum_poly False)"
abbreviation crc_mu :: u64 where "crc_mu \<equiv> half64 viltrum_poly True"

lemma crc_poly_values: "crc_P = 0x1db710641" "crc_mu = 0x1f7011641"
  by (simp_all add: half64_def viltrum_poly_def mm_set_epi64x_def)

lemma xor_linear_take_bit: "xor_linear (take_bit n :: 'a::len word \<Rightarrow> _)"
  by (simp add: xor_linear_def take_bit_xor)

lemma take_push_high: "32 \<le> n \<Longrightarrow> take_bit 32 (push_bit n v) = (0 :: m128i)"
  by (rule bit_word_eqI) (auto simp: bit_simps)

lemma take_bit_push_1: "take_bit m (push_bit n 1) = (if n < m then push_bit n 1 else (0 :: 'a::len word))"
  by (rule bit_word_eqI) (auto simp: bit_simps simp del: push_bit_of_1)

text \<open>Modulo the 32nd power of \<open>x\<close> a product depends on the low bits of its factor, and shifting commutes with it.\<close>

lemma clmul_low_factor: "take_bit 32 (clmul_bits 64 (take_bit 32 a) b) = take_bit 32 (clmul_bits 64 a b)"
proof (rule xor_linear_eq [where g = "\<lambda>a. take_bit 32 (clmul_bits 64 a b)"])
  show "xor_linear (\<lambda>a. take_bit 32 (clmul_bits 64 (take_bit 32 a) b))"
    by (intro xor_linear_comp [OF xor_linear_take_bit] xor_linear_comp [OF clmul_bits_linear1 xor_linear_take_bit])
  show "xor_linear (\<lambda>a. take_bit 32 (clmul_bits 64 a b))"
    by (rule xor_linear_comp [OF xor_linear_take_bit clmul_bits_linear1])
qed (auto simp: take_bit_push_1 clmul_bits_basis take_push_high xor_linear_0 [OF clmul_bits_linear1] simp del: push_bit_of_1)

lemma clmul_low_push:
  "take_bit 32 (clmul_bits 64 (push_bit i a) b) = take_bit 32 (push_bit i (take_bit 32 (clmul_bits 64 a b)))"
proof -
  have "take_bit 32 (push_bit i (take_bit 32 v)) = take_bit 32 (push_bit i v)" for v :: m128i
    by (rule bit_word_eqI) (auto simp: bit_simps)
  moreover have "take_bit 32 (clmul_bits 64 (push_bit i a) b) = take_bit 32 (push_bit i (clmul_bits 64 a b))"
  proof (rule xor_linear_eq [where g = "\<lambda>a. take_bit 32 (push_bit i (clmul_bits 64 a b))"])
    show "xor_linear (\<lambda>a. take_bit 32 (clmul_bits 64 (push_bit i a) b))"
      by (intro xor_linear_comp [OF xor_linear_take_bit] xor_linear_comp [OF clmul_bits_linear1 xor_linear_push_bit])
    show "xor_linear (\<lambda>a. take_bit 32 (push_bit i (clmul_bits 64 a b)))"
      by (intro xor_linear_comp [OF xor_linear_take_bit] xor_linear_comp [OF xor_linear_push_bit clmul_bits_linear1])
  next
    fix n
    assume "n < LENGTH(64)"
    moreover have "push_bit (i + n) 1 = (0 :: u64)" if "64 \<le> i + n"
      using that by (auto intro!: bit_word_eqI simp: bit_simps simp del: push_bit_of_1)
    ultimately show "take_bit 32 (clmul_bits 64 (push_bit i (push_bit n 1)) b) = take_bit 32 (push_bit i (clmul_bits 64 (push_bit n 1) b))"
      by (cases "i + n < 64") (simp_all add: push_bit_push_bit clmul_bits_basis take_push_high
          xor_linear_0 [OF clmul_bits_linear1] del: push_bit_of_1)
  qed
  ultimately show ?thesis by simp
qed

lemma clmul_bits_numeral:
  "clmul_bits (numeral k) a b
    = clmul_bits (pred_numeral k) a b XOR (if bit a (pred_numeral k) then push_bit (pred_numeral k) b else 0)"
  by (simp add: numeral_eq_Suc)

lemma clmul_mu_P: "take_bit 32 (clmul_bits 64 crc_mu crc_P) = 1"
  unfolding crc_poly_values by (simp add: clmul_bits_numeral)

lemma shr_P: "(shr ^^ 32) (clmul_bits 64 (take_bit 32 a) crc_P) = 0"
proof (rule xor_linear_eq [where f = "\<lambda>a. (shr ^^ 32) (clmul_bits 64 (take_bit 32 a) crc_P)" and g = "\<lambda>a. 0"])
  show "xor_linear (\<lambda>a. (shr ^^ 32) (clmul_bits 64 (take_bit 32 a) crc_P))"
    by (intro xor_linear_comp [OF shr_pow_linear] xor_linear_comp [OF clmul_bits_linear1 xor_linear_take_bit])
next
  fix i
  assume "i < LENGTH(64)"
  have "shr crc_P = 0"
    unfolding crc_poly_values by (simp add: shr_def)
  then have P: "(shr ^^ Suc n) crc_P = 0" for n
    using xor_linear_0 [OF shr_pow_linear, of n] by (simp add: funpow_Suc_right del: funpow.simps(2))
  have "(shr ^^ 32) (push_bit i crc_P) = (shr ^^ Suc (31 - i)) crc_P" if "i < 32"
  proof -
    have "(shr ^^ 32) (push_bit i crc_P) = (shr ^^ (32 - i)) crc_P"
      by (rule shr_push [where m = 64]) (use that in \<open>auto simp: bit_simps half64_def\<close>)
    also have "32 - i = Suc (31 - i)"
      using that by simp
    finally show ?thesis .
  qed
  then show "(shr ^^ 32) (clmul_bits 64 (take_bit 32 (push_bit i 1)) crc_P) = 0"
    by (simp add: take_bit_push_1 clmul_bits_basis P xor_linear_0 [OF clmul_bits_linear1] xor_linear_0 [OF shr_pow_linear]
        del: push_bit_of_1 funpow.simps(2))
qed (rule xor_linear_id)

lemma shr_low_zero: "take_bit 32 v = 0 \<Longrightarrow> (shr ^^ 32) v = drop_bit 32 v"
proof -
  assume "take_bit 32 v = 0"
  then have "push_bit 32 (drop_bit 32 v) = v"
    using bits_ident [of 32 v] by simp
  moreover have "(shr ^^ 32) (push_bit 32 (drop_bit 32 v)) = (shr ^^ (32 - 32)) (drop_bit 32 v)"
    by (rule shr_push [where m = 96]) (auto simp: bit_simps bit_m128_ge)
  ultimately show ?thesis by simp
qed

lemma half64_and_mask: "half64 (v AND crc_mask) False = take_bit 32 (half64 v False)"
  by (rule bit_word_eqI) (auto simp: half64_def crc_mask_def bit_simps bit_from_lanes32)

lemma crc_barrett_basis:
  assumes "i < 32"
  shows "lane32 (crc_barrett (push_bit i 1)) 1 = ucast ((shr ^^ 32) (push_bit i 1))"
proof -
  define q where "q = take_bit 32 (push_bit i crc_mu)"
  define V where "V = push_bit i 1 XOR clmul_bits 64 q crc_P"
  have "clmul_bits 64 (take_bit 32 (push_bit i 1)) (ucast crc_mu) = push_bit i (ucast crc_mu)"
    using assms by (simp add: take_bit_push_1 clmul_bits_basis del: push_bit_of_1)
  moreover have "half64 (push_bit i 1) False = push_bit i 1"
    using assms by (simp add: half64_basis del: push_bit_of_1)
  moreover have "take_bit 32 (half64 (push_bit i (ucast crc_mu)) False) = q"
    by (rule bit_word_eqI) (auto simp: q_def half64_def bit_simps)
  ultimately have V: "crc_barrett (push_bit i 1) = V"
    by (simp add: crc_barrett_def Let_def mm_clmulepi64_si128_def half64_and_mask V_def del: push_bit_of_1)
  have "take_bit 32 (clmul_bits 64 q crc_P) = push_bit i 1"
    using assms by (simp add: q_def clmul_low_factor clmul_low_push clmul_mu_P take_bit_push_1 del: push_bit_of_1)
  then have "take_bit 32 V = 0"
    using assms by (simp add: V_def take_bit_xor take_bit_push_1 del: push_bit_of_1)
  then have "(shr ^^ 32) V = drop_bit 32 V"
    by (rule shr_low_zero)
  moreover have "(shr ^^ 32) V = (shr ^^ 32) (push_bit i 1)"
    unfolding V_def q_def by (simp add: shr_xor shr_P del: push_bit_of_1)
  ultimately show ?thesis
    unfolding V by (simp add: lane32_def)
qed

lemma crc_barrett_shift: "lane32 (crc_barrett w) 1 = ucast ((shr ^^ 32) w)"
proof (rule xor_linear_eq [where g = "\<lambda>w. ucast ((shr ^^ 32) w)"])
  show "xor_linear (\<lambda>w. lane32 (crc_barrett w) 1)"
    by (simp add: xor_linear_def crc_barrett_def Let_def lane32_bitwise and_mask_xor clmulepi64_xor xor.assoc xor.left_commute)
  show "xor_linear (\<lambda>w. ucast ((shr ^^ 32) w))"
    by (rule xor_linear_comp [OF xor_linear_ucast shr_pow_linear])
next
  fix i
  assume "i < LENGTH(128)"
  then have i: "i < 128" by simp
  show "lane32 (crc_barrett (push_bit i 1)) 1 = ucast ((shr ^^ 32) (push_bit i 1))"
  proof (cases "i < 32")
    case False
    then have "crc_barrett (push_bit i 1) = push_bit i 1"
      using i by (simp add: crc_barrett_def Let_def mm_clmulepi64_si128_def half64_mask
          xor_linear_0 [OF clmul_bits_linear1] xor_linear_0 [OF half64_linear] del: push_bit_of_1)
    then show ?thesis
      using False i by (simp add: lane32_def drop_push_1 shr_push_1_less del: push_bit_of_1)
  qed (rule crc_barrett_basis)
qed

section \<open>Blocks\<close>

function crc_blocks :: "u8 list \<Rightarrow> m128i list" where
  "crc_blocks p = (if 16 \<le> length p then mm_loadu_si128 p # crc_blocks (drop 16 p) else [])"
  by pat_completeness auto
termination
  by (relation "measure length") auto

declare crc_blocks.simps [simp del]

text \<open>What a row of blocks is worth, and that both folds keep it.\<close>

primrec crc_sum :: "m128i list \<Rightarrow> m128i" where
  "crc_sum [] = 0"
| "crc_sum (b # bs) = (shr ^^ (128 * Suc (length bs))) b XOR crc_sum bs"

lemma shr_fold:
  assumes "(shr ^^ 128) (crc_fold k x 0) = (shr ^^ (d + 128)) x"
  shows "(shr ^^ (128 * Suc n)) (crc_fold k x y) = (shr ^^ (d + 128 * Suc n)) x XOR (shr ^^ (128 * Suc n)) y"
proof -
  have "(shr ^^ (128 * Suc n)) (crc_fold k x 0) = (shr ^^ (128 * n)) ((shr ^^ 128) (crc_fold k x 0))"
    unfolding shr_pow_add by (simp add: add.commute)
  also have "\<dots> = (shr ^^ (d + 128 * Suc n)) x"
    unfolding assms shr_pow_add by (simp add: ac_simps)
  finally show ?thesis
    by (subst crc_fold_add) (simp only: shr_xor)
qed

lemma crc_sum_fold1: "crc_sum (crc_fold viltrum_k3k4 x y # bs) = crc_sum (x # y # bs)"
  using shr_fold [of viltrum_k3k4 x 128 "length bs" y]
  by (simp add: crc_fold_k3k4 xor.assoc del: mult_Suc_right) (simp add: ac_simps)

lemma crc_sum_fold4:
  "crc_sum (crc_fold viltrum_k1k2 x1 y1 # crc_fold viltrum_k1k2 x2 y2 # crc_fold viltrum_k1k2 x3 y3
      # crc_fold viltrum_k1k2 x4 y4 # bs) = crc_sum (x1 # x2 # x3 # x4 # y1 # y2 # y3 # y4 # bs)"
proof -
  have f: "(shr ^^ (128 * Suc n)) (crc_fold viltrum_k1k2 x y) = (shr ^^ (128 * Suc (Suc (Suc (Suc (Suc n)))))) x
    XOR (shr ^^ (128 * Suc n)) y" for n x y
    using shr_fold [of viltrum_k1k2 x 512 n y] by (simp add: crc_fold_k1k2 del: mult_Suc_right) (simp add: ac_simps)
  show ?thesis
    by (simp add: f xor.assoc xor.left_commute del: mult_Suc_right)
qed

lemma crc_blocks_4:
  assumes "64 \<le> length p"
  shows "crc_blocks p = mm_loadu_si128 p # mm_loadu_si128 (drop 16 p) # mm_loadu_si128 (drop 32 p)
    # mm_loadu_si128 (drop 48 p) # crc_blocks (drop 64 p)"
proof -
  have "16 \<le> length p" "16 \<le> length p - 16" "16 \<le> length p - 32" "16 \<le> length p - 48"
    using assms by simp_all
  then show ?thesis
    by (simp add: crc_blocks.simps [of p] crc_blocks.simps [of "drop 16 p"] crc_blocks.simps [of "drop 32 p"]
        crc_blocks.simps [of "drop 48 p"])
qed

lemma crc_fold4_sum:
  "crc_fold4 x1 x2 x3 x4 p = ((y1, y2, y3, y4), q) \<Longrightarrow>
     crc_sum (x1 # x2 # x3 # x4 # crc_blocks p) = crc_sum (y1 # y2 # y3 # y4 # crc_blocks q)"
proof (induction x1 x2 x3 x4 p rule: crc_fold4.induct)
  case (1 x1 x2 x3 x4 p)
  show ?case
  proof (cases "64 \<le> length p")
    case True
    then show ?thesis
      using 1 by (simp add: crc_blocks_4 [OF True] crc_fold4.simps [of x1 x2 x3 x4 p] crc_sum_fold4 del: crc_sum.simps)
  next
    case False
    then show ?thesis
      using 1 by (simp add: crc_fold4.simps [of x1 x2 x3 x4 p])
  qed
qed

lemma crc_fold1_sum: "(shr ^^ 128) (crc_fold1 x p) = crc_sum (x # crc_blocks p)"
proof (induction x p rule: crc_fold1.induct)
  case (1 x p)
  show ?case
  proof (cases "16 \<le> length p")
    case True
    then show ?thesis
      using 1 by (simp add: crc_fold1.simps [of x p] crc_blocks.simps [of p] crc_sum_fold1 del: crc_sum.simps)
  next
    case False
    then show ?thesis
      by (simp add: crc_fold1.simps [of x p] crc_blocks.simps [of p])
  qed
qed

section \<open>Bytes\<close>

lemma crc32_append: "crc32 c (p @ q) = crc32 (crc32 c p) q"
  by (simp add: crc32_def)

lemma le_word_Cons:
  "(word_of_int (le_val (b # bs)) :: m128i) = ucast (b :: u8) XOR push_bit 8 (word_of_int (le_val bs))"
proof -
  have "ucast b AND push_bit 8 (word_of_int (le_val bs)) = (0 :: m128i)"
    by (rule bit_word_eqI) (auto simp: bit_simps dest: bit_imp_le_length)
  then have "ucast b XOR push_bit 8 (word_of_int (le_val bs)) = ucast b + push_bit 8 (word_of_int (le_val bs) :: m128i)"
    by (simp add: disjunctive_add_eq_xor)
  then show ?thesis
    by (simp add: push_bit_eq_mult)
qed

lemma crc32_bytes: "length bs \<le> 16 \<Longrightarrow> ucast (crc32 c bs) = (shr ^^ (8 * length bs)) (word_of_int (le_val bs) XOR ucast c)"
proof (induction bs arbitrary: c)
  case (Cons b bs)
  define L :: m128i where "L = word_of_int (le_val bs)"
  have "le_val bs < 2 ^ (8 * length bs)"
    using le_val_less [of bs] by simp
  then have "take_bit (8 * length bs) (le_val bs) = le_val bs"
    by (simp add: take_bit_int_eq_self)
  then have high: "\<not> bit L j" if "8 * length bs \<le> j" for j
    using that bit_take_bit_iff [of "8 * length bs" "le_val bs" j] by (simp add: L_def bit_simps)
  have "(word_of_int (le_val (b # bs)) :: m128i) = ucast b XOR push_bit 8 L"
    by (simp only: le_word_Cons L_def)
  moreover have "(shr ^^ 8) (push_bit 8 L) = L"
    using shr_push [where m = "8 * length bs" and v = L and n = 8 and k = 8] high Cons.prems by simp
  moreover have "(ucast (ucast b :: u32) :: m128i) = ucast b"
    by (rule bit_word_eqI) (auto simp: bit_simps dest: bit_imp_le_length)
  ultimately have "(shr ^^ 8) (word_of_int (le_val (b # bs)) XOR ucast c) = L XOR ucast (crc_byte b c)"
    by (simp add: crc_byte_def ucast_crc_bit_pow unsigned_xor_eq shr_xor ac_simps)
  then have "(shr ^^ (8 * length bs)) ((shr ^^ 8) (word_of_int (le_val (b # bs)) XOR ucast c)) = ucast (crc32 (crc_byte b c) bs)"
    using Cons by (simp add: L_def)
  then show ?case
    unfolding shr_pow_add by (simp add: crc32_def ac_simps)
qed (simp add: crc32_def)

lemma crc32_blocks:
  "16 dvd length p \<Longrightarrow> ucast (crc32 c p) = (shr ^^ (128 * length (crc_blocks p))) (ucast c) XOR crc_sum (crc_blocks p)"
proof (induction p arbitrary: c rule: crc_blocks.induct)
  case (1 p)
  show ?case
  proof (cases "16 \<le> length p")
    case True
    have "ucast (crc32 c (take 16 p)) = (shr ^^ 128) (mm_loadu_si128 p XOR ucast c)"
      using crc32_bytes [of "take 16 p" c] True by (simp add: mm_loadu_si128_def mm_of_bytes_def)
    moreover have "crc32 c p = crc32 (crc32 c (take 16 p)) (drop 16 p)"
      by (simp flip: crc32_append)
    moreover have "16 dvd length (drop 16 p)"
      using 1 True by (simp add: dvd_diff_nat)
    ultimately have "ucast (crc32 c p) = (shr ^^ (128 * length (crc_blocks (drop 16 p)))) ((shr ^^ 128) (mm_loadu_si128 p XOR ucast c))
        XOR crc_sum (crc_blocks (drop 16 p))"
      using 1 True by simp
    then show ?thesis
      using True unfolding shr_pow_add by (simp add: crc_blocks.simps [of p] shr_xor ac_simps)
  next
    case False
    then have "p = []"
      using 1 by (auto dest!: dvd_imp_le)
    then show ?thesis
      by (simp add: crc32_def crc_blocks.simps)
  qed
qed

lemma clmul_crc32:
  assumes "64 \<le> length p" and "16 dvd length p"
  shows "viltrum_crc32_clmul crc p = crc32 crc p"
proof -
  let ?l = "\<lambda>n. mm_loadu_si128 (drop n p)"
  obtain x1 x2 x3 x4 q where f: "crc_fold4 (?l 0 XOR ucast crc) (?l 16) (?l 32) (?l 48) (drop 64 p) = ((x1, x2, x3, x4), q)"
    by (metis prod.exhaust)
  have "ucast (crc32 crc p) = crc_sum ((?l 0 XOR ucast crc) # ?l 16 # ?l 32 # ?l 48 # crc_blocks (drop 64 p))"
    using crc32_blocks [OF assms(2), of crc] by (simp add: crc_blocks_4 [OF assms(1)] shr_xor ac_simps)
  also have "\<dots> = crc_sum (x1 # x2 # x3 # x4 # crc_blocks q)"
    using f by (rule crc_fold4_sum)
  also have "\<dots> = (shr ^^ 128) (crc_fold1 (crc_fold viltrum_k3k4 (crc_fold viltrum_k3k4 (crc_fold viltrum_k3k4 x1 x2) x3) x4) q)"
    by (simp only: crc_fold1_sum crc_sum_fold1)
  finally have "viltrum_crc32_clmul crc p = ucast (ucast (crc32 crc p) :: m128i)"
    using f by (simp add: viltrum_crc32_clmul_def crc_barrett_shift crc_to_64_shift del: One_nat_def)
  also have "\<dots> = crc32 crc p"
    by (rule bit_word_eqI) (auto simp: bit_simps)
  finally show ?thesis .
qed

text \<open>
  C22. CRC-32 by carry-less multiplication is CRC-32: for at least 64 bytes and a multiple of 16, the register that
  \<^verbatim>\<open>viltrum_crc32_clmul\<close> returns, by folding four lanes, then one, then Barrett reduction, is the one the
  standard's shift register reaches when it takes the bytes one bit at a time, from any running value.
\<close>

theorem crc32_clmul_correct:
  assumes "64 \<le> length p" and "16 dvd length p"
  shows "viltrum_crc32_clmul crc p = crc32 crc p"
  by (rule clmul_crc32 [OF assms])

theorem crc32_clmul_correct_witness:
  "64 \<le> length (replicate 64 0x61 :: u8 list) \<and> 16 dvd length (replicate 64 0x61 :: u8 list) \<and>
   viltrum_crc32_clmul 0xffffffff (replicate 64 0x61) = 0x764b9aaa"
proof -
  have "crc32 0xffffffff (replicate 64 0x61) = 0x764b9aaa"
    by (simp add: crc32_def fold_replicate crc_byte_def crc_bit_def funpow_numeral_step bit_0)
  then show ?thesis
    using crc32_clmul_correct [where p = "replicate 64 0x61" and crc = "0xffffffff"] by simp
qed

end
