(* ===== verification/GzipCrc.thy ===== *)
theory GzipCrc
  imports Crc32
begin

unbundle bit_operations_syntax

text \<open>
  The checksum of a gzip response: \<^verbatim>\<open>crc32\<close> of \<^verbatim>\<open>src/http1/deflate.v\<close>, the one caller of
  \<^verbatim>\<open>src/http1/crc32_clmul.h\<close>. It uses carry-less multiplication for the leading blocks where the build and the
  processor have it, then a table for eight bytes at a time, then for single bytes; all of them continue one register.
\<close>

section \<open>Builds\<close>





section \<open>The tables\<close>






section \<open>The checksum\<close>







section \<open>Eight bits at a time\<close>


lemma crc_pow_linear: "xor_linear (crc_bit ^^ n)"
proof (induction n)
  case (Suc n)
  have "xor_linear crc_bit"
    by (auto simp: crc_bit_def xor_linear_def bit_simps drop_bit_xor ac_simps)
  from xor_linear_comp [OF this Suc] show ?case
    by (simp add: comp_def)
qed (simp add: id_def xor_linear_id)







section \<open>What the tables hold\<close>












section \<open>The loops\<close>

















section \<open>Property\<close>


end
