(* ===== verification/Spec2Isabelle.thy ===== *)
theory Spec2Isabelle
  imports Builds RsaLife TlsLinux EpollWorkers Files GzipCrc
begin

text \<open>
  A model of the C core of Viltrum, a web server written in V: the cryptography and the TLS 1.3 handshake it does
  itself, the transport under mbedtls, and the C helpers of its event loop and of its file and gzip responses.

  \<^bold>\<open>The parts and how they interact.\<close> A connection's bytes arrive through the BIO callbacks of
  \<^verbatim>\<open>src/engine/tls_linux.h\<close>. The engine hands a ClientHello to \<^verbatim>\<open>viltrum_hs13_parse\<close> of \<^verbatim>\<open>src/engine/hs13.h\<close>,
  which serves it, refuses it or leaves it to mbedtls. For a hello that is served \<^verbatim>\<open>viltrum_hs13_flight\<close> computes the
  shared secret (\<^verbatim>\<open>src/engine/x25519.h\<close>), runs the key schedule, signs the transcript with the certificate's key
  (\<^verbatim>\<open>src/engine/rsa.h\<close>, a key that \<^verbatim>\<open>viltrum_rsa_load\<close> has prepared) and seals the records of the flight with AES-GCM
  (\<^verbatim>\<open>src/engine/aesgcm.h\<close>); \<^verbatim>\<open>viltrum_hs13_finished_ok\<close> then checks the client's answer. Connections that mbedtls
  handles give up their traffic secrets through the export callback. Beside this stand the wait for events
  (\<^verbatim>\<open>src/engine/wait_linux.h\<close>), opening files (\<^verbatim>\<open>src/http1/file.h\<close>) and CRC-32 (\<^verbatim>\<open>src/http1/crc32_clmul.h\<close>),
  which the gzip responses use through \<^verbatim>\<open>crc32\<close> of \<^verbatim>\<open>src/http1/deflate.v\<close>.

  \<^bold>\<open>Theories.\<close>
  \<^item> \<open>Prelude\<close>: C integer types as words, no-wrap readings of the operators, values of digit lists.
  \<^item> \<open>Fe25519\<close>, \<open>X25519\<close>: the field on five limbs, then encodings, inversion chain and ladder; one definition per C
    function, and for \<^verbatim>\<open>viltrum_x25519\<close> and \<^verbatim>\<open>viltrum_fe_tobytes\<close> one per phase. The locale \<open>residue_field\<close> is the
    contract of the field operations under limb bounds.
  \<^item> \<open>Limbs\<close>, \<open>Mont\<close>, \<open>MontExp\<close>: the column accumulator in both forms, product scanning, squaring, reduction, window
    exponentiation. The locale \<open>power_domain\<close> is what exponentiation asks of a multiplication.
  \<^item> \<open>Fermat\<close>, \<open>Rsa\<close>, \<open>RsaLoad\<close>, \<open>Pss\<close>: number theory, the key record, the private operation by CRT under blinding
    with the public check, loading a key, and PSS; \<open>RsaLife\<close>: a key over any history of uses, as a step relation;
    \<open>DemoKey\<close> is a key for the witnesses.
  \<^item> \<open>Simd\<close>, \<open>Gf128\<close>, \<open>Aes\<close>, \<open>Gcm\<close>: vector instructions as the processor's manual defines them, the field
    multiplication, the block cipher and the mode; the locale \<open>aead\<close> is what the record layer relies on.
  \<^item> \<open>Hs13Parse\<close>, \<open>Hs13Hello\<close>: the parser, and an encoder of structured hellos to compare it with.
  \<^item> \<open>Hs13Msg\<close>, \<open>Hs13Flight\<close>: messages and records, then key schedule and flight. The flight is a list of steps, one for
    each call in the C text; an early exit is a step that fails.
  \<^item> \<open>Builds\<close>: the stubs compiled where 128-bit integers or the instructions are missing, the support checks, and the
    flight on each build.
  \<^item> \<open>Bio\<close>, \<open>TlsLinux\<close>, \<open>EpollWait\<close>, \<open>Files\<close> (for Windows, macOS and Linux), \<open>Crc32\<close>: the helpers named above.
  \<^item> \<open>EpollWorkers\<close>: any number of workers that share the flag of the wait without a lock, as a step relation.
  \<^item> \<open>GzipCrc\<close>: the caller of the CRC routine, with its tables.
  This theory has the properties of the whole handshake.

  \<^bold>\<open>How state and operations correspond.\<close> A C structure is a record with the same fields, an array a list, a pointer
  with the bytes behind it a list (a null pointer \<open>None\<close>). An operation returns its return value and what it leaves in
  each argument it writes. Where memory safety is a question (the handshake, the transport) a load or store outside an
  object makes the result \<open>None\<close>, so that \<open>Some\<close> in a theorem includes that there is none. Arithmetic keeps its C width:
  \<open>64 word\<close>, \<open>128 word\<close>, and \<open>c_int\<close> for conversions to \<^verbatim>\<open>int\<close>. Sizes of objects in memory are natural numbers.

  \<^bold>\<open>What the lemmas show.\<close> X25519 is the ladder of RFC 7748 and no limb ever wraps. The private operation computes
  \<open>in ^ d mod n\<close> for every well-formed key, keeps the key well-formed, and releases nothing that the public exponent does
  not confirm, whatever the CRT values are; loading a key establishes what signing needs; PSS signatures verify by
  RFC 8017. The AES code is FIPS 197 and the GCM code SP 800-38D for every length, and opening undoes sealing and refuses every
  other tag. The parser reads no byte outside the message and serves exactly the encodings of the hellos the rules serve. The
  flight, whatever library call fails, is the flight of RFC 8446 with the keys of its schedule, or nothing with every key
  wiped; with the buffer the engine gives it, it fails only for a share of small order, and after it exactly one message
  is accepted, the client's Finished. A build with stubs gives no flight and leaves no key. A loaded key stays well-formed
  and able to sign over any history of uses. The policy given to mbedtls agrees with the hellos served here. The
  transport delivers the bytes of the socket in order and does not stall. Waits are exact or rounded up by less than a
  millisecond, each worker is refused at most once however their steps interleave, opening a file leaks no descriptor on any platform,
  and the CRC by carry-less multiplication and that of the gzip responses are the shift register of the standard.

  \<^bold>\<open>Bounds and termination.\<close> Every loop is a structural recursion or has a measure; there is no fuel. The search for a
  blinding value in \<^verbatim>\<open>viltrum_rsa_load\<close> is a partial function, and that it returns is proved from what the generator yields.
  RSA moduli have 1024 to 4096 bits (the code's own bounds); waits are at most 24 days, beyond which the conversion to
  \<^verbatim>\<open>int\<close> would wrap; the read-ahead buffer is below two gigabytes for the same reason.

  \<^bold>\<open>Parameters.\<close> mbedtls (SHA-256, HKDF, HMAC, bignums, the key file, the generator), the sockets and the kernel are
  arguments, with their documented behaviour as hypotheses: \<open>mbedtls_spec\<close> and \<open>rsa_pk_valid\<close> for bignums and the parsed
  key, \<open>mbed_spec\<close> for hashes and key derivation (\<open>mbed_total\<close> where a theorem says that the flight succeeds), \<open>os_fresh\<close> for
  \<^verbatim>\<open>open\<close> and \<open>os_file\<close> for reading. Error codes of mbedtls are negative (\<open>codes_negative\<close>), and its choice of
  an application protocol keeps the order of the table (\<open>alpn_preference\<close>). What a socket may do is the step relation of \<open>Bio\<close>, and what the kernel may
  answer to a wait is an argument of that of \<open>EpollWorkers\<close>.

  \<^bold>\<open>Not modelled.\<close> The V sources apart from \<^verbatim>\<open>crc32\<close> and \<^verbatim>\<open>make_crc_table\<close> of \<^verbatim>\<open>src/http1/deflate.v\<close> (HTTP parsers,
  HTTP/2, WebSocket, router, event loop, the record layer after the handshake), which are another language; the load
  generator and the test driver, which are no part of the server; wipes of local variables, which leave no value to
  speak of; timing, so that constant-time claims are not theorems here (only that the masked reads and selections give the
  right value); and the agreement of both sides of the key exchange, which needs the group law of the curve. Every other
  function of the C headers has a definition, apart from \<^verbatim>\<open>viltrum_hs13_md\<close>, which only names SHA-256 to mbedtls.
\<close>

section \<open>From the key file and the ClientHello to the server's flight\<close>

lemma share_32: "ext_ok e \<Longrightarrow> k \<in> set (shares_of e) \<Longrightarrow> length k = 32"
  by (cases e) (auto simp: x25519_shares_def)

text \<open>A hello that the parser serves meets what the flight asks of its arguments.\<close>

lemma served_hello:
  assumes "viltrum_hs13_parse msg h2 = Some (1, h)"
  obtains c where "hello_ok c" "msg = enc_hello c" "hello_verdict h2 c = 1" "h = hello_result h2 c"
    "length (h_session_id h) = 32" "h_session_id_len h \<le> 32" "length (h_share h) = 32"
    "take (h_session_id_len h) (h_session_id h) = ch_sid c"
proof (cases rule: parse_outcome [of msg h2])
  case (judged c h')
  then have c: "hello_ok c" "msg = enc_hello c" "hello_verdict h2 c = 1" "h = hello_result h2 c"
    using assms by auto
  then have "concat (map shares_of (ch_exts c)) \<noteq> []" "length (ch_sid c) \<le> 32" "\<forall>e \<in> set (ch_exts c). ext_ok e"
    by (auto simp: hello_verdict_def hello_served_def hello_ok_def hello_head_ok_def exts_ok_def split: if_splits)
  moreover from this have "length (hd (concat (map shares_of (ch_exts c)))) = 32"
    using share_32 hd_in_set [of "concat (map shares_of (ch_exts c))"] by auto
  ultimately show thesis
    using c by (intro that [of c]) (simp_all add: hello_result_def)
qed (use assms in auto)

text \<open>
  C1. A handshake from its beginning: the key is one that \<^verbatim>\<open>viltrum_rsa_load\<close> returned, the hello is one that
  \<^verbatim>\<open>viltrum_hs13_parse\<close> serves, the buffer has the size the engine gives it and no library call fails. Then the message
  is the encoding of a ClientHello that TLS 1.3 and the server's choices allow, and unless the client's share is of small
  order the flight is built: it opens with the ServerHello that echoes this client's session ID, and all of it is the
  flight of RFC 8446 for this hello. For a share of small order there is no output and no key is left.
\<close>

theorem hs13_handshake:
  assumes "mbedtls_spec L val" "rsa_pk_valid L val pk" "viltrum_rsa_load L pk rng = Some ((0, a_key a), rng')"
    and parse: "viltrum_hs13_parse (a_ch a) h2 = Some (1, a_hello a)"
    and lib: "mbed_spec (a_lib a) H" "mbed_total (a_lib a)"
    and mem: "length (a_rnd a) = 96" "gcm_shape (a_tx a)" "keys_shape (a_keys a)" "a_cap a \<le> length (a_out a)"
    and cap: "length (a_cert a) + 1024 + 22 * (length (a_cert a) div 16384 + 4) \<le> a_cap a"
  shows "\<exists>c r. hello_ok c \<and> a_ch a = enc_hello c \<and> hello_verdict h2 c = 1 \<and> viltrum_hs13_flight_with a = Some r \<and>
    (if viltrum_x25519 (take 32 (drop 32 (a_rnd a))) (hd (concat (map shares_of (ch_exts c)))) = replicate 32 0
     then r_ret r = - 1 \<and> r_out_len r = 0 \<and> r_keys r = keys_zero
     else r_ret r = 0 \<and> flight_spec H a (take (r_out_len r) (r_out r)) (r_keys r) (r_key r) \<and>
       (\<exists>rest. take (r_out_len r) (r_out r) = plain_record 22 (enc_server_hello (take 32 (a_rnd a)) (ch_sid c)
         (viltrum_x25519_base (take 32 (drop 32 (a_rnd a))))) @ rest))"
proof -
  have key: "rsa_key_wf (a_key a)" "key_ok (a_key a)" "16 \<le> key_limbs (a_key a)" "key_limbs (a_key a) \<le> 64"
    "2 ^ (64 * key_limbs (a_key a) - 1) \<le> le_val (key_n (a_key a))"
    using viltrum_rsa_load_correct [OF assms(1-3)] by auto
  obtain c where c: "hello_ok c" "a_ch a = enc_hello c" "hello_verdict h2 c = 1" "a_hello a = hello_result h2 c"
    "length (h_session_id (a_hello a)) = 32" "h_session_id_len (a_hello a) \<le> 32" "length (h_share (a_hello a)) = 32"
    "take (h_session_id_len (a_hello a)) (h_session_id (a_hello a)) = ch_sid c"
    using parse by (rule served_hello)
  have ok: "args_ok a"
    using key c mem by (simp add: args_ok_def)
  obtain r where r: "viltrum_hs13_flight_with a = Some r" "r_ret r = 0 \<or> r_ret r = - 1" "flight_good a \<Longrightarrow> r_ret r = 0"
    "r_ret r = 0 \<Longrightarrow> key_usable a \<and> flight_spec H a (take (r_out_len r) (r_out r)) (r_keys r) (r_key r)"
    "r_ret r = - 1 \<Longrightarrow> r_out_len r = 0 \<and> r_keys r = keys_zero"
    using flight_result [OF lib(1) ok] by metis
  have share: "a_shared a = viltrum_x25519 (take 32 (drop 32 (a_rnd a))) (hd (concat (map shares_of (ch_exts c))))"
    using c(4) by (simp add: a_shared_def hello_result_def)
  have "flight_good a \<longleftrightarrow> a_shared a \<noteq> replicate 32 0"
    using key lib(2) cap flight_size_bound [OF ok key(4)] by (simp add: flight_good_def)
  moreover have "\<exists>rest. bytes = plain_record 22 (sh_msg a) @ rest" if "flight_spec H a bytes keys key'" for bytes keys key'
    using that by (auto simp: flight_spec_def Let_def flight_head_def)
  moreover have "sh_msg a = enc_server_hello (take 32 (a_rnd a)) (ch_sid c) (viltrum_x25519_base (take 32 (drop 32 (a_rnd a))))"
    using c(8) by (simp add: sh_msg_def a_sid_def)
  ultimately show ?thesis
    using c(1-3) r share by (intro exI [of _ c] exI [of _ r]) (auto simp: key_usable_def)
qed

definition demo_handshake :: "viltrum_rsa \<Rightarrow> u8 list hs13_args" where
  "demo_handshake key = (demo_args key)\<lparr>a_ch := enc_hello demo_hello, a_hello := hello_result True demo_hello\<rparr>"

theorem hs13_handshake_witness:
  "\<exists>key c r. viltrum_rsa_load int_lib demo_pk [2] = Some ((0, key), []) \<and> enc_hello demo_hello = enc_hello c \<and>
    viltrum_hs13_flight_with (demo_handshake key) = Some r \<and>
    (if viltrum_x25519 (replicate 32 5) (hd (concat (map shares_of (ch_exts c)))) = replicate 32 0
     then r_ret r = - 1 \<and> r_out_len r = 0 \<and> r_keys r = keys_zero
     else r_ret r = 0 \<and> flight_spec demo_sha (demo_handshake key) (take (r_out_len r) (r_out r)) (r_keys r) (r_key r))"
proof -
  obtain key where key: "viltrum_rsa_load int_lib demo_pk [2] = Some ((0, key), [])"
    by (rule demo_flight)
  have parse: "viltrum_hs13_parse (enc_hello demo_hello) True = Some (1, hello_result True demo_hello)"
    using parse_enc_hello [OF demo_hello_ok, of True] demo_verdict by simp
  have "gcm_shape gcm_zero" "keys_shape keys_zero"
    using gcm_zero_shape by (simp_all add: keys_shape_def keys_zero_def)
  then show ?thesis
    using hs13_handshake [where a = "demo_handshake key" and ?h2.0 = True and H = demo_sha, OF int_lib_spec demo_pk_valid]
      key parse demo_kdf_spec
    by (fastforce simp: demo_handshake_def demo_args_def)
qed

section \<open>The end of the handshake\<close>

text \<open>
  C13. What the server accepts in the end: after a flight that succeeded, \<^verbatim>\<open>viltrum_hs13_finished_ok\<close> accepts exactly one
  message, the client's Finished of RFC 8446. Its transcript is what went over the wire: the ClientHello, the ServerHello
  and the messages that a client reads from the records of the flight with the server's handshake keys, which are
  EncryptedExtensions, the certificates, the CertificateVerify with the signature the key has made over the transcript so
  far, and the server's Finished. All keys come from the one key schedule of this shared secret and this hello. Every
  other flight has returned -1 with its keys wiped.
\<close>

theorem hs13_client_finished:
  assumes "mbed_spec (a_lib a) H" "args_ok a" "viltrum_hs13_flight_with a = Some r"
  shows "if r_ret r = 0 then
    (\<exists>c_hs s_hs master s_key s_iv g recs sent sig smac mac.
      key_schedule (a_lib a) (a_shared a) (H (a_ch a @ sh_msg a)) = Some (c_hs, s_hs, master) \<and>
      traffic_keys (a_lib a) s_hs = Some (s_key, s_iv) \<and> viltrum_gcm_init (a_tx a) s_key 16 = (0, g) \<and>
      take (r_out_len r) (r_out r) = flight_head a @ recs \<and> gcm_reads g s_iv 0 recs = Some sent \<and>
      sent = ee_msg a @ a_cert a @ cv_msg sig @ fin_msg smac \<and> cert_signed H a sig (r_key r) \<and>
      verify_data (a_lib a) s_hs (H (a_ch a @ sh_msg a @ ee_msg a @ a_cert a @ cv_msg sig)) = Some smac \<and>
      verify_data (a_lib a) c_hs (H (a_ch a @ sh_msg a @ sent)) = Some mac \<and>
      (\<forall>msg. viltrum_hs13_finished_ok msg (r_keys r) = Some (msg = fin_msg mac)))
    else r_ret r = - 1 \<and> r_keys r = keys_zero"
proof (cases "r_ret r = 0")
  case True
  then have "flight_spec H a (take (r_out_len r) (r_out r)) (r_keys r) (r_key r)"
    using flight_result [OF assms(1,2)] assms(3) by (metis option.inject)
  then obtain c_hs s_hs master s_key s_iv g sig smac recs where run:
    "key_schedule (a_lib a) (a_shared a) (H (a_ch a @ sh_msg a)) = Some (c_hs, s_hs, master)"
    "traffic_keys (a_lib a) s_hs = Some (s_key, s_iv)" "viltrum_gcm_init (a_tx a) s_key 16 = (0, g)"
    "cert_signed H a sig (r_key r)"
    "verify_data (a_lib a) s_hs (H (a_ch a @ sh_msg a @ ee_msg a @ a_cert a @ cv_msg sig)) = Some smac"
    "take (r_out_len r) (r_out r) = flight_head a @ recs"
    "gcm_reads g s_iv 0 recs = Some (ee_msg a @ a_cert a @ cv_msg sig @ fin_msg smac)"
    "verify_data (a_lib a) c_hs (H (a_ch a @ sh_msg a @ ee_msg a @ a_cert a @ cv_msg sig @ fin_msg smac)) = Some (k_c_fin (r_keys r))"
    unfolding flight_spec_def Let_def by auto
  then have "length (k_c_fin (r_keys r)) = 32"
    using mbed_specD(6) [OF assms(1)] by (auto simp: verify_data_def split: bind_splits)
  then have "\<forall>msg. viltrum_hs13_finished_ok msg (r_keys r) = Some (msg = fin_msg (k_c_fin (r_keys r)))"
    by (simp add: finished_ok_eq fin_msg_def)
  with run True show ?thesis
    by (simp only: if_P) blast
next
  case False
  then show ?thesis
    using flight_result [OF assms(1,2)] assms(3) by (metis option.inject)
qed

theorem hs13_client_finished_witness:
  "\<exists>key r. viltrum_rsa_load int_lib demo_pk [2] = Some ((0, key), []) \<and> viltrum_hs13_flight_with (demo_args key) = Some r \<and>
    (if r_ret r = 0 then (\<exists>mac. \<forall>msg. viltrum_hs13_finished_ok msg (r_keys r) = Some (msg = fin_msg mac))
     else r_ret r = - 1 \<and> r_keys r = keys_zero)"
proof -
  obtain key where key: "viltrum_rsa_load int_lib demo_pk [2] = Some ((0, key), [])" "args_ok (demo_args key)"
    by (rule demo_flight)
  have spec: "mbed_spec (a_lib (demo_args key)) demo_sha"
    using demo_kdf_spec by (simp add: demo_args_def)
  obtain r where "viltrum_hs13_flight_with (demo_args key) = Some r"
    using flight_result [OF spec key(2)] by metis
  with hs13_client_finished [OF spec key(2) this] key(1) show ?thesis
    by (intro exI [of _ key] exI [of _ r]) (auto split: if_splits)
qed

section \<open>The two handshakes of the engine\<close>

text \<open>
  A hello that the own handshake does not take goes to mbedtls under the policy of \<^verbatim>\<open>viltrum_tls_conf\<close>. How mbedtls
  chooses the application protocol is a parameter, from the table it was given and the client's list to a protocol; what
  it documents is that the table ends at its terminator and is in order of preference.
\<close>

definition alpn_preference :: "(string option list \<Rightarrow> u8 list list \<Rightarrow> string option) \<Rightarrow> bool" where
  "alpn_preference select \<longleftrightarrow> (\<forall>ps rest client p. select (map Some ps @ None # rest) client = Some p \<longleftrightarrow>
     (\<exists>us vs. ps = us @ p # vs \<and> chars p \<in> set client \<and> (\<forall>u \<in> set us. chars u \<notin> set client)))"

lemma conf_success:
  assumes "viltrum_tls_conf res tickets h2 = (0, calls)"
  shows "[v. Conf_Min_Version v \<leftarrow> calls] = [TLS1_2]" "[v. Conf_Max_Version v \<leftarrow> calls] = [TLS1_3]"
    "[ss. Conf_Suites ss \<leftarrow> calls] = [viltrum_tls_suites]" "[gs. Conf_Groups gs \<leftarrow> calls] = [viltrum_tls_groups]"
    "[ps. Conf_Alpn ps \<leftarrow> calls] = [if h2 then viltrum_tls_alpn_h2 else viltrum_tls_alpn]"
  using assms by (auto simp: viltrum_tls_conf_def Let_def split: if_splits)

lemma alpn_one:
  assumes "alpn_preference select"
  shows "select [Some q, None] client = (if chars q \<in> set client then Some q else None)"
proof -
  have "select [Some q, None] client = Some p \<longleftrightarrow> p = q \<and> chars q \<in> set client" for p
    using assms [unfolded alpn_preference_def, rule_format, of "[q]" "[]" client p] by (auto simp: Cons_eq_append_conv)
  then show ?thesis
    by (cases "select [Some q, None] client") auto
qed

lemma alpn_two:
  assumes "alpn_preference select"
  shows "select [Some q, Some q', None] client =
    (if chars q \<in> set client then Some q else if chars q' \<in> set client then Some q' else None)"
proof -
  have "select [Some q, Some q', None] client = Some p \<longleftrightarrow>
      p = q \<and> chars q \<in> set client \<or> p = q' \<and> chars q' \<in> set client \<and> chars q \<notin> set client" for p
    using assms [unfolded alpn_preference_def, rule_format, of "[q, q']" "[]" client p] by (auto simp: Cons_eq_append_conv)
  then show ?thesis
    by (cases "select [Some q, Some q', None] client") auto
qed

lemma alpn_chosen:
  assumes "alpn_preference select"
  shows "select (if h2 then viltrum_tls_alpn_h2 else viltrum_tls_alpn) (concat (map protos_of es)) =
    (if chosen_alpn h2 es = 2 then Some ''h2'' else if chosen_alpn h2 es = 1 then Some ''http/1.1'' else None)"
proof -
  have "chars ''h2'' = proto_h2" "chars ''http/1.1'' = proto_http11"
    by (simp_all add: chars_def proto_h2_def proto_http11_def)
  then show ?thesis
    by (auto simp: alpn_one [OF assms] alpn_two [OF assms] viltrum_tls_alpn_def viltrum_tls_alpn_h2_def chosen_alpn_def offers_def)
qed

lemma no_alpn_ext: "\<not> (\<exists>e \<in> set es. is_alpn e) \<Longrightarrow> chosen_alpn h2 es = 0"
  using protos_of_not_alpn by (fastforce simp: chosen_alpn_def offers_def)

text \<open>
  C17. The two handshakes of the engine treat a client alike: for a hello that the parser serves, and however mbedtls
  chooses within its documented rule, the one table of protocols the policy gives it makes it choose the protocol the
  parser chose; a client that offers protocols is served only if there is one, so that none is served here whom the
  policy refuses, and one that offers none gets none. The policy sets versions, suites and groups once, and they
  include TLS 1.3 and the suite and group that the parser has found in the hello.
\<close>

theorem tls_policy_matches_hs13:
  assumes "viltrum_tls_conf res tickets h2 = (0, calls)" "viltrum_hs13_parse msg h2 = Some (1, h)" "alpn_preference select"
  shows "\<exists>c lo hi ss gs ps. msg = enc_hello c \<and> [p. Conf_Alpn p \<leftarrow> calls] = [ps] \<and>
    (if \<exists>e \<in> set (ch_exts c). is_alpn e
     then (h_alpn h = 1 \<or> h_alpn h = 2) \<and>
       select ps (concat (map protos_of (ch_exts c))) = Some (if h_alpn h = 2 then ''h2'' else ''http/1.1'')
     else h_alpn h = 0 \<and> select ps (concat (map protos_of (ch_exts c))) = None) \<and>
    [v. Conf_Min_Version v \<leftarrow> calls] = [lo] \<and> [v. Conf_Max_Version v \<leftarrow> calls] = [hi] \<and> lo \<le> TLS1_3 \<and> TLS1_3 \<le> hi \<and>
    [s. Conf_Suites s \<leftarrow> calls] = [ss] \<and> 0x1301 \<in> set (ch_suites c) \<and> 0x1301 \<in> set (takeWhile (\<lambda>s. s \<noteq> 0) ss) \<and>
    [g. Conf_Groups g \<leftarrow> calls] = [gs] \<and> offers groups_of (ch_exts c) 29 \<and> 29 \<in> set (takeWhile (\<lambda>g. g \<noteq> 0) gs)"
proof -
  obtain c where c: "msg = enc_hello c" "hello_verdict h2 c = 1" "h = hello_result h2 c"
    using assms(2) by (rule served_hello)
  let ?ps = "if h2 then viltrum_tls_alpn_h2 else viltrum_tls_alpn"
  have served: "0x1301 \<in> set (ch_suites c)" "offers groups_of (ch_exts c) 29"
    "(\<exists>e \<in> set (ch_exts c). is_alpn e) \<longrightarrow> chosen_alpn h2 (ch_exts c) \<noteq> 0"
    using c(2) by (auto simp: hello_verdict_def hello_served_def split: if_splits)
  have tables: "0x1301 \<in> set (takeWhile (\<lambda>s. s \<noteq> 0) viltrum_tls_suites)" "29 \<in> set (takeWhile (\<lambda>g. g \<noteq> 0) viltrum_tls_groups)"
    "TLS1_2 \<le> TLS1_3" "TLS1_3 \<le> TLS1_3"
    by (simp_all add: viltrum_tls_suites_def viltrum_tls_groups_def less_eq_tls_version_def)
  have h: "h_alpn h = chosen_alpn h2 (ch_exts c)"
    by (simp add: c(3) hello_result_def)
  moreover have "chosen_alpn h2 (ch_exts c) \<in> {0, 1, 2}"
    by (simp add: chosen_alpn_def)
  ultimately have "if \<exists>e \<in> set (ch_exts c). is_alpn e
     then (h_alpn h = 1 \<or> h_alpn h = 2) \<and>
       select ?ps (concat (map protos_of (ch_exts c))) = Some (if h_alpn h = 2 then ''h2'' else ''http/1.1'')
     else h_alpn h = 0 \<and> select ?ps (concat (map protos_of (ch_exts c))) = None"
    unfolding alpn_chosen [OF assms(3)] using served(3) no_alpn_ext [of "ch_exts c" h2] by auto
  then show ?thesis
    using c(1) served(1,2) tables conf_success [OF assms(1)] by blast
qed

text \<open>One function that keeps the rule.\<close>

definition alpn_first :: "string option list \<Rightarrow> u8 list list \<Rightarrow> string option" where
  "alpn_first ps client = find (\<lambda>p. chars p \<in> set client) (map the (takeWhile (\<lambda>p. p \<noteq> None) ps))"

lemma alpn_first_preference: "alpn_preference alpn_first"
proof -
  have "find P ps = Some p \<longleftrightarrow> (\<exists>us vs. ps = us @ p # vs \<and> P p \<and> (\<forall>u \<in> set us. \<not> P u))" for P and ps :: "string list" and p
  proof (induction ps)
    case (Cons q ps)
    show ?case
    proof (cases "P q")
      case False
      then have "(\<exists>us vs. q # ps = us @ p # vs \<and> P p \<and> (\<forall>u \<in> set us. \<not> P u)) \<longleftrightarrow> (\<exists>us vs. ps = us @ p # vs \<and> P p \<and> (\<forall>u \<in> set us. \<not> P u))"
        by (auto simp: Cons_eq_append_conv) (metis list.set_intros set_ConsD)
      then show ?thesis
        using False Cons by simp
    qed (auto simp: Cons_eq_append_conv)
  qed simp
  moreover have "takeWhile (\<lambda>p. p \<noteq> None) (map Some ps @ None # rest) = map Some ps" for ps :: "string list" and rest
    by (induction ps) simp_all
  ultimately show ?thesis
    by (simp add: alpn_preference_def alpn_first_def comp_def)
qed

theorem tls_policy_matches_hs13_witness:
  "\<exists>c ps. enc_hello demo_hello = enc_hello c \<and> [p. Conf_Alpn p \<leftarrow> snd (viltrum_tls_conf (\<lambda>_. 0) True True)] = [ps] \<and>
    (if \<exists>e \<in> set (ch_exts c). is_alpn e then alpn_first ps (concat (map protos_of (ch_exts c))) = Some ''h2'' else False)"
proof -
  have run: "viltrum_tls_conf (\<lambda>_. 0) True True = (0, snd (viltrum_tls_conf (\<lambda>_. 0) True True))"
    by (simp add: viltrum_tls_conf_def Let_def)
  have parse: "viltrum_hs13_parse (enc_hello demo_hello) True = Some (1, hello_result True demo_hello)"
    using parse_enc_hello [OF demo_hello_ok, of True] demo_verdict by simp
  have two: "h_alpn (hello_result True demo_hello) = 2"
    by (simp add: hello_result_def chosen_alpn_def offers_def demo_hello_def)
  let ?h = "hello_result True demo_hello"
  obtain c ps where c: "enc_hello demo_hello = enc_hello c" "[p. Conf_Alpn p \<leftarrow> snd (viltrum_tls_conf (\<lambda>_. 0) True True)] = [ps]"
    and alpn: "if \<exists>e \<in> set (ch_exts c). is_alpn e
      then (h_alpn ?h = 1 \<or> h_alpn ?h = 2) \<and>
        alpn_first ps (concat (map protos_of (ch_exts c))) = Some (if h_alpn ?h = 2 then ''h2'' else ''http/1.1'')
      else h_alpn ?h = 0 \<and> alpn_first ps (concat (map protos_of (ch_exts c))) = None"
    using tls_policy_matches_hs13 [OF run parse alpn_first_preference] by blast
  have "if \<exists>e \<in> set (ch_exts c). is_alpn e then alpn_first ps (concat (map protos_of (ch_exts c))) = Some ''h2'' else False"
    using alpn two by (cases "\<exists>e \<in> set (ch_exts c). is_alpn e") simp_all
  with c show ?thesis
    by blast
qed

end
